(* ===== verification/Prelude.thy ===== *)
theory Prelude
  imports Main "HOL-Library.Word" "HOL-Library.List_Lexorder" "HOL-Library.Sublist"
begin

text \<open>
  Shared vocabulary of the development: the machine types of the C++ code as
  words, byte strings as lists of 8-bit words, the collections the component
  proofs draw on, and the generic lemmas on lists and words that several
  components use.  A \<^theory_text>\<open>char\<close> of the code is a byte here; a \<open>std::string\<close>, a
  \<open>std::string_view\<close> and the memory a \<open>char*\<close> points into are byte lists.
  A \<open>size_t\<close> is a \<open>nat\<close>; where the code narrows it to 32 bits the model
  applies \<open>word_of_nat\<close>, which wraps.
\<close>

unbundle bit_operations_syntax

type_synonym byte = "8 word"
type_synonym bytes = "8 word list"
type_synonym u32 = "32 word"
type_synonym u64 = "64 word"

text \<open>A C++ string literal as bytes.\<close>

definition str :: "string \<Rightarrow> bytes" where
  "str s = map of_char s"

text \<open>Facts on the lengths of encodings, and round-trip facts of the codecs.\<close>

named_theorems size_simps
named_theorems roundtrip_simps

section \<open>Lists\<close>

lemma take_append_exact [simp]: "length xs = n \<Longrightarrow> take n (xs @ ys) = xs"
  by simp

lemma drop_append_exact [simp]: "length xs = n \<Longrightarrow> drop n (xs @ ys) = ys"
  by simp

text \<open>Writing a block of bytes over the bytes at an offset (a \<open>char*\<close> store).\<close>

definition overwrite :: "nat \<Rightarrow> 'a list \<Rightarrow> 'a list \<Rightarrow> 'a list" where
  "overwrite off new old = take off old @ new @ drop (off + length new) old"

lemma length_overwrite [size_simps]:
  "off + length new \<le> length old \<Longrightarrow> length (overwrite off new old) = length old"
  by (simp add: overwrite_def)

lemma overwrite_0 [simp]: "length new = length old \<Longrightarrow> overwrite 0 new (old @ rest) = new @ rest"
  by (simp add: overwrite_def)

lemma overwrite_append:
  "length pre = off \<Longrightarrow> length new = length old \<Longrightarrow>
   overwrite off new (pre @ old @ rest) = pre @ new @ rest"
  by (simp add: overwrite_def)

lemma sorted_wrt_map_mono:
  "sorted_wrt P xs \<Longrightarrow> (\<And>x y. x \<in> set xs \<Longrightarrow> y \<in> set xs \<Longrightarrow> P x y \<Longrightarrow> Q x y) \<Longrightarrow>
   sorted_wrt Q xs"
  by (rule sorted_wrt_mono_rel)

text \<open>A list split by a predicate that is true on an initial segment only.\<close>

lemma takeWhile_eq_filter_sorted:
  assumes "sorted_wrt (\<lambda>x y. P y \<longrightarrow> P x) xs"
  shows "takeWhile P xs = filter P xs" and "dropWhile P xs = filter (\<lambda>x. \<not> P x) xs"
  using assms by (induction xs) (auto simp: filter_empty_conv)

section \<open>Words\<close>

lemma unat_less_pow: "unat (w :: 'a::len word) < 2 ^ LENGTH('a)"
  by (rule unsigned_less)

lemma unat_word_of_nat_less: "n < 2 ^ LENGTH('a::len) \<Longrightarrow> unat (word_of_nat n :: 'a word) = n"
  by (simp add: unsigned_of_nat take_bit_nat_eq_self)

lemma unat_ucast_u32_u64 [simp]: "unat (ucast (v :: u32) :: u64) = unat v"
  by (simp add: unsigned_ucast_eq take_bit_nat_eq_self_iff less_trans [OF unat_less_pow])

lemma ucast_u32_u64_u32 [simp]: "ucast (ucast (v :: u32) :: u64) = v"
  by (rule bit_word_eqI) (simp add: bit_simps)

lemma push_bit_or: "push_bit n (a OR b) = push_bit n a OR push_bit n (b :: 'a::len word)"
  by (rule bit_word_eqI) (auto simp: bit_simps)

lemma less_pow_bitD:
  assumes "unat (w :: 'a::len word) < 2 ^ n" and "n \<le> i"
  shows "\<not> bit w i"
proof -
  have "bit w i \<Longrightarrow> 2 ^ i \<le> unat w"
  proof -
    assume "bit w i"
    then have "bit (unat w) i" by (simp add: bit_unsigned_iff bit_imp_le_length)
    then have "odd (unat w div 2 ^ i)" by (simp add: bit_iff_odd)
    then have "unat w div 2 ^ i \<noteq> 0" by (metis even_zero)
    then show "2 ^ i \<le> unat w" by (simp add: div_eq_0_iff)
  qed
  moreover have "(2::nat) ^ n \<le> 2 ^ i" using assms(2) by simp
  ultimately show ?thesis using assms(1) by linarith
qed

lemma bit_255: "bit (255 :: int) n \<longleftrightarrow> n < 8"
  using bit_mask_iff [of 8 n, where 'a = int] by (simp add: mask_eq_exp_minus_1)

lemma bit_127: "bit (127 :: int) n \<longleftrightarrow> n < 7"
  using bit_mask_iff [of 7 n, where 'a = int] by (simp add: mask_eq_exp_minus_1)

lemma bit_128: "bit (128 :: int) n \<longleftrightarrow> n = 7"
  using bit_exp_iff [of 7 n, where 'a = int] by simp

text \<open>The simplifier reads the bits of a numeral word off the integer of the same name.\<close>

lemmas bit_consts = bit_255 bit_127 bit_128

section \<open>Little-endian words\<close>

text \<open>
  \<open>le_bytes n v\<close> are the \<open>n\<close> low bytes of \<open>v\<close>, the lowest first; \<open>le_join\<close> puts
  bytes together again.  Both are characterised by their bits, which carries the
  proofs of every fixed-width codec and of the word-wise checksum.
\<close>

definition le_bytes :: "nat \<Rightarrow> 'a::len word \<Rightarrow> bytes" where
  "le_bytes n v = map (\<lambda>i. ucast (drop_bit (8 * i) v)) [0..<n]"

primrec le_join :: "bytes \<Rightarrow> 'a::len word" where
  "le_join [] = 0"
| "le_join (b # bs) = ucast b OR push_bit 8 (le_join bs)"

lemma length_le_bytes [size_simps, simp]: "length (le_bytes n v) = n"
  by (simp add: le_bytes_def)

lemma bit_le_join:
  "bit (le_join bs :: 'a::len word) i \<longleftrightarrow>
     i < LENGTH('a) \<and> i div 8 < length bs \<and> bit (bs ! (i div 8)) (i mod 8)"
proof (induction bs arbitrary: i)
  case (Cons b bs)
  show ?case
  proof (cases "i < 8")
    case True
    then show ?thesis by (auto simp: bit_simps)
  next
    case False
    then obtain j where j: "i = j + 8" by (metis le_add_diff_inverse2 not_le)
    have "\<not> bit b i" using False bit_imp_le_length [of b i] by auto
    then have "bit (le_join (b # bs) :: 'a word) i \<longleftrightarrow> i < LENGTH('a) \<and> bit (le_join bs :: 'a word) j"
      using False by (auto simp: bit_simps j)
    moreover have "(j + 8) div 8 = Suc (j div 8)" by (simp add: div_add_self2)
    ultimately show ?thesis by (auto simp: Cons.IH j)
  qed
qed simp

lemma take_bit_full [simp]: "take_bit 32 (v :: u32) = v" "take_bit 64 (w :: u64) = w"
  "take_bit 8 (b :: byte) = b"
  by (simp_all add: take_bit_word_eq_self)

lemma nth_le_bytes: "i < n \<Longrightarrow> le_bytes n v ! i = ucast (drop_bit (8 * i) v)"
  by (simp add: le_bytes_def)

lemma le_join_le_bytes [simp]: "le_join (le_bytes n v) = take_bit (8 * n) (v :: 'a::len word)"
proof (rule bit_word_eqI)
  fix i assume "i < LENGTH('a)"
  have "i div 8 < n \<longleftrightarrow> i < 8 * n" by auto
  then show "bit (le_join (le_bytes n v) :: 'a word) i \<longleftrightarrow> bit (take_bit (8 * n) v) i"
    using \<open>i < LENGTH('a)\<close> by (auto simp: bit_le_join nth_le_bytes bit_simps)
qed

lemma le_bytes_le_join [simp]:
  assumes "8 * length bs \<le> LENGTH('a::len)"
  shows "le_bytes (length bs) (le_join bs :: 'a word) = bs"
proof (rule nth_equalityI)
  fix i assume "i < length (le_bytes (length bs) (le_join bs :: 'a word))"
  then have i: "i < length bs" by simp
  show "le_bytes (length bs) (le_join bs :: 'a word) ! i = bs ! i"
  proof (rule bit_word_eqI)
    fix k assume "k < LENGTH(8)"
    then have k: "k < 8" by simp
    then have "(8 * i + k) div 8 = i" "(8 * i + k) mod 8 = k" by simp_all
    moreover have "8 * i + k < LENGTH('a)" using assms i k by linarith
    ultimately show "bit (le_bytes (length bs) (le_join bs :: 'a word) ! i) k \<longleftrightarrow> bit (bs ! i) k"
      using i k by (simp add: nth_le_bytes bit_simps bit_le_join)
  qed
qed simp

lemma take_min_length [simp]: "take (min k (length xs)) xs = take k xs"
  by (simp add: min_def)

end
