(* ===== verification/HashFn.thy ===== *)
theory HashFn
  imports Prelude
begin

text \<open>
  \<open>src/util/hash.h\<close>: the Murmur-like hash meant for Bloom filters.  Arithmetic is on 32
  bits; the length is multiplied in 64 bits and cut when it meets the seed, which is
  multiplication modulo \<open>2 ^ 32\<close>.  The lemmas show that every step can be undone, so the
  seed and each aligned group of four bytes determine the hash uniquely.
\<close>

definition hash_m :: u32 where "hash_m = 0xc6a4a793"

definition hash_r :: nat where "hash_r = 24"

text \<open>The loop over whole groups of four bytes, and the \<open>switch\<close> with its fall-through.\<close>

fun Hash_loop :: "bytes \<Rightarrow> u32 \<Rightarrow> u32 \<times> bytes" where
  "Hash_loop (d0 # d1 # d2 # d3 # data) h =
     (let w = ucast d0 OR push_bit 8 (ucast d1) OR push_bit 16 (ucast d2) OR push_bit 24 (ucast d3);
          h = h + w;
          h = h * hash_m;
          h = h XOR drop_bit 16 h
      in Hash_loop data h)"
| "Hash_loop data h = (h, data)"

definition Hash_tail :: "bytes \<Rightarrow> u32 \<Rightarrow> u32" where
  "Hash_tail data h =
     (let h = (if length data = 3 then h + push_bit 16 (ucast (data ! 2)) else h);
          h = (if 2 \<le> length data then h + push_bit 8 (ucast (data ! 1)) else h)
      in if 1 \<le> length data
         then let h = (h + ucast (data ! 0)) * hash_m in h XOR drop_bit hash_r h
         else h)"

definition Hash :: "bytes \<Rightarrow> u32 \<Rightarrow> u32" where
  "Hash data seed =
     (let h = seed XOR word_of_nat (length data) * hash_m;
          (h, data) = Hash_loop data h
      in Hash_tail data h)"

section \<open>Every step is reversible\<close>

lemma mult_m_inj [simp]: "a * hash_m = b * hash_m \<longleftrightarrow> a = b"
proof
  assume e: "a * hash_m = b * hash_m"
  have i: "x * hash_m * 3625553563 = x" for x
  proof -
    have "hash_m * 3625553563 = 1" by (simp add: hash_m_def)
    then show ?thesis by (simp add: mult.assoc)
  qed
  show "a = b" using i [of a] i [of b] unfolding e by simp
qed simp

lemma xor_cancel: "(a XOR c = b XOR c) \<longleftrightarrow> a = (b :: u32)"
proof
  assume e: "a XOR c = b XOR c"
  have "a = (a XOR c) XOR c" by (simp add: xor.assoc)
  also have "\<dots> = b" unfolding e by (simp add: xor.assoc)
  finally show "a = b" .
qed simp

lemma xor_shift_inj:
  assumes "16 \<le> k"
  shows "(a XOR drop_bit k a = b XOR drop_bit k b) \<longleftrightarrow> a = (b :: u32)"
proof
  assume e: "a XOR drop_bit k a = b XOR drop_bit k b"
  have "drop_bit k (drop_bit k x) = 0" for x :: u32
    by (rule bit_word_eqI) (use assms in \<open>auto simp: bit_simps dest: bit_imp_le_length\<close>)
  then have d: "drop_bit k (x XOR drop_bit k x) = drop_bit k x" for x :: u32 by (simp add: drop_bit_xor)
  have "drop_bit k a = drop_bit k b" using d [of a] d [of b] unfolding e by simp
  then show "a = b" using e xor_cancel by simp
qed simp

text \<open>The group of four bytes, and the tail of one to three, as numbers.\<close>

lemma group_le_join:
  "ucast d0 OR push_bit 8 (ucast d1) OR push_bit 16 (ucast d2) OR push_bit 24 (ucast d3) =
   (le_join [d0, d1, d2, d3] :: u32)"
  by (simp add: push_bit_or or.assoc)

lemma le_join_eq_iff:
  assumes "length as = length bs" "length as \<le> 4"
  shows "(le_join as :: u32) = le_join bs \<longleftrightarrow> as = bs"
  using assms le_bytes_le_join [of as, where 'a = 32] le_bytes_le_join [of bs, where 'a = 32] by auto

lemma Hash_loop_group:
  "Hash_loop (d0 # d1 # d2 # d3 # data) h =
    Hash_loop data ((h + le_join [d0, d1, d2, d3]) * hash_m XOR drop_bit 16 ((h + le_join [d0, d1, d2, d3]) * hash_m))"
  unfolding Hash_loop.simps group_le_join Let_def by (rule refl)

lemma plus_or_disjoint: "(a :: u32) AND b = 0 \<Longrightarrow> a + b = a OR b"
  by (rule disjunctive_add_eq_or)

lemma Hash_tail_le_join:
  assumes "0 < length p" "length p < 4"
  shows "Hash_tail p h = (h + le_join p) * hash_m XOR drop_bit hash_r ((h + le_join p) * hash_m)"
proof -
  have s1: "(ucast a :: u32) OR push_bit 8 (ucast b) = ucast a + push_bit 8 (ucast b)" for a b :: byte
    by (rule plus_or_disjoint [symmetric]) (rule bit_word_eqI, auto simp: bit_simps dest: bit_imp_le_length)
  have s2: "(ucast a :: u32) OR (push_bit 8 (ucast b) OR push_bit 16 (ucast c)) =
      ucast a + push_bit 8 (ucast b) + push_bit 16 (ucast c)" for a b c :: byte
  proof -
    have "(ucast a + push_bit 8 (ucast b)) + push_bit 16 (ucast c) =
        ((ucast a :: u32) OR push_bit 8 (ucast b)) OR push_bit 16 (ucast c)"
      unfolding s1 [symmetric]
      by (rule plus_or_disjoint) (rule bit_word_eqI, auto simp: bit_simps dest: bit_imp_le_length)
    then show ?thesis by (simp add: or.assoc)
  qed
  consider a where "p = [a]" | a b where "p = [a, b]" | a b c where "p = [a, b, c]"
    using assms by (cases p rule: remdups_adj.cases) (auto simp: length_Suc_conv numeral_eq_Suc less_Suc_eq)
  then show ?thesis
  proof cases
    case 1
    then show ?thesis by (simp add: Hash_tail_def Let_def)
  next
    case 2
    then show ?thesis by (simp add: Hash_tail_def Let_def s1 ac_simps)
  next
    case 3
    then have "le_join p = (ucast a :: u32) + push_bit 8 (ucast b) + push_bit 16 (ucast c)"
      by (simp add: push_bit_or s2)
    with 3 show ?thesis by (simp add: Hash_tail_def Let_def ac_simps)
  qed
qed

lemma Hash_tail_inj:
  assumes "length p = length q" "length p < 4"
  shows "Hash_tail p h = Hash_tail q g \<longleftrightarrow> h + le_join p = g + le_join q"
proof (cases "p = []")
  case True
  then show ?thesis using assms by (simp add: Hash_tail_def)
next
  case False
  then have "q \<noteq> []" using assms(1) by auto
  then show ?thesis
    using assms False by (simp add: Hash_tail_le_join xor_shift_inj hash_r_def)
qed

definition Hash_from :: "bytes \<Rightarrow> u32 \<Rightarrow> u32" where
  "Hash_from data h = (case Hash_loop data h of (h, data) \<Rightarrow> Hash_tail data h)"

lemma Hash_from_inj: "Hash_from data h = Hash_from data g \<longleftrightarrow> h = g"
proof (induction data h arbitrary: g rule: Hash_loop.induct)
  case (1 d0 d1 d2 d3 data h)
  then show ?case unfolding Hash_from_def Hash_loop_group by (simp add: xor_shift_inj)
qed (simp_all add: Hash_from_def Hash_tail_inj)

lemma Hash_from_append:
  "4 dvd length pre \<Longrightarrow> \<exists>h'. \<forall>p. Hash_from (pre @ p) h = Hash_from p h'"
proof (induction "length pre" arbitrary: pre h rule: less_induct)
  case less
  show ?case
  proof (cases "pre = []")
    case False
    then have "4 \<le> length pre" using less.prems by (auto dest: dvd_imp_le)
    then obtain d0 d1 d2 d3 data where pre: "pre = d0 # d1 # d2 # d3 # data"
      by (auto simp: Suc_le_length_iff numeral_eq_Suc)
    have len: "length pre = 4 + length data" by (simp add: pre)
    then have "4 dvd length data" using less.prems by (metis dvd_add_right_iff dvd_refl)
    from less.hyps [OF _ this] obtain h' where h': "\<And>p. Hash_from (data @ p)
        ((h + le_join [d0, d1, d2, d3]) * hash_m XOR drop_bit 16 ((h + le_join [d0, d1, d2, d3]) * hash_m)) = Hash_from p h'"
      using len by fastforce
    then show ?thesis
      unfolding pre append_Cons Hash_from_def Hash_loop_group by (intro exI [of _ h']) simp
  qed auto
qed

lemma Hash_from_group:
  assumes "length as = length bs" "length as \<le> 4" "as \<noteq> bs" "length as = 4 \<or> post = []"
  shows "Hash_from (as @ post) h \<noteq> Hash_from (bs @ post) h"
proof (cases "length as = 4")
  case True
  define mix where "mix w = (h + w) * hash_m XOR drop_bit 16 ((h + w) * hash_m)" for w
  have four: "\<exists>a b c d. xs = [a, b, c, d]" if "length xs = 4" for xs :: bytes
    using that by (auto simp: numeral_eq_Suc length_Suc_conv)
  obtain a0 a1 a2 a3 b0 b1 b2 b3 where "as = [a0, a1, a2, a3]" "bs = [b0, b1, b2, b3]"
    using four [of as] four [of bs] assms(1) True by metis
  then have g: "Hash_from (as @ post) h = Hash_from post (mix (le_join as))"
    "Hash_from (bs @ post) h = Hash_from post (mix (le_join bs))"
    unfolding Hash_from_def mix_def by (simp_all only: append_Cons append_Nil Hash_loop_group)
  have "mix (le_join as) \<noteq> mix (le_join bs)"
    unfolding mix_def using le_join_eq_iff [OF assms(1,2)] assms(3) by (simp add: xor_shift_inj)
  then show ?thesis unfolding g Hash_from_inj .
next
  case False
  then have *: "length as < 4" "post = []" using assms(2,4) by auto
  then have "Hash_loop as h = (h, as)" "Hash_loop bs h = (h, bs)"
    using assms(1) by (auto simp: numeral_eq_Suc less_Suc_eq length_Suc_conv)
  then show ?thesis
    using * Hash_tail_inj [OF assms(1)] le_join_eq_iff [OF assms(1,2)] assms(3) by (simp add: Hash_from_def)
qed

text \<open>
  The hash loses nothing step by step: for one input, different seeds give different
  hashes, and for one seed, two inputs of the same length that differ in a single aligned
  group of four bytes, or in the tail only, have different hashes.
\<close>

theorem hash_separates:
  assumes "4 dvd length pre" "length as = length bs" "length as \<le> 4" "as \<noteq> bs" "length as = 4 \<or> post = []"
  shows "Hash (pre @ as @ post) seed \<noteq> Hash (pre @ bs @ post) seed \<and>
    (Hash data s1 = Hash data s2 \<longleftrightarrow> s1 = s2)"
proof
  have H: "Hash d s = Hash_from d (s XOR word_of_nat (length d) * hash_m)" for d s
    by (simp add: Hash_def Hash_from_def Let_def)
  have "length (pre @ as @ post) = length (pre @ bs @ post)" using assms(2) by simp
  then show "Hash (pre @ as @ post) seed \<noteq> Hash (pre @ bs @ post) seed"
    unfolding H using Hash_from_append [OF assms(1)] Hash_from_group [OF assms(2-5)] by metis
  show "Hash data s1 = Hash data s2 \<longleftrightarrow> s1 = s2"
    unfolding H Hash_from_inj xor_cancel ..
qed

theorem hash_separates_witness:
  "Hash ([1, 2, 3, 4] @ [5, 6] @ []) 7 \<noteq> Hash ([1, 2, 3, 4] @ [5, 9] @ []) 7"
proof -
  have "length [1 :: byte, 2, 3, 4] = 4" by simp
  then have "4 dvd length [1 :: byte, 2, 3, 4]" by (metis dvd_refl)
  from hash_separates [OF this, of "[5, 6]" "[5, 9]" "[]"] show ?thesis by simp
qed

end
