(* ===== verification/Arena.thy ===== *)
theory Arena
  imports Prelude
begin

text \<open>
  \<open>src/util/arena.h\<close> and \<open>src/util/arena.cc\<close>: the memory pool of a memtable.  An
  address is a natural number, \<open>0\<close> the null pointer; the blocks are kept with their
  sizes, the first in the list being the newest.  \<open>new char[n]\<close> is a parameter of the
  operations, a function of the blocks allocated so far and of the size; what the
  language promises of it is the locale \<open>allocator\<close>.  The lemmas show that no two
  allocations overlap and that \<open>AllocateAligned\<close> returns aligned addresses.
\<close>

record Arena =
  curr :: nat
  avail :: nat
  blocks_bytes :: nat
  blocks :: "(nat \<times> nat) list"

definition Arena_init :: Arena where
  "Arena_init = \<lparr>curr = 0, avail = 0, blocks_bytes = 0, blocks = []\<rparr>"

definition arena_kBlockSize :: nat where "arena_kBlockSize = 4096"

type_synonym alloc = "(nat \<times> nat) list \<Rightarrow> nat \<Rightarrow> nat"

definition AllocateNewBlock :: "alloc \<Rightarrow> nat \<Rightarrow> Arena \<Rightarrow> nat \<times> Arena" where
  "AllocateNewBlock new_char block_bytes a =
     (let result = new_char (blocks a) block_bytes in
      (result, a\<lparr>blocks := (result, block_bytes) # blocks a,
                blocks_bytes := blocks_bytes a + block_bytes\<rparr>))"

definition Arena_Allocate :: "alloc \<Rightarrow> nat \<Rightarrow> Arena \<Rightarrow> nat \<times> Arena" where
  "Arena_Allocate new_char bytes a =
     (if bytes \<le> avail a then
        (curr a, a\<lparr>curr := curr a + bytes, avail := avail a - bytes\<rparr>)
      else if bytes > arena_kBlockSize div 4 then AllocateNewBlock new_char bytes a
      else
        let (c, a) = AllocateNewBlock new_char arena_kBlockSize a;
            a = a\<lparr>curr := c, avail := arena_kBlockSize\<rparr>
        in (curr a, a\<lparr>curr := curr a + bytes, avail := avail a - bytes\<rparr>))"

text \<open>On a 64-bit host \<open>align\<close> is 8; \<open>curr & 7\<close> is the remainder modulo 8.\<close>

definition Arena_AllocateAligned :: "alloc \<Rightarrow> nat \<Rightarrow> Arena \<Rightarrow> nat \<times> Arena" where
  "Arena_AllocateAligned new_char bytes a =
     (let current_mod = curr a mod 8;
          slop = (if current_mod = 0 then 0 else 8 - current_mod);
          needed = bytes + slop
      in if needed \<le> avail a then
           (curr a + slop, a\<lparr>curr := curr a + needed, avail := avail a - needed\<rparr>)
         else AllocateNewBlock new_char needed a)"

definition Arena_MemoryUsage :: "Arena \<Rightarrow> nat" where
  "Arena_MemoryUsage a = blocks_bytes a"

section \<open>Disjointness of allocations\<close>

text \<open>A region is a start and a length; two regions overlap when they share an address.\<close>

definition region :: "nat \<times> nat \<Rightarrow> nat set" where
  "region r = {fst r ..< fst r + snd r}"

definition disjoint_regions :: "nat \<times> nat \<Rightarrow> nat \<times> nat \<Rightarrow> bool" where
  "disjoint_regions r s \<longleftrightarrow> region r \<inter> region s = {}"

text \<open>
  The invariant, for the list \<open>rs\<close> of regions handed out so far: they are pairwise
  disjoint, each lies in a block, and none touches the free part of the current block.
\<close>

definition free :: "Arena \<Rightarrow> nat set" where
  "free a = region (curr a, avail a)"

definition in_block :: "Arena \<Rightarrow> nat set \<Rightarrow> bool" where
  "in_block a R \<longleftrightarrow> (\<exists>b \<in> set (blocks a). R \<subseteq> region b)"

definition arena_inv :: "Arena \<Rightarrow> (nat \<times> nat) list \<Rightarrow> bool" where
  "arena_inv a rs \<longleftrightarrow>
     sorted_wrt disjoint_regions rs \<and>
     (\<forall>r \<in> set rs. in_block a (region r)) \<and>
     (\<forall>r \<in> set rs. region r \<inter> free a = {}) \<and>
     (avail a = 0 \<or> in_block a (free a)) \<and>
     blocks_bytes a = sum_list (map snd (blocks a))"

lemma free_empty [simp]: "avail a = 0 \<Longrightarrow> free a = {}"
  by (simp add: free_def region_def)

lemma arena_inv_Cons:
  "arena_inv a (r # rs) \<longleftrightarrow> arena_inv a rs \<and> in_block a (region r) \<and> region r \<inter> free a = {} \<and>
     (\<forall>s \<in> set rs. region r \<inter> region s = {})"
  by (auto simp: arena_inv_def disjoint_regions_def)

lemma arena_inv_step:
  assumes "arena_inv a rs" "set (blocks a) \<subseteq> set (blocks a')"
    and "avail a' = 0 \<or> in_block a' (free a')" "\<And>r. r \<in> set rs \<Longrightarrow> region r \<inter> free a' = {}"
    and "blocks_bytes a' = sum_list (map snd (blocks a'))"
  shows "arena_inv a' rs"
proof -
  have "in_block a R \<Longrightarrow> in_block a' R" for R using assms(2) by (auto simp: in_block_def)
  then show ?thesis using assms by (simp add: arena_inv_def)
qed

locale allocator =
  fixes new_char :: alloc
  assumes new_aligned: "8 dvd new_char bs n"
    and new_fresh: "b \<in> set bs \<Longrightarrow> disjoint_regions (new_char bs n, n) b"
begin

lemma new_block_disjoint: "in_block a R \<Longrightarrow> region (new_char (blocks a) n, n) \<inter> R = {}"
  using new_fresh [of _ "blocks a" n] by (fastforce simp: in_block_def disjoint_regions_def)

lemma AllocateNewBlock_inv:
  assumes inv: "arena_inv a rs" and new: "AllocateNewBlock new_char n a = (p, a')" and "m \<le> n"
  shows "arena_inv a' ((p, m) # rs)"
proof -
  have p: "p = new_char (blocks a) n" and a': "blocks a' = (p, n) # blocks a"
    "curr a' = curr a" "avail a' = avail a" "blocks_bytes a' = blocks_bytes a + n"
    using new by (auto simp: AllocateNewBlock_def Let_def)
  have sub: "region (p, m) \<subseteq> region (p, n)" using \<open>m \<le> n\<close> by (auto simp: region_def)
  have fr: "free a' = free a" by (simp add: free_def a')
  have "in_block a R \<Longrightarrow> region (p, m) \<inter> R = {}" for R
    using new_block_disjoint [of a R n] sub p by blast
  then have "region (p, m) \<inter> free a = {}" "\<And>s. s \<in> set rs \<Longrightarrow> region (p, m) \<inter> region s = {}"
    using inv by (auto simp: arena_inv_def)
  moreover have "in_block a' (region (p, m))" using sub by (auto simp: in_block_def a')
  moreover have "arena_inv a' rs"
    by (rule arena_inv_step [OF inv]) (use inv in \<open>auto simp: a' fr arena_inv_def in_block_def\<close>)
  ultimately show ?thesis by (simp add: arena_inv_Cons fr)
qed

end

text \<open>Taking the front of the current block.\<close>

lemma bump_inv:
  assumes inv: "arena_inv a rs" and n: "0 < n" "k + n \<le> avail a"
  shows "arena_inv (a\<lparr>curr := curr a + (k + n), avail := avail a - (k + n)\<rparr>) ((curr a + k, n) # rs)"
    (is "arena_inv ?a' _")
proof -
  have sub: "region (curr a + k, n) \<subseteq> free a" "free ?a' \<subseteq> free a"
    using n by (auto simp: region_def free_def)
  have own: "region (curr a + k, n) \<inter> free ?a' = {}" by (auto simp: region_def free_def)
  have "in_block a (free a)" using inv n by (auto simp: arena_inv_def)
  then have "in_block ?a' (region (curr a + k, n))" "in_block ?a' (free ?a')"
    using sub by (auto simp: in_block_def)
  moreover have "arena_inv ?a' rs"
  proof (rule arena_inv_step [OF inv])
    show "region r \<inter> free ?a' = {}" if "r \<in> set rs" for r
      using that inv sub(2) by (auto simp: arena_inv_def)
  qed (use inv calculation in \<open>auto simp: arena_inv_def\<close>)
  moreover have "region (curr a + k, n) \<inter> region s = {}" if "s \<in> set rs" for s
    using that inv sub(1) by (auto simp: arena_inv_def)
  ultimately show ?thesis using own by (simp add: arena_inv_Cons)
qed

context allocator begin

lemma Allocate_inv:
  assumes "arena_inv a rs" "0 < n" "Arena_Allocate new_char n a = (p, a')"
  shows "arena_inv a' ((p, n) # rs)"
proof (cases "n \<le> avail a")
  case True
  then show ?thesis using assms bump_inv [OF assms(1,2), of 0] by (auto simp: Arena_Allocate_def)
next
  case small: False
  show ?thesis
  proof (cases "n > arena_kBlockSize div 4")
    case True
    then show ?thesis
      using AllocateNewBlock_inv [OF assms(1)] assms(3) small by (simp add: Arena_Allocate_def)
  next
    case False
    define c a1 where "c = fst (AllocateNewBlock new_char arena_kBlockSize a)"
      and "a1 = snd (AllocateNewBlock new_char arena_kBlockSize a)"
    then have new: "AllocateNewBlock new_char arena_kBlockSize a = (c, a1)" by simp
    have "arena_inv a1 ((c, arena_kBlockSize) # rs)"
      using AllocateNewBlock_inv [OF assms(1) new] by simp
    moreover have "(c, arena_kBlockSize) \<in> set (blocks a1)"
      using new by (auto simp: AllocateNewBlock_def Let_def)
    ultimately have "arena_inv (a1\<lparr>curr := c, avail := arena_kBlockSize\<rparr>) rs"
      by (auto simp: arena_inv_def disjoint_regions_def in_block_def free_def)
    from bump_inv [OF this assms(2), of 0] show ?thesis
      using assms(3) small False new by (auto simp: Arena_Allocate_def arena_kBlockSize_def)
  qed
qed

lemma AllocateAligned_inv:
  assumes "arena_inv a rs" "0 < n" "Arena_AllocateAligned new_char n a = (p, a')"
  shows "arena_inv a' ((p, n) # rs)"
proof -
  define slop where "slop = (if curr a mod 8 = 0 then 0 else 8 - curr a mod 8)"
  have A: "Arena_AllocateAligned new_char n a =
      (if n + slop \<le> avail a
       then (curr a + slop, a\<lparr>curr := curr a + (slop + n), avail := avail a - (slop + n)\<rparr>)
       else AllocateNewBlock new_char (n + slop) a)"
    by (simp add: Arena_AllocateAligned_def Let_def slop_def add.commute)
  show ?thesis
    using assms(3) bump_inv [OF assms(1,2), of slop]
      AllocateNewBlock_inv [OF assms(1), of "n + slop" p a' n]
    unfolding A by (auto simp: add.commute split: if_splits)
qed

lemma AllocateAligned_aligned:
  assumes "Arena_AllocateAligned new_char n a = (p, a')"
  shows "8 dvd p"
proof -
  have "8 dvd (curr a + (8 - curr a mod 8))" if "curr a mod 8 \<noteq> 0" using that by presburger
  then show ?thesis
    using assms new_aligned
    by (auto simp: Arena_AllocateAligned_def AllocateNewBlock_def Let_def split: if_splits)
qed

end

text \<open>
  A concrete \<open>operator new\<close>: the first 16-byte boundary past all blocks.  It stands
  for the C++ allocator where the model needs to run.
\<close>

definition bump_new :: alloc where
  "bump_new bs n = 16 * (foldr (\<lambda>b. max (fst b + snd b)) bs 0 div 16 + 1)"

interpretation bump: allocator bump_new
proof unfold_locales
  show "8 dvd bump_new bs n" for bs n by (simp add: bump_new_def)
  show "disjoint_regions (bump_new bs n, n) b" if "b \<in> set bs" for bs n b
  proof -
    have "fst b + snd b \<le> foldr (\<lambda>b. max (fst b + snd b)) bs 0"
      using that by (induction bs) (auto simp: le_max_iff_disj)
    also have "\<dots> \<le> bump_new bs n" by (simp add: bump_new_def)
    finally have "fst b + snd b \<le> bump_new bs n" .
    then show ?thesis by (auto simp: disjoint_regions_def region_def)
  qed
qed

text \<open>
  C32. Memory safety of the pool: whatever the allocator, as long as it returns fresh and
  aligned blocks, the regions handed out never overlap one another, and the aligned
  allocations start at multiples of 8.
\<close>

theorem arena_allocations_disjoint:
  assumes "allocator new_char" "arena_inv a rs" "0 < n"
  shows "(\<forall>p a'. Arena_Allocate new_char n a = (p, a') \<longrightarrow> arena_inv a' ((p, n) # rs)) \<and>
    (\<forall>p a'. Arena_AllocateAligned new_char n a = (p, a') \<longrightarrow>
       8 dvd p \<and> arena_inv a' ((p, n) # rs))"
proof (intro conjI allI impI)
  fix p a'
  show "Arena_Allocate new_char n a = (p, a') \<Longrightarrow> arena_inv a' ((p, n) # rs)"
    by (rule allocator.Allocate_inv [OF assms])
  assume al: "Arena_AllocateAligned new_char n a = (p, a')"
  show "8 dvd p" by (rule allocator.AllocateAligned_aligned [OF assms(1) al])
  show "arena_inv a' ((p, n) # rs)" by (rule allocator.AllocateAligned_inv [OF assms al])
qed

theorem arena_allocations_disjoint_witness:
  "\<exists>p a'. Arena_AllocateAligned bump_new 24 Arena_init = (p, a') \<and>
     8 dvd p \<and> arena_inv a' [(p, 24)]"
proof -
  have inv: "arena_inv Arena_init []" by (simp add: arena_inv_def Arena_init_def)
  obtain p a' where "Arena_AllocateAligned bump_new 24 Arena_init = (p, a')" by fastforce
  then show ?thesis
    using arena_allocations_disjoint [OF bump.allocator_axioms inv, of 24] by auto
qed

text \<open>
  A memtable only ever asks for aligned memory, and then no block is ever shared: a
  pool that starts empty allocates one block per request, so its reported usage is
  exactly the sum of the sizes requested.
\<close>

theorem arena_aligned_usage:
  "Arena_MemoryUsage (fold (\<lambda>n a. snd (Arena_AllocateAligned new_char n a)) ns Arena_init) =
     sum_list ns"
proof -
  have "curr a = 0 \<and> avail a = 0 \<longrightarrow>
      curr (fold (\<lambda>n a. snd (Arena_AllocateAligned new_char n a)) ns a) = 0 \<and>
      Arena_MemoryUsage (fold (\<lambda>n a. snd (Arena_AllocateAligned new_char n a)) ns a) =
        Arena_MemoryUsage a + sum_list ns" for a
    by (induction ns arbitrary: a)
      (auto simp: Arena_AllocateAligned_def AllocateNewBlock_def Arena_MemoryUsage_def Let_def)
  then show ?thesis by (simp add: Arena_init_def Arena_MemoryUsage_def)
qed

end
