(* ===== verification/SkipList.thy ===== *)
theory SkipList
  imports Arena
begin

text \<open>
  \<open>src/db/skiplist.h\<close>: the Park-Miller generator and the skip list.  Nodes live in a
  store, a list that only grows; a \<open>Node*\<close> is an index into it (\<open>None\<close> the null
  pointer), node 0 is \<open>head_\<close> and each node has its array of 12 forward pointers.
  The atomics are plain fields: all accesses run under the mutex of the database.
  The search loop is a partial function, since a cyclic store would make it run for
  ever; the lemmas show that on a well-formed list it returns, that it finds the first
  key not below its target, and that an insertion refines insertion into a sorted list.
\<close>

section \<open>Random\<close>

definition Random_new :: "u32 \<Rightarrow> u32" where
  "Random_new s =
     (let seed = s AND 0x7fffffff in
      if seed = 0 \<or> seed = 2147483647 then 1 else seed)"

text \<open>The value returned is the new seed.\<close>

definition Random_Next :: "u32 \<Rightarrow> u32" where
  "Random_Next seed =
     (let M = 2147483647 :: u32;
          A = 16807 :: u64;
          product = ucast seed * A;
          seed' = ucast (drop_bit 31 product + (product AND ucast M)) :: u32
      in if M < seed' then seed' - M else seed')"

section \<open>The list\<close>

definition kMaxHeight :: nat where "kMaxHeight = 12"
definition kBranching :: u32 where "kBranching = 4"

record 'k node =
  nkey :: 'k
  nnext :: "nat option list"

record 'k skiplist =
  nodes :: "'k node list"
  cur_height :: nat
  rng :: u32

definition new_node :: "'k \<Rightarrow> 'k node" where
  "new_node k = \<lparr>nkey = k, nnext = replicate kMaxHeight None\<rparr>"

text \<open>\<open>sizeof(Node)\<close> for the memtable's keys on a 64-bit host: two views and 12 pointers.\<close>

definition sizeof_Node :: nat where "sizeof_Node = 2 * 16 + kMaxHeight * 8"

definition NewNode ::
  "alloc \<Rightarrow> 'k \<Rightarrow> 'k skiplist \<Rightarrow> Arena \<Rightarrow> nat \<times> 'k skiplist \<times> Arena" where
  "NewNode new_char k s a =
     (length (nodes s), s\<lparr>nodes := nodes s @ [new_node k]\<rparr>,
      snd (Arena_AllocateAligned new_char sizeof_Node a))"

definition SkipList_new :: "alloc \<Rightarrow> 'k \<Rightarrow> Arena \<Rightarrow> 'k skiplist \<times> Arena" where
  "SkipList_new new_char k0 a =
     (let (_, s, a) = NewNode new_char k0
            \<lparr>nodes = [], cur_height = 0, rng = Random_new 0x9e3779b9\<rparr> a
      in (s\<lparr>cur_height := 1\<rparr>, a))"

function RandomHeight_loop :: "nat \<Rightarrow> u32 \<Rightarrow> nat \<times> u32" where
  "RandomHeight_loop h seed =
     (if h < kMaxHeight then
        let seed = Random_Next seed in
        if seed mod kBranching = 0 then RandomHeight_loop (h + 1) seed else (h, seed)
      else (h, seed))"
  by pat_completeness auto
termination
  by (relation "measure (\<lambda>(h, _). kMaxHeight - h)") auto

declare RandomHeight_loop.simps [simp del]

definition RandomHeight :: "u32 \<Rightarrow> nat \<times> u32" where
  "RandomHeight seed = RandomHeight_loop 1 seed"

text \<open>\<open>x->next_[i]\<close> and its update.\<close>

definition nxt :: "'k node list \<Rightarrow> nat \<Rightarrow> nat \<Rightarrow> nat option" where
  "nxt ns i x = nnext (ns ! x) ! i"

definition set_nxt :: "nat \<Rightarrow> nat \<Rightarrow> nat option \<Rightarrow> 'k node list \<Rightarrow> 'k node list" where
  "set_nxt x i p ns = ns[x := (ns ! x)\<lparr>nnext := (nnext (ns ! x))[i := p]\<rparr>]"

text \<open>
  The loop of \<open>FindGreaterOrEqual\<close>, at node \<open>x\<close> and level \<open>level\<close>.  The array \<open>prev\<close>
  starts uninitialised, so its entries are options.
\<close>

partial_function (option) FindGE_loop ::
  "('k \<Rightarrow> 'k \<Rightarrow> bool) \<Rightarrow> 'k node list \<Rightarrow> 'k \<Rightarrow> nat \<Rightarrow> nat \<Rightarrow> nat option list \<Rightarrow>
   (nat option \<times> nat option list) option" where
  "FindGE_loop cmp ns key x level prev =
     (let next = nxt ns level x in
      if next \<noteq> None \<and> cmp (nkey (ns ! the next)) key
      then FindGE_loop cmp ns key (the next) level prev
      else
        let prev = prev[level := Some x] in
        if level = 0 then Some (next, prev)
        else FindGE_loop cmp ns key x (level - 1) prev)"

definition FindGreaterOrEqual ::
  "('k \<Rightarrow> 'k \<Rightarrow> bool) \<Rightarrow> 'k skiplist \<Rightarrow> 'k \<Rightarrow> (nat option \<times> nat option list) option" where
  "FindGreaterOrEqual cmp s key =
     FindGE_loop cmp (nodes s) key 0 (cur_height s - 1) (replicate kMaxHeight None)"

definition SkipList_Insert ::
  "alloc \<Rightarrow> ('k \<Rightarrow> 'k \<Rightarrow> bool) \<Rightarrow> 'k \<Rightarrow> 'k skiplist \<Rightarrow> Arena \<Rightarrow> ('k skiplist \<times> Arena) option" where
  "SkipList_Insert new_char cmp key s a =
     (case FindGreaterOrEqual cmp s key of
        None \<Rightarrow> None
      | Some (_, prev) \<Rightarrow>
          let (h, seed) = RandomHeight (rng s);
              s = s\<lparr>rng := seed\<rparr>;
              (prev, s) = (if h > cur_height s
                then (foldl (\<lambda>prev i. prev[i := Some 0]) prev [cur_height s..<h],
                      s\<lparr>cur_height := h\<rparr>)
                else (prev, s));
              (n, s, a) = NewNode new_char key s a;
              ns = foldl (\<lambda>ns i. set_nxt n i (nxt ns i (the (prev ! i))) ns) (nodes s) [0..<h];
              ns = foldl (\<lambda>ns i. set_nxt (the (prev ! i)) i (Some n) ns) ns [0..<h]
          in Some (s\<lparr>nodes := ns\<rparr>, a))"

definition SkipList_Contains :: "('k \<Rightarrow> 'k \<Rightarrow> bool) \<Rightarrow> 'k skiplist \<Rightarrow> 'k \<Rightarrow> bool option" where
  "SkipList_Contains cmp s key =
     (case FindGreaterOrEqual cmp s key of
        None \<Rightarrow> None
      | Some (x, _) \<Rightarrow>
          Some (x \<noteq> None \<and> \<not> cmp (nkey (nodes s ! the x)) key \<and> \<not> cmp key (nkey (nodes s ! the x))))"

text \<open>The iterator is a node pointer.\<close>

definition Iter_Valid :: "nat option \<Rightarrow> bool" where
  "Iter_Valid it \<longleftrightarrow> it \<noteq> None"

definition Iter_key :: "'k skiplist \<Rightarrow> nat option \<Rightarrow> 'k" where
  "Iter_key s it = nkey (nodes s ! the it)"

definition Iter_Next :: "'k skiplist \<Rightarrow> nat option \<Rightarrow> nat option" where
  "Iter_Next s it = nxt (nodes s) 0 (the it)"

definition Iter_SeekToFirst :: "'k skiplist \<Rightarrow> nat option" where
  "Iter_SeekToFirst s = nxt (nodes s) 0 0"

definition Iter_Seek :: "('k \<Rightarrow> 'k \<Rightarrow> bool) \<Rightarrow> 'k skiplist \<Rightarrow> 'k \<Rightarrow> nat option option" where
  "Iter_Seek cmp s target = map_option fst (FindGreaterOrEqual cmp s target)"

text \<open>A walk with \<open>Next\<close> from a position to the end, collecting the keys.\<close>

partial_function (option) Iter_collect :: "'k skiplist \<Rightarrow> nat option \<Rightarrow> 'k list \<Rightarrow> 'k list option" where
  "Iter_collect s it acc =
     (if Iter_Valid it then Iter_collect s (Iter_Next s it) (acc @ [Iter_key s it])
      else Some acc)"

section \<open>Lemmas on the generator and on heights\<close>

lemma RandomHeight_loop_bounds:
  "h \<le> kMaxHeight \<Longrightarrow> RandomHeight_loop h seed = (h', seed') \<Longrightarrow> h \<le> h' \<and> h' \<le> kMaxHeight"
proof (induction h seed rule: RandomHeight_loop.induct)
  case (1 h seed)
  show ?case
    using 1 by (subst (asm) RandomHeight_loop.simps) (auto simp: Let_def split: if_splits)
qed

lemma RandomHeight_bounds: "RandomHeight seed = (h, seed') \<Longrightarrow> 1 \<le> h \<and> h \<le> kMaxHeight"
  using RandomHeight_loop_bounds [of 1 seed h seed'] by (simp add: RandomHeight_def kMaxHeight_def)

text \<open>
  \<open>Next\<close> computes \<open>seed * 16807 mod (2^31 - 1)\<close> without a division, and the seed
  never reaches the fixed points 0 and \<open>2^31 - 1\<close>.
\<close>

lemma mersenne_fold:
  fixes p :: nat
  assumes "p < 2 ^ 46" "p mod 2147483647 \<noteq> 0"
  shows "(let s = p div 2 ^ 31 + p mod 2 ^ 31 in if 2147483647 < s then s - 2147483647 else s) =
    p mod 2147483647"
proof -
  define q r where "q = p div 2 ^ 31" and "r = p mod 2 ^ 31"
  have p: "p = 2147483648 * q + r" by (simp add: q_def r_def)
  have b: "r < 2147483648" "q < 32768" using assms(1) by (simp_all add: q_def r_def div_less_iff_less_mult)
  have "p = (q + r) + 2147483647 * q" using p by simp
  then have m: "p mod 2147483647 = (q + r) mod 2147483647" by (metis mod_mult_self2)
  then have "q + r \<noteq> 2147483647" using assms(2) by auto
  have d: "p div 2 ^ 31 = q" "p mod 2 ^ 31 = r" by (simp_all add: q_def r_def)
  show ?thesis
  proof (cases "2147483647 < q + r")
    case True
    have "(q + r - 2147483647) mod 2147483647 = (q + r) mod 2147483647"
      using True by (metis le_mod_geq less_imp_le)
    then show ?thesis using True b m by (simp only: Let_def d) simp
  next
    case False
    then show ?thesis using \<open>q + r \<noteq> 2147483647\<close> m by (simp only: Let_def d) simp
  qed
qed

lemma park_miller_nonzero:
  assumes "0 < n" "n < 2147483647"
  shows "(n * 16807) mod 2147483647 \<noteq> (0 :: nat)"
proof
  assume "(n * 16807) mod 2147483647 = 0"
  then have "2147483647 dvd n * 16807" by auto
  moreover have "coprime (2147483647 :: nat) 16807" by (simp add: coprime_iff_gcd_eq_1 gcd_nat.simps)
  ultimately have "2147483647 dvd n" by (simp add: coprime_dvd_mult_left_iff)
  then show False using assms by (auto dest: dvd_imp_le)
qed

lemma Random_Next_eq:
  assumes "0 < unat seed" "unat seed < 2147483647"
  shows "unat (Random_Next seed) = unat seed * 16807 mod 2147483647"
proof -
  define p where "p = unat seed * 16807"
  have p: "p < 2 ^ 46" using assms(2) by (simp add: p_def)
  define w where "w = (ucast seed * 16807 :: u64)"
  have uw: "unat w = p"
    using p by (simp add: w_def p_def unat_word_ariths)
  have hi: "unat (drop_bit 31 w) = p div 2 ^ 31"
    by (simp add: drop_bit_eq_div unat_div uw)
  have "(2147483647 :: u64) = mask 31" by (simp add: mask_eq_exp_minus_1)
  then have lo: "unat (w AND 2147483647) = p mod 2 ^ 31"
    by (simp only: take_bit_eq_mask [symmetric] unsigned_take_bit_eq uw) (simp add: take_bit_eq_mod)
  have b: "p div 2 ^ 31 < 2 ^ 15" "p mod 2 ^ 31 < 2 ^ 31"
    using p by (simp_all add: div_less_iff_less_mult)
  have sum: "unat (drop_bit 31 w + (w AND 2147483647)) = p div 2 ^ 31 + p mod 2 ^ 31"
    using b by (simp only: unat_word_ariths hi lo) simp
  define v where "v = (ucast (drop_bit 31 w + (w AND 2147483647)) :: u32)"
  have v: "unat v = p div 2 ^ 31 + p mod 2 ^ 31"
    using b by (simp only: v_def unsigned_ucast_eq sum) (simp add: take_bit_nat_eq_self)
  have "Random_Next seed = (if 2147483647 < v then v - 2147483647 else v)"
    by (simp add: Random_Next_def Let_def v_def w_def)
  then have "unat (Random_Next seed) =
      (if 2147483647 < unat v then unat v - 2147483647 else unat v)"
    by (simp add: word_less_nat_alt unat_sub_if_size)
  also have "\<dots> = p mod 2147483647"
    using mersenne_fold [OF p] park_miller_nonzero [OF assms] unfolding v Let_def p_def by blast
  finally show ?thesis by (simp add: p_def)
qed

lemma Random_Next_range:
  assumes "0 < unat seed" "unat seed < 2147483647"
  shows "0 < unat (Random_Next seed) \<and> unat (Random_Next seed) < 2147483647"
  using park_miller_nonzero [OF assms] by (simp add: Random_Next_eq [OF assms])

lemma Random_new_range: "0 < unat (Random_new s) \<and> unat (Random_new s) < 2147483647"
proof -
  let ?m = "s AND 2147483647"
  have "(2147483647 :: u32) = mask 31" by (simp add: mask_eq_exp_minus_1)
  then have "unat ?m < 2 ^ 31"
    by (metis take_bit_eq_mask take_bit_nat_less_exp unsigned_take_bit_eq)
  moreover have "unat ?m \<noteq> 2147483647" if "?m \<noteq> 2147483647"
    using that by (simp add: word_unat_eq_iff)
  ultimately show ?thesis
    by (auto simp: Random_new_def Let_def unat_gt_0)
qed

section \<open>Chains of forward pointers\<close>

text \<open>\<open>linked f x xs\<close>: following \<open>f\<close> from \<open>x\<close> visits exactly \<open>xs\<close> and then ends.\<close>

fun linked :: "(nat \<Rightarrow> nat option) \<Rightarrow> nat \<Rightarrow> nat list \<Rightarrow> bool" where
  "linked f x [] \<longleftrightarrow> f x = None"
| "linked f x (y # ys) \<longleftrightarrow> f x = Some y \<and> linked f y ys"

definition head_opt :: "'a list \<Rightarrow> 'a option" where
  "head_opt xs = (case xs of [] \<Rightarrow> None | y # _ \<Rightarrow> Some y)"

lemma head_opt_simps [simp]: "head_opt [] = None" "head_opt (y # ys) = Some y"
  by (simp_all add: head_opt_def)

lemma linked_head: "linked f x xs \<Longrightarrow> f x = head_opt xs"
  by (cases xs) simp_all

lemma linked_last: "linked f x (xs @ ys) \<Longrightarrow> linked f (last (x # xs)) ys"
  by (induction xs arbitrary: x) auto

lemma linked_from: "linked f x (xs @ y # ys) \<Longrightarrow> linked f y ys"
  by (induction xs arbitrary: x) auto

lemma linked_cong:
  "(\<And>y. y \<in> set (x # xs) \<Longrightarrow> f y = g y) \<Longrightarrow> linked f x xs \<longleftrightarrow> linked g x xs"
  by (induction xs arbitrary: x) auto

lemma linked_insert:
  assumes "linked f x (xs @ ys)" "distinct (x # xs @ ys)" "n \<notin> set (x # xs @ ys)"
    and "\<And>y. y \<in> set (x # xs @ n # ys) \<Longrightarrow>
      g y = (if y = last (x # xs) then Some n else if y = n then head_opt ys else f y)"
  shows "linked g x (xs @ n # ys)"
  using assms
proof (induction xs arbitrary: x)
  case Nil
  then have g: "g x = Some n" "g n = head_opt ys" and f: "\<And>y. y \<in> set ys \<Longrightarrow> g y = f y"
    by auto
  show ?case
  proof (cases ys)
    case (Cons y ys')
    have "linked f y ys'" using Nil.prems(1) Cons by simp
    then have "linked g y ys'" using linked_cong [of y ys' g f] f Cons by simp
    then show ?thesis using g Cons by simp
  qed (use g in simp)
next
  case (Cons a xs)
  have "x \<noteq> last (a # xs)" using Cons.prems(2) last_in_set [of "a # xs"] by auto
  then have "g x = Some a" using Cons.prems by simp
  moreover have "linked g a (xs @ n # ys)"
    using Cons.prems by (intro Cons.IH) simp_all
  ultimately show ?case by simp
qed

section \<open>Updates of the store\<close>

lemma length_set_nxt [simp]: "length (set_nxt x i p ns) = length ns"
  by (simp add: set_nxt_def)

lemma nkey_set_nxt [simp]: "x < length ns \<Longrightarrow> nkey (set_nxt x i p ns ! y) = nkey (ns ! y)"
  by (cases "y = x") (simp_all add: set_nxt_def)

lemma length_nnext_set_nxt [simp]:
  "x < length ns \<Longrightarrow> length (nnext (set_nxt x i p ns ! y)) = length (nnext (ns ! y))"
  by (cases "y = x") (simp_all add: set_nxt_def)

lemma nxt_set_nxt:
  "x < length ns \<Longrightarrow> i < length (nnext (ns ! x)) \<Longrightarrow>
   nxt (set_nxt x i p ns) j y = (if j = i \<and> y = x then p else nxt ns j y)"
  by (auto simp: nxt_def set_nxt_def nth_list_update)

text \<open>The store of nodes: every node has its 12 pointers.\<close>

definition store_ok :: "'k node list \<Rightarrow> bool" where
  "store_ok ns \<longleftrightarrow> ns \<noteq> [] \<and> (\<forall>x < length ns. length (nnext (ns ! x)) = kMaxHeight)"

lemma store_ok_set_nxt [simp]: "x < length ns \<Longrightarrow> store_ok (set_nxt x i p ns) \<longleftrightarrow> store_ok ns"
  by (auto simp: store_ok_def simp flip: length_greater_0_conv)

lemma store_ok_snoc [simp]: "store_ok ns \<Longrightarrow> store_ok (ns @ [new_node k])"
  by (auto simp: store_ok_def nth_append new_node_def)

lemma store_ok_nnext: "store_ok ns \<Longrightarrow> x < length ns \<Longrightarrow> length (nnext (ns ! x)) = kMaxHeight"
  by (simp add: store_ok_def)

text \<open>A loop that stores pointers at nodes \<open>f i\<close>, level by level.\<close>

lemma foldl_set_nxt:
  assumes "store_ok ns" "h \<le> kMaxHeight" "\<And>i. i < h \<Longrightarrow> f i < length ns"
  shows "nxt (foldl (\<lambda>ns i. set_nxt (f i) i (g i) ns) ns [0..<h]) j y =
      (if j < h \<and> y = f j then g j else nxt ns j y) \<and>
    length (foldl (\<lambda>ns i. set_nxt (f i) i (g i) ns) ns [0..<h]) = length ns \<and>
    store_ok (foldl (\<lambda>ns i. set_nxt (f i) i (g i) ns) ns [0..<h]) \<and>
    nkey (foldl (\<lambda>ns i. set_nxt (f i) i (g i) ns) ns [0..<h] ! y) = nkey (ns ! y)"
  using assms(2,3)
proof (induction h arbitrary: j y)
  case (Suc h)
  then show ?case by (auto simp: nxt_set_nxt store_ok_nnext less_Suc_eq)
qed (use assms in simp)

text \<open>The first linking loop reads pointers of other nodes than the one it writes.\<close>

lemma foldl_copy_nxt:
  assumes "store_ok ns" "h \<le> kMaxHeight" "n < length ns" "\<And>i. i < h \<Longrightarrow> p i \<noteq> n"
  shows "foldl (\<lambda>ns i. set_nxt n i (nxt ns i (p i)) ns) ns [0..<h] =
    foldl (\<lambda>ns' i. set_nxt n i (nxt ns i (p i)) ns') ns [0..<h]"
  using assms(2,4)
proof (induction h)
  case (Suc h)
  have "nxt (foldl (\<lambda>ns' i. set_nxt n i (nxt ns i (p i)) ns') ns [0..<h]) h (p h) = nxt ns h (p h)"
    using foldl_set_nxt [OF assms(1), of h "\<lambda>_. n" "\<lambda>i. nxt ns i (p i)" h "p h"] Suc.prems assms(3)
    by simp
  then show ?case using Suc by simp
qed simp

text \<open>The loop that fills the levels above the current height with the head.\<close>

lemma foldl_set_some:
  "length (foldl (\<lambda>prev i. prev[i := p]) xs [c..<k]) = length xs \<and>
   (\<forall>i < length xs. foldl (\<lambda>prev i. prev[i := p]) xs [c..<k] ! i =
      (if c \<le> i \<and> i < k then p else xs ! i))"
proof (induction k)
  case (Suc k)
  then show ?case by (cases "c \<le> k") (auto simp: nth_list_update less_Suc_eq)
qed simp

section \<open>Comparators\<close>

text \<open>What the list needs of its comparator: a strict weak order.\<close>

locale strict_weak_order =
  fixes cmp :: "'k \<Rightarrow> 'k \<Rightarrow> bool"
  assumes cmp_irrefl: "\<not> cmp a a"
    and cmp_trans: "cmp a b \<Longrightarrow> cmp b c \<Longrightarrow> cmp a c"
    and cmp_split: "cmp a c \<Longrightarrow> cmp a b \<or> cmp b c"
begin

lemma cmp_asym: "cmp a b \<Longrightarrow> \<not> cmp b a"
  using cmp_trans cmp_irrefl by blast

end

text \<open>Keys in the order of the list: no key is above a later one.\<close>

definition ordered :: "('k \<Rightarrow> 'k \<Rightarrow> bool) \<Rightarrow> 'k list \<Rightarrow> bool" where
  "ordered cmp ks \<longleftrightarrow> sorted_wrt (\<lambda>a b. \<not> cmp b a) ks"

text \<open>The specification: insertion before the first key that is not below.\<close>

definition ins_sorted :: "('k \<Rightarrow> 'k \<Rightarrow> bool) \<Rightarrow> 'k \<Rightarrow> 'k list \<Rightarrow> 'k list" where
  "ins_sorted cmp k ks = takeWhile (\<lambda>x. cmp x k) ks @ k # dropWhile (\<lambda>x. cmp x k) ks"

lemma set_ins_sorted [simp]: "set (ins_sorted cmp k ks) = insert k (set ks)"
proof -
  have "set ks = set (takeWhile (\<lambda>x. cmp x k) ks) \<union> set (dropWhile (\<lambda>x. cmp x k) ks)"
    by (simp flip: set_append)
  then show ?thesis by (auto simp: ins_sorted_def)
qed

context strict_weak_order begin

lemma ordered_dropWhile:
  assumes "ordered cmp ks" "b \<in> set (dropWhile (\<lambda>x. cmp x k) ks)"
  shows "\<not> cmp b k"
proof -
  have "sorted_wrt (\<lambda>x y. cmp y k \<longrightarrow> cmp x k) ks"
  proof (rule sorted_wrt_mono_rel)
    show "sorted_wrt (\<lambda>a b. \<not> cmp b a) ks" using assms(1) by (simp add: ordered_def)
    show "cmp y k \<longrightarrow> cmp x k" if "\<not> cmp y x" for x y
      using that cmp_split [of y k x] by simp
  qed
  from takeWhile_eq_filter_sorted(2) [OF this] show ?thesis using assms(2) by auto
qed

lemma ordered_ins_sorted: "ordered cmp ks \<Longrightarrow> ordered cmp (ins_sorted cmp k ks)"
proof -
  assume o: "ordered cmp ks"
  let ?A = "takeWhile (\<lambda>x. cmp x k) ks" and ?B = "dropWhile (\<lambda>x. cmp x k) ks"
  have "sorted_wrt (\<lambda>a b. \<not> cmp b a) (?A @ ?B)" using o by (simp add: ordered_def)
  note AB = this [unfolded sorted_wrt_append]
  have A: "\<And>a. a \<in> set ?A \<Longrightarrow> \<not> cmp k a" by (meson cmp_asym set_takeWhileD)
  have B: "\<And>b. b \<in> set ?B \<Longrightarrow> \<not> cmp b k" using ordered_dropWhile [OF o] by blast
  show ?thesis
    unfolding ordered_def ins_sorted_def sorted_wrt_append sorted_wrt.simps list.set(2)
    using AB A B by blast
qed

end

section \<open>Well-formed skip lists\<close>

text \<open>
  The ghost state: \<open>order\<close> lists all nodes but the head in key order, \<open>ht\<close> gives each
  its height.  Level \<open>i\<close> links the nodes of height above \<open>i\<close>, in that order.
\<close>

definition sl_wf :: "('k \<Rightarrow> 'k \<Rightarrow> bool) \<Rightarrow> 'k skiplist \<Rightarrow> nat list \<Rightarrow> (nat \<Rightarrow> nat) \<Rightarrow> bool" where
  "sl_wf cmp s order ht \<longleftrightarrow>
     store_ok (nodes s) \<and> distinct order \<and> set order = {1..<length (nodes s)} \<and>
     1 \<le> cur_height s \<and> cur_height s \<le> kMaxHeight \<and>
     (\<forall>x \<in> set order. 1 \<le> ht x \<and> ht x \<le> cur_height s) \<and>
     (\<forall>i < kMaxHeight. linked (nxt (nodes s) i) 0 (filter (\<lambda>x. i < ht x) order)) \<and>
     ordered cmp (map (\<lambda>x. nkey (nodes s ! x)) order)"

text \<open>The list of keys a skip list stands for.\<close>

definition sl_rel :: "('k \<Rightarrow> 'k \<Rightarrow> bool) \<Rightarrow> 'k skiplist \<Rightarrow> 'k list \<Rightarrow> bool" where
  "sl_rel cmp s ks \<longleftrightarrow>
     (\<exists>order ht. sl_wf cmp s order ht \<and> ks = map (\<lambda>x. nkey (nodes s ! x)) order)"

lemma sl_wf_ht: "sl_wf cmp s order ht \<Longrightarrow> x \<in> set order \<Longrightarrow> 0 < ht x \<and> ht x \<le> cur_height s"
proof -
  assume "sl_wf cmp s order ht" and x: "x \<in> set order"
  then have "\<forall>x \<in> set order. 1 \<le> ht x \<and> ht x \<le> cur_height s" unfolding sl_wf_def by blast
  with x show ?thesis by fastforce
qed

lemma sl_wf_node: "sl_wf cmp s order ht \<Longrightarrow> x \<in> set order \<longleftrightarrow> 0 < x \<and> x < length (nodes s)"
  by (auto simp: sl_wf_def)

lemma sl_wf_level0: "sl_wf cmp s order ht \<Longrightarrow> linked (nxt (nodes s) 0) 0 order"
proof -
  assume wf: "sl_wf cmp s order ht"
  have "linked (nxt (nodes s) 0) 0 (filter (\<lambda>x. 0 < ht x) order)"
    using wf by (simp add: sl_wf_def kMaxHeight_def)
  moreover have "filter (\<lambda>x. 0 < ht x) order = order"
    using sl_wf_ht [OF wf] by (intro filter_True) auto
  ultimately show ?thesis by simp
qed

text \<open>One level of the search: it walks over the keys below the target.\<close>

lemma FindGE_level:
  assumes "linked (nxt ns level) x (xs @ ys)"
    and "\<And>y. y \<in> set xs \<Longrightarrow> cmp (nkey (ns ! y)) key"
    and "ys = [] \<or> \<not> cmp (nkey (ns ! hd ys)) key"
  shows "FindGE_loop cmp ns key x level prev =
    (let p = last (x # xs) in
     if level = 0 then Some (head_opt ys, prev[level := Some p])
     else FindGE_loop cmp ns key p (level - 1) (prev[level := Some p]))"
  using assms
proof (induction xs arbitrary: x)
  case Nil
  then show ?case
    by (subst FindGE_loop.simps) (cases ys; simp add: Let_def)
next
  case (Cons a xs)
  have "FindGE_loop cmp ns key x level prev = FindGE_loop cmp ns key a level prev"
    using Cons.prems by (subst FindGE_loop.simps) (simp add: Let_def)
  also have "\<dots> = (let p = last (a # xs) in
     if level = 0 then Some (head_opt ys, prev[level := Some p])
     else FindGE_loop cmp ns key p (level - 1) (prev[level := Some p]))"
    using Cons.prems by (intro Cons.IH) auto
  finally show ?case by simp
qed

lemma FindGE_walk:
  assumes lk: "linked (nxt ns l) 0 (filter (\<lambda>x. l < ht x) (A @ B))"
    and A: "\<And>y. y \<in> set A \<Longrightarrow> cmp (nkey (ns ! y)) key"
    and B: "\<And>y. y \<in> set B \<Longrightarrow> \<not> cmp (nkey (ns ! y)) key"
    and x: "x = 0 \<or> x \<in> set A \<and> l < ht x"
  shows "FindGE_loop cmp ns key x l prev =
    (let p = last (0 # filter (\<lambda>x. l < ht x) A) in
     if l = 0 then Some (head_opt (filter (\<lambda>x. l < ht x) B), prev[l := Some p])
     else FindGE_loop cmp ns key p (l - 1) (prev[l := Some p]))"
proof -
  let ?f = "filter (\<lambda>x. l < ht x)"
  have "\<exists>xs. linked (nxt ns l) x (xs @ ?f B) \<and> last (x # xs) = last (0 # ?f A) \<and>
      set xs \<subseteq> set (?f A)"
  proof (cases "x = 0")
    case True
    then show ?thesis using lk by (intro exI [of _ "?f A"]) simp
  next
    case False
    then have "x \<in> set (?f A)" using x by auto
    then obtain P Q where PQ: "?f A = P @ x # Q" by (meson split_list)
    have "linked (nxt ns l) x (Q @ ?f B)"
      using lk PQ linked_from [of "nxt ns l" 0 P x "Q @ ?f B"] by simp
    then show ?thesis using PQ by (intro exI [of _ Q]) auto
  qed
  then obtain xs where xs: "linked (nxt ns l) x (xs @ ?f B)" "last (x # xs) = last (0 # ?f A)"
    "set xs \<subseteq> set (?f A)" by blast
  have "\<And>y. y \<in> set xs \<Longrightarrow> cmp (nkey (ns ! y)) key" using xs(3) A by auto
  moreover have "?f B = [] \<or> \<not> cmp (nkey (ns ! hd (?f B))) key"
    using B hd_in_set [of "?f B"] by auto
  ultimately show ?thesis using FindGE_level [OF xs(1)] xs(2) by metis
qed

text \<open>
  All levels: with the nodes split into those below the target (\<open>A\<close>) and the others
  (\<open>B\<close>), the search ends at the head of \<open>B\<close> with the last node of \<open>A\<close> on each level.
\<close>

lemma FindGE_levels:
  assumes lk: "\<And>i. i \<le> level \<Longrightarrow> linked (nxt ns i) 0 (filter (\<lambda>x. i < ht x) (A @ B))"
    and A: "\<And>y. y \<in> set A \<Longrightarrow> cmp (nkey (ns ! y)) key"
    and B: "\<And>y. y \<in> set B \<Longrightarrow> \<not> cmp (nkey (ns ! y)) key"
    and x: "x = 0 \<or> x \<in> set A \<and> level < ht x"
    and len: "level < length prev"
  shows "\<exists>prev'. FindGE_loop cmp ns key x level prev =
      Some (head_opt (filter (\<lambda>x. 0 < ht x) B), prev') \<and> length prev' = length prev \<and>
    (\<forall>i < length prev. prev' ! i =
       (if i \<le> level then Some (last (0 # filter (\<lambda>x. i < ht x) A)) else prev ! i))"
  using lk x len
proof (induction level arbitrary: x prev)
  case (0 x prev)
  then show ?case
    using FindGE_walk [where ht = ht and l = 0 and A = A and B = B and ns = ns and cmp = cmp, OF "0.prems"(1) [OF order_refl] A B "0.prems"(2), of prev]
    by (auto simp: Let_def)
next
  case (Suc level x prev)
  let ?f = "filter (\<lambda>x. Suc level < ht x)"
  let ?p = "last (0 # ?f A)"
  let ?prev = "prev[Suc level := Some ?p]"
  have step: "FindGE_loop cmp ns key x (Suc level) prev = FindGE_loop cmp ns key ?p level ?prev"
    using FindGE_walk [where ht = ht and l = "Suc level" and A = A and B = B and ns = ns and cmp = cmp, OF Suc.prems(1) [OF order_refl] A B Suc.prems(2), of prev]
    by (simp add: Let_def)
  have "?p = 0 \<or> ?p \<in> set (?f A)" using last_in_set [of "?f A"] by auto
  then have "?p = 0 \<or> ?p \<in> set A \<and> level < ht ?p" by auto
  from Suc.IH [OF _ this, of ?prev] Suc.prems(1,3)
  obtain prev' where "FindGE_loop cmp ns key ?p level ?prev =
      Some (head_opt (filter (\<lambda>x. 0 < ht x) B), prev')" "length prev' = length prev"
    "\<forall>i < length prev. prev' ! i =
       (if i \<le> level then Some (last (0 # filter (\<lambda>x. i < ht x) A)) else ?prev ! i)" by auto
  then show ?case unfolding step by (auto simp: nth_list_update le_Suc_eq)
qed

text \<open>The split of a well-formed list by a target.\<close>

definition nodes_below :: "('k \<Rightarrow> 'k \<Rightarrow> bool) \<Rightarrow> 'k skiplist \<Rightarrow> nat list \<Rightarrow> 'k \<Rightarrow> nat list" where
  "nodes_below cmp s order key = takeWhile (\<lambda>x. cmp (nkey (nodes s ! x)) key) order"

definition nodes_above :: "('k \<Rightarrow> 'k \<Rightarrow> bool) \<Rightarrow> 'k skiplist \<Rightarrow> nat list \<Rightarrow> 'k \<Rightarrow> nat list" where
  "nodes_above cmp s order key = dropWhile (\<lambda>x. cmp (nkey (nodes s ! x)) key) order"

lemma nodes_below_above [simp]: "nodes_below cmp s order key @ nodes_above cmp s order key = order"
  by (simp add: nodes_below_def nodes_above_def)

lemma map_nodes_split:
  "map (\<lambda>x. nkey (nodes s ! x)) (nodes_below cmp s order key) =
     takeWhile (\<lambda>k. cmp k key) (map (\<lambda>x. nkey (nodes s ! x)) order)"
  "map (\<lambda>x. nkey (nodes s ! x)) (nodes_above cmp s order key) =
     dropWhile (\<lambda>k. cmp k key) (map (\<lambda>x. nkey (nodes s ! x)) order)"
  by (simp_all add: nodes_below_def nodes_above_def takeWhile_map dropWhile_map comp_def)

text \<open>The predecessor at each level of a new node behind the nodes \<open>A\<close>, and the two loops of
  \<open>Insert\<close> that link the node \<open>n\<close> in behind its predecessors.\<close>

definition level_pred :: "(nat \<Rightarrow> nat) \<Rightarrow> nat list \<Rightarrow> nat \<Rightarrow> nat" where
  "level_pred ht A i = last (0 # filter (\<lambda>x. i < ht x) A)"

definition link_in :: "nat \<Rightarrow> nat \<Rightarrow> (nat \<Rightarrow> nat) \<Rightarrow> 'k node list \<Rightarrow> 'k node list" where
  "link_in n h P ns =
     foldl (\<lambda>ns i. set_nxt (P i) i (Some n) ns) (foldl (\<lambda>ns i. set_nxt n i (nxt ns i (P i)) ns) ns [0..<h]) [0..<h]"

lemma link_in_effect:
  assumes "store_ok ns" "h \<le> kMaxHeight" "length ns = Suc n" "\<And>i. P i < n"
  shows "nxt (link_in n h P ns) j y =
      (if j < h \<and> y = P j then Some n else if j < h \<and> y = n then nxt ns j (P j) else nxt ns j y)"
    and "length (link_in n h P ns) = Suc n" "store_ok (link_in n h P ns)" "nkey (link_in n h P ns ! y) = nkey (ns ! y)"
proof -
  define ns2 where "ns2 = foldl (\<lambda>ns i. set_nxt n i (nxt ns i (P i)) ns) ns [0..<h]"
  have ns2: "ns2 = foldl (\<lambda>ns' i. set_nxt n i (nxt ns i (P i)) ns') ns [0..<h]"
    using foldl_copy_nxt [OF assms(1,2), of n P] assms(3,4) by (simp add: ns2_def nat_neq_iff)
  have s2: "nxt ns2 j y = (if j < h \<and> y = n then nxt ns j (P j) else nxt ns j y)"
    "length ns2 = Suc n" "store_ok ns2" "nkey (ns2 ! y) = nkey (ns ! y)" for j y
    using foldl_set_nxt [OF assms(1,2), of "\<lambda>_. n" "\<lambda>i. nxt ns i (P i)"] assms(3) by (auto simp: ns2)
  have l: "link_in n h P ns = foldl (\<lambda>ns i. set_nxt (P i) i (Some n) ns) ns2 [0..<h]" by (simp add: link_in_def ns2_def)
  have s3: "nxt (link_in n h P ns) j y = (if j < h \<and> y = P j then Some n else nxt ns2 j y)"
    "length (link_in n h P ns) = Suc n" "store_ok (link_in n h P ns)" "nkey (link_in n h P ns ! y) = nkey (ns ! y)" for j y
    using foldl_set_nxt [OF s2(3) assms(2), of P "\<lambda>_. Some n"] assms(4) s2(2,4) by (auto simp: l less_SucI)
  show "nxt (link_in n h P ns) j y =
      (if j < h \<and> y = P j then Some n else if j < h \<and> y = n then nxt ns j (P j) else nxt ns j y)"
    "length (link_in n h P ns) = Suc n" "store_ok (link_in n h P ns)" "nkey (link_in n h P ns ! y) = nkey (ns ! y)"
    using s3 s2(1) by simp_all
qed

context strict_weak_order begin

lemma FindGreaterOrEqual_wf:
  assumes wf: "sl_wf cmp s order ht"
  shows "\<exists>prev. FindGreaterOrEqual cmp s key = Some (head_opt (nodes_above cmp s order key), prev) \<and>
    length prev = kMaxHeight \<and>
    (\<forall>i < cur_height s. prev ! i =
       Some (last (0 # filter (\<lambda>x. i < ht x) (nodes_below cmp s order key))))"
proof -
  let ?A = "nodes_below cmp s order key" and ?B = "nodes_above cmp s order key"
  have lk: "linked (nxt (nodes s) i) 0 (filter (\<lambda>x. i < ht x) (?A @ ?B))"
    if "i \<le> cur_height s - 1" for i
  proof -
    have "i < kMaxHeight" using wf that by (auto simp: sl_wf_def)
    then show ?thesis using wf by (simp only: nodes_below_above sl_wf_def)
  qed
  have A: "cmp (nkey (nodes s ! y)) key" if "y \<in> set ?A" for y
    using that unfolding nodes_below_def by (rule set_takeWhileD [THEN conjunct2])
  have B: "\<not> cmp (nkey (nodes s ! y)) key" if "y \<in> set ?B" for y
  proof -
    have "nkey (nodes s ! y) \<in> set (map (\<lambda>x. nkey (nodes s ! x)) ?B)" using that by simp
    then show ?thesis
      using wf ordered_dropWhile unfolding map_nodes_split sl_wf_def by blast
  qed
  have "filter (\<lambda>x. 0 < ht x) ?B = ?B"
    using sl_wf_ht [OF wf] unfolding nodes_above_def by (intro filter_True) (auto dest: set_dropWhileD)
  have cur: "1 \<le> cur_height s" "cur_height s \<le> kMaxHeight" using wf by (auto simp: sl_wf_def)
  note B0 = \<open>filter (\<lambda>x. 0 < ht x) ?B = ?B\<close>
  have "cur_height s - 1 < length (replicate kMaxHeight None :: nat option list)" using cur by simp
  from FindGE_levels [where ht = ht and A = ?A and B = ?B and ns = "nodes s" and cmp = cmp and x = 0
      and prev = "replicate kMaxHeight None" and level = "cur_height s - 1", OF lk A B _ this]
  obtain prev' where "FindGreaterOrEqual cmp s key = Some (head_opt ?B, prev')"
    "length prev' = kMaxHeight"
    and pt: "\<forall>i < kMaxHeight. prev' ! i = (if i \<le> cur_height s - 1
       then Some (last (0 # filter (\<lambda>x. i < ht x) ?A)) else replicate kMaxHeight None ! i)"
    unfolding FindGreaterOrEqual_def B0 length_replicate by blast
  then have p': "FindGreaterOrEqual cmp s key = Some (head_opt ?B, prev')" "length prev' = kMaxHeight"
    "\<forall>i < kMaxHeight. i \<le> cur_height s - 1 \<longrightarrow> prev' ! i = Some (last (0 # filter (\<lambda>x. i < ht x) ?A))"
    by presburger+
  have "i < kMaxHeight \<and> i \<le> cur_height s - 1" if "i < cur_height s" for i using that cur by linarith
  then show ?thesis using p' by blast
qed

lemma level_pred_less:
  assumes wf: "sl_wf cmp s order ht"
  shows "level_pred ht (nodes_below cmp s order key) i < length (nodes s)"
proof -
  let ?A = "nodes_below cmp s order key"
  have "0 < length (nodes s)" using wf by (auto simp: sl_wf_def store_ok_def)
  moreover have "level_pred ht ?A i = 0 \<or> level_pred ht ?A i \<in> set (filter (\<lambda>x. i < ht x) ?A)"
    using last_in_set [of "filter (\<lambda>x. i < ht x) ?A"] by (auto simp: level_pred_def)
  moreover have "set ?A \<subseteq> set order" by (metis Un_upper1 nodes_below_above set_append)
  ultimately show ?thesis using sl_wf_node [OF wf] by auto
qed

text \<open>Level \<open>i\<close> of a well-formed list, split by a target.\<close>

lemma level_split:
  fixes key :: 'k
  assumes wf: "sl_wf cmp s order ht"
  defines "A \<equiv> nodes_below cmp s order key" and "B \<equiv> nodes_above cmp s order key"
  shows "distinct (0 # filter (\<lambda>x. i < ht x) A @ filter (\<lambda>x. i < ht x) B)"
    and "i < kMaxHeight \<Longrightarrow> linked (nxt (nodes s) i) 0 (filter (\<lambda>x. i < ht x) A @ filter (\<lambda>x. i < ht x) B)"
    and "i < kMaxHeight \<Longrightarrow> nxt (nodes s) i (level_pred ht A i) = head_opt (filter (\<lambda>x. i < ht x) B)"
    and "cur_height s \<le> i \<Longrightarrow> level_pred ht A i = 0"
proof -
  have AB: "A @ B = order" by (simp add: A_def B_def)
  have "distinct (0 # filter (\<lambda>x. i < ht x) (A @ B))" using wf sl_wf_node [OF wf, of 0] by (auto simp: AB sl_wf_def)
  then show "distinct (0 # filter (\<lambda>x. i < ht x) A @ filter (\<lambda>x. i < ht x) B)" by (simp only: filter_append)
  show lk: "linked (nxt (nodes s) i) 0 (filter (\<lambda>x. i < ht x) A @ filter (\<lambda>x. i < ht x) B)" if "i < kMaxHeight"
  proof -
    have "linked (nxt (nodes s) i) 0 (filter (\<lambda>x. i < ht x) (A @ B))" using wf that by (simp only: AB sl_wf_def)
    then show ?thesis by (simp only: filter_append)
  qed
  show "nxt (nodes s) i (level_pred ht A i) = head_opt (filter (\<lambda>x. i < ht x) B)" if "i < kMaxHeight"
    using linked_head [OF linked_last [OF lk [OF that]]] by (simp add: level_pred_def)
  show "level_pred ht A i = 0" if "cur_height s \<le> i"
  proof -
    have "set A \<subseteq> set order" using AB by (metis Un_upper1 set_append)
    then have "filter (\<lambda>x. i < ht x) A = []" using sl_wf_ht [OF wf] that by (fastforce simp: filter_empty_conv)
    then show ?thesis by (simp add: level_pred_def)
  qed
qed

text \<open>The search and the raised height leave the predecessors in \<open>prev\<close>, so \<open>Insert\<close> links the
  new node in behind them.\<close>

lemma SkipList_Insert_links:
  fixes key :: 'k
  assumes wf: "sl_wf cmp s order ht" and h: "RandomHeight (rng s) = (h, seed)"
  defines "P \<equiv> level_pred ht (nodes_below cmp s order key)"
  shows "SkipList_Insert new_char cmp key s a =
    Some (s\<lparr>rng := seed, cur_height := max (cur_height s) h, nodes := link_in (length (nodes s)) h P (nodes s @ [new_node key])\<rparr>,
      snd (Arena_AllocateAligned new_char sizeof_Node a))"
proof -
  have hb: "1 \<le> h" "h \<le> kMaxHeight" using RandomHeight_bounds [OF h] by auto
  obtain prev0 x where find: "FindGreaterOrEqual cmp s key = Some (x, prev0)"
    and len0: "length prev0 = kMaxHeight" and prev0: "\<And>i. i < cur_height s \<Longrightarrow> prev0 ! i = Some (P i)"
    using FindGreaterOrEqual_wf [OF wf, of key] by (auto simp: P_def level_pred_def)
  define prev where "prev = (if h > cur_height s
    then foldl (\<lambda>prev i. prev[i := Some 0]) prev0 [cur_height s..<h] else prev0)"
  have prev: "the (prev ! i) = P i" if "i < h" for i
    using foldl_set_some [of "Some 0" prev0 "cur_height s" h] prev0 [of i] level_split(4) [OF wf, of i key] that hb len0
    by (auto simp: prev_def P_def)
  let ?n = "length (nodes s)" and ?ns = "nodes s @ [new_node key]"
  have 2: "foldl (\<lambda>ns i. set_nxt ?n i (nxt ns i (the (prev ! i))) ns) ns [0..<h] =
      foldl (\<lambda>ns i. set_nxt ?n i (nxt ns i (P i)) ns) ns [0..<h]" for ns :: "'k node list"
    by (rule foldl_cong) (auto simp: prev)
  have 3: "foldl (\<lambda>ns i. set_nxt (the (prev ! i)) i (Some ?n) ns) ns [0..<h] =
      foldl (\<lambda>ns i. set_nxt (P i) i (Some ?n) ns) ns [0..<h]" for ns :: "'k node list"
    by (rule foldl_cong) (auto simp: prev)
  show ?thesis
    using 2 [of ?ns] 3 unfolding SkipList_Insert_def find link_in_def
    by (simp add: h NewNode_def prev_def max_def split: if_splits)
qed

text \<open>Each level is linked as before, with the new node in its place if it is as high.\<close>

lemma link_in_level:
  fixes key :: 'k
  assumes wf: "sl_wf cmp s order ht" and h: "h \<le> kMaxHeight" and i: "i < kMaxHeight"
  defines "n \<equiv> length (nodes s)" and "A \<equiv> nodes_below cmp s order key" and "B \<equiv> nodes_above cmp s order key"
  shows "linked (nxt (link_in n h (level_pred ht A) (nodes s @ [new_node key])) i) 0 (filter (\<lambda>x. i < (ht(n := h)) x) (A @ n # B))"
    (is "linked (nxt ?ns i) 0 _")
proof -
  let ?ht = "ht(n := h)" and ?P = "level_pred ht A"
  let ?fA = "filter (\<lambda>x. i < ht x) A" and ?fB = "filter (\<lambda>x. i < ht x) B"
  have "store_ok (nodes s)" using wf by (simp add: sl_wf_def)
  then have ok: "store_ok (nodes s @ [new_node key])" and n: "0 < n" by (simp, simp add: store_ok_def n_def)
  have P: "?P j < n" for j using level_pred_less [OF wf] by (simp add: A_def n_def)
  have AB: "A @ B = order" by (simp add: A_def B_def)
  then have nin: "x < n" if "x \<in> set A \<union> set B" for x using that sl_wf_node [OF wf, of x] by (auto simp: n_def)
  have fil: "filter (\<lambda>x. i < ?ht x) A = ?fA" "filter (\<lambda>x. i < ?ht x) B = ?fB"
    using nin by (auto intro!: filter_cong)
  have nx: "nxt ?ns i y = (if i < h \<and> y = ?P i then Some n else if i < h \<and> y = n then head_opt ?fB else nxt (nodes s) i y)"
    if "y \<le> n" "i < h \<or> y < n" for y
  proof -
    have "nxt (nodes s @ [new_node key]) i z = nxt (nodes s) i z" if "z < n" for z
      using that by (simp add: n_def nxt_def nth_append)
    moreover have "nxt (nodes s) i (?P i) = head_opt ?fB" unfolding A_def B_def by (rule level_split(3) [OF wf i])
    moreover have "length (nodes s @ [new_node key]) = Suc n" by (simp add: n_def)
    ultimately show ?thesis using link_in_effect(1) [OF ok h, of n ?P i y] P that by auto
  qed
  note lk = level_split(1,2) [OF wf, where i = i and key = key, folded A_def B_def]
  have fresh: "n \<notin> set (0 # ?fA @ ?fB)" using nin n by auto
  show ?thesis
  proof (cases "i < h")
    case True
    have "linked (nxt ?ns i) 0 (?fA @ n # ?fB)"
    proof (rule linked_insert [OF lk(2) [OF i] lk(1) fresh])
      fix y assume "y \<in> set (0 # ?fA @ n # ?fB)"
      then have "y = n \<or> y < n" using nin n by auto
      then show "nxt ?ns i y = (if y = last (0 # ?fA) then Some n else if y = n then head_opt ?fB else nxt (nodes s) i y)"
        using nx [of y] True by (auto simp: level_pred_def)
    qed
    then show ?thesis using True by (simp only: filter_append filter.simps fil) simp
  next
    case False
    have "linked (nxt ?ns i) 0 (?fA @ ?fB) \<longleftrightarrow> linked (nxt (nodes s) i) 0 (?fA @ ?fB)"
    proof (rule linked_cong)
      fix y assume "y \<in> set (0 # ?fA @ ?fB)"
      then have "y < n" using nin n by auto
      then show "nxt ?ns i y = nxt (nodes s) i y" using nx [of y] False by simp
    qed
    then show ?thesis using False lk(2) [OF i] by (simp only: filter_append filter.simps fil) simp
  qed
qed

text \<open>The nodes in their new order.\<close>

lemma new_order:
  fixes key :: 'k
  assumes wf: "sl_wf cmp s order ht"
  defines "n \<equiv> length (nodes s)" and "A \<equiv> nodes_below cmp s order key" and "B \<equiv> nodes_above cmp s order key"
  shows "set (A @ n # B) = {1..<Suc n}" "distinct (A @ n # B)" "x \<in> set A \<union> set B \<Longrightarrow> x \<in> set order \<and> x < n"
proof -
  have AB: "A @ B = order" by (simp add: A_def B_def)
  have n: "0 < n" using wf by (auto simp: sl_wf_def store_ok_def n_def)
  have o: "set order = {1..<n}" "distinct order" using wf by (simp_all add: sl_wf_def n_def)
  have "set A \<union> set B = {1..<n}" using AB o(1) by (metis set_append)
  then show "set (A @ n # B) = {1..<Suc n}" "x \<in> set A \<union> set B \<Longrightarrow> x \<in> set order \<and> x < n" using n o(1) by auto
  show "distinct (A @ n # B)"
    using o(2) \<open>set A \<union> set B = {1..<n}\<close> unfolding AB [symmetric] by auto
qed

lemma SkipList_Insert_wf:
  assumes wf: "sl_wf cmp s order ht"
    and h: "RandomHeight (rng s) = (h, seed)"
  defines "n \<equiv> length (nodes s)"
  shows "\<exists>s' a'. SkipList_Insert new_char cmp key s a = Some (s', a') \<and>
    a' = snd (Arena_AllocateAligned new_char sizeof_Node a) \<and>
    sl_wf cmp s' (nodes_below cmp s order key @ n # nodes_above cmp s order key) (ht(n := h)) \<and>
    length (nodes s') = Suc n \<and> nkey (nodes s' ! n) = key \<and>
    (\<forall>x < n. nkey (nodes s' ! x) = nkey (nodes s ! x))"
proof -
  let ?A = "nodes_below cmp s order key" and ?B = "nodes_above cmp s order key"
  let ?ht = "ht(n := h)"
  let ?ns = "link_in n h (level_pred ht ?A) (nodes s @ [new_node key])"
  let ?s = "s\<lparr>rng := seed, cur_height := max (cur_height s) h, nodes := ?ns\<rparr>"
  have hb: "1 \<le> h" "h \<le> kMaxHeight" using RandomHeight_bounds [OF h] by auto
  have cur: "1 \<le> cur_height s" "cur_height s \<le> kMaxHeight" and "store_ok (nodes s)" using wf by (simp_all add: sl_wf_def)
  then have ok: "store_ok (nodes s @ [new_node key])" by simp
  have P: "level_pred ht ?A i < n" for i using level_pred_less [OF wf] by (simp add: n_def)
  have "length (nodes s @ [new_node key]) = Suc n" by (simp add: n_def)
  note eff = link_in_effect(2-4) [OF ok hb(2) this P]
  have nkeys: "nkey (?ns ! n) = key" "x < n \<Longrightarrow> nkey (?ns ! x) = nkey (nodes s ! x)" for x
    unfolding eff(3) by (simp_all add: n_def nth_append new_node_def)
  note new = new_order [OF wf, where key = key, folded n_def]
  have "map (\<lambda>x. nkey (?ns ! x)) ys = map (\<lambda>x. nkey (nodes s ! x)) ys" if "set ys \<subseteq> set ?A \<union> set ?B" for ys
    using that nkeys(2) new(3) by auto
  from this [of ?A] this [of ?B] have keys: "map (\<lambda>x. nkey (?ns ! x)) (?A @ n # ?B) =
      ins_sorted cmp key (map (\<lambda>x. nkey (nodes s ! x)) order)"
    by (simp add: ins_sorted_def nkeys(1) flip: map_nodes_split)
  have ord: "ordered cmp (map (\<lambda>x. nkey (nodes s ! x)) order)" using wf by (simp add: sl_wf_def)
  have "\<forall>x \<in> set (?A @ n # ?B). 1 \<le> ?ht x \<and> ?ht x \<le> max (cur_height s) h"
    using new(3) sl_wf_ht [OF wf] hb by (fastforce simp: le_max_iff_disj Suc_le_eq)
  then have hts: "\<forall>x \<in> {1..<Suc n}. 1 \<le> ?ht x \<and> ?ht x \<le> max (cur_height s) h" unfolding new(1) .
  have "1 \<le> max (cur_height s) h" "max (cur_height s) h \<le> kMaxHeight" using cur hb by simp_all
  then have "sl_wf cmp ?s (?A @ n # ?B) ?ht"
    unfolding sl_wf_def skiplist.select_convs skiplist.update_convs
    using new(1,2) link_in_level [OF wf hb(2), folded n_def] keys ordered_ins_sorted [OF ord, of key] eff(1,2) hts by simp
  then show ?thesis
    using SkipList_Insert_links [OF wf h, of new_char key a] nkeys eff(1)
    by (intro exI [of _ ?s] exI [of _ "snd (Arena_AllocateAligned new_char sizeof_Node a)"]) (simp add: n_def)
qed

lemma sl_rel_Insert:
  assumes "sl_rel cmp s ks"
  shows "\<exists>s'. SkipList_Insert new_char cmp key s a =
      Some (s', snd (Arena_AllocateAligned new_char sizeof_Node a)) \<and>
    sl_rel cmp s' (ins_sorted cmp key ks)"
proof -
  obtain order ht where wf: "sl_wf cmp s order ht" and ks: "ks = map (\<lambda>x. nkey (nodes s ! x)) order"
    using assms by (auto simp: sl_rel_def)
  obtain h seed where "RandomHeight (rng s) = (h, seed)" by fastforce
  from SkipList_Insert_wf [OF wf this, of new_char key a] obtain s' where
    ins: "SkipList_Insert new_char cmp key s a =
      Some (s', snd (Arena_AllocateAligned new_char sizeof_Node a))"
    and wf': "sl_wf cmp s' (nodes_below cmp s order key @ length (nodes s) # nodes_above cmp s order key)
      (ht(length (nodes s) := h))"
    and k: "nkey (nodes s' ! length (nodes s)) = key"
      "\<forall>x < length (nodes s). nkey (nodes s' ! x) = nkey (nodes s ! x)" by blast
  have mem: "x \<in> set (nodes_below cmp s order key) \<Longrightarrow> x \<in> set order"
    "x \<in> set (nodes_above cmp s order key) \<Longrightarrow> x \<in> set order" for x
    by (metis Un_iff nodes_below_above set_append)+
  have same: "map (\<lambda>x. nkey (nodes s' ! x)) ys = map (\<lambda>x. nkey (nodes s ! x)) ys"
    if "\<And>x. x \<in> set ys \<Longrightarrow> x \<in> set order" for ys
    using that k(2) sl_wf_node [OF wf] unfolding map_eq_conv by blast
  have "map (\<lambda>x. nkey (nodes s' ! x))
      (nodes_below cmp s order key @ length (nodes s) # nodes_above cmp s order key) =
    ins_sorted cmp key ks"
    unfolding ins_sorted_def ks map_nodes_split [symmetric]
    using same [OF mem(1)] same [OF mem(2)] k(1) by (simp only: map_append list.map)
  then have "sl_rel cmp s' (ins_sorted cmp key ks)" using wf' unfolding sl_rel_def by metis
  then show ?thesis using ins by blast
qed

end

lemma sl_rel_new: "sl_rel cmp (fst (SkipList_new new_char k0 a)) []"
  by (simp add: sl_rel_def sl_wf_def SkipList_new_def NewNode_def store_ok_def new_node_def nxt_def
      ordered_def) (simp add: kMaxHeight_def)

lemma snd_SkipList_new: "snd (SkipList_new new_char k0 a) = snd (Arena_AllocateAligned new_char sizeof_Node a)"
  by (simp add: SkipList_new_def NewNode_def)

section \<open>Positions\<close>

text \<open>An iterator stands for the keys from its node on.\<close>

definition iter_at :: "('k \<Rightarrow> 'k \<Rightarrow> bool) \<Rightarrow> 'k skiplist \<Rightarrow> nat option \<Rightarrow> 'k list \<Rightarrow> bool" where
  "iter_at cmp s it rest \<longleftrightarrow>
     (\<exists>A B ht. sl_wf cmp s (A @ B) ht \<and> it = head_opt B \<and> rest = map (\<lambda>x. nkey (nodes s ! x)) B)"

lemma iter_at_SeekToFirst: "sl_rel cmp s ks \<Longrightarrow> iter_at cmp s (Iter_SeekToFirst s) ks"
  unfolding sl_rel_def iter_at_def Iter_SeekToFirst_def
  by (metis append_Nil linked_head sl_wf_level0)

lemma iter_at_Valid: "iter_at cmp s it rest \<Longrightarrow> Iter_Valid it \<longleftrightarrow> rest \<noteq> []"
  unfolding iter_at_def Iter_Valid_def by (elim exE conjE, rename_tac A B ht, case_tac B) simp_all

lemma iter_at_key: "iter_at cmp s it (k # rest) \<Longrightarrow> Iter_key s it = k"
  by (auto simp: iter_at_def Iter_key_def)

lemma iter_at_Next: "iter_at cmp s it (k # rest) \<Longrightarrow> iter_at cmp s (Iter_Next s it) rest"
proof -
  assume "iter_at cmp s it (k # rest)"
  then obtain A b B ht where wf: "sl_wf cmp s (A @ b # B) ht" and it: "it = Some b"
    and rest: "rest = map (\<lambda>x. nkey (nodes s ! x)) B"
    by (auto simp: iter_at_def Cons_eq_map_conv)
  have "Iter_Next s it = head_opt B"
    using linked_head [OF linked_from [OF sl_wf_level0 [OF wf]]] by (simp add: Iter_Next_def it)
  then show ?thesis
    unfolding iter_at_def rest using wf by (intro exI [of _ "A @ [b]"] exI [of _ B] exI [of _ ht]) simp
qed

lemma Iter_collect_at: "iter_at cmp s it rest \<Longrightarrow> Iter_collect s it acc = Some (acc @ rest)"
proof (induction rest arbitrary: it acc)
  case Nil
  then show ?case using iter_at_Valid [OF Nil] by (subst Iter_collect.simps) simp
next
  case (Cons k rest)
  show ?case
    using iter_at_Valid [OF Cons.prems] iter_at_key [OF Cons.prems] Cons.IH [OF iter_at_Next [OF Cons.prems]]
    by (subst Iter_collect.simps) simp
qed

lemma sl_rel_ordered: "sl_rel cmp s ks \<Longrightarrow> ordered cmp ks"
  by (auto simp: sl_rel_def sl_wf_def)

context strict_weak_order begin

lemma Iter_Seek_at:
  assumes "sl_rel cmp s ks"
  shows "\<exists>it. Iter_Seek cmp s target = Some it \<and>
    iter_at cmp s it (dropWhile (\<lambda>k. cmp k target) ks)"
proof -
  obtain order ht where wf: "sl_wf cmp s order ht" and ks: "ks = map (\<lambda>x. nkey (nodes s ! x)) order"
    using assms by (auto simp: sl_rel_def)
  from FindGreaterOrEqual_wf [OF wf, of target]
  have "Iter_Seek cmp s target = Some (head_opt (nodes_above cmp s order target))"
    by (auto simp: Iter_Seek_def)
  moreover have "iter_at cmp s (head_opt (nodes_above cmp s order target))
      (dropWhile (\<lambda>k. cmp k target) ks)"
    unfolding iter_at_def ks map_nodes_split [symmetric]
    using wf nodes_below_above by metis
  ultimately show ?thesis by blast
qed

lemma SkipList_Contains_iff:
  assumes "sl_rel cmp s ks"
  shows "SkipList_Contains cmp s key = Some (\<exists>k \<in> set ks. \<not> cmp k key \<and> \<not> cmp key k)"
proof -
  let ?D = "dropWhile (\<lambda>k. cmp k key) ks"
  obtain it prev where f: "FindGreaterOrEqual cmp s key = Some (it, prev)" and at: "iter_at cmp s it ?D"
    using Iter_Seek_at [OF assms, of key] by (auto simp: Iter_Seek_def)
  have o: "ordered cmp ks" using sl_rel_ordered [OF assms] .
  have "set ks = set (takeWhile (\<lambda>k. cmp k key) ks) \<union> set ?D" by (simp flip: set_append)
  moreover have "\<forall>k \<in> set (takeWhile (\<lambda>k. cmp k key) ks). cmp k key" by (meson set_takeWhileD)
  moreover have "\<forall>k \<in> set ?D. \<not> cmp k key" using ordered_dropWhile [OF o] by blast
  ultimately have iff: "(\<exists>k \<in> set ks. \<not> cmp k key \<and> \<not> cmp key k) \<longleftrightarrow> (\<exists>k \<in> set ?D. \<not> cmp key k)"
    by blast
  have c: "SkipList_Contains cmp s key =
      Some (Iter_Valid it \<and> \<not> cmp (Iter_key s it) key \<and> \<not> cmp key (Iter_key s it))"
    by (simp add: SkipList_Contains_def f Iter_Valid_def Iter_key_def)
  show ?thesis
  proof (cases ?D)
    case Nil
    then show ?thesis using c iff iter_at_Valid [OF at] by simp
  next
    case (Cons d D)
    have key: "Iter_key s it = d" using at Cons iter_at_key by metis
    have "sorted_wrt (\<lambda>a b. \<not> cmp b a) ?D"
      using o unfolding ordered_def by (metis sorted_wrt_append takeWhile_dropWhile_id)
    then have "\<not> cmp key x \<Longrightarrow> x \<in> set D \<Longrightarrow> \<not> cmp key d" for x
      using Cons cmp_split [of key d x] by auto
    then have "(\<exists>k \<in> set ?D. \<not> cmp key k) \<longleftrightarrow> \<not> cmp key d" using Cons by auto
    moreover have "\<not> cmp d key" using ordered_dropWhile [OF o, of d key] Cons by simp
    ultimately show ?thesis using c iff key iter_at_Valid [OF at] Cons by simp
  qed
qed

end

section \<open>Properties\<close>

lemma strict_weak_order_less: "strict_weak_order ((<) :: 'a :: linorder \<Rightarrow> 'a \<Rightarrow> bool)"
  by unfold_locales auto

text \<open>
  The generator's shift-and-mask arithmetic on 64 bits computes the Park-Miller step
  \<open>seed * 16807 mod (2^31 - 1)\<close>, and a seed between the two degenerate points stays
  between them; every seed given to the constructor is mapped there.
\<close>

theorem random_park_miller:
  "0 < unat (Random_new s) \<and> unat (Random_new s) < 2 ^ 31 - 1 \<and>
   (0 < unat seed \<longrightarrow> unat seed < 2 ^ 31 - 1 \<longrightarrow>
     unat (Random_Next seed) = unat seed * 16807 mod (2 ^ 31 - 1) \<and>
     0 < unat (Random_Next seed) \<and> unat (Random_Next seed) < 2 ^ 31 - 1)"
  using Random_new_range [of s] Random_Next_eq [of seed] Random_Next_range [of seed] by simp

theorem random_park_miller_witness:
  "unat (Random_Next 20) = 336140"
  using random_park_miller [of 20 20] by simp

text \<open>
  C23. \<open>Insert\<close> terminates on every well-formed list and refines insertion into a sorted
  list: the new key goes before the first key that is not below it, the list stays
  well formed on all 12 levels whatever heights the generator draws, and the arena
  is charged one node.
\<close>

theorem skiplist_insert_refines:
  assumes "strict_weak_order cmp" "sl_rel cmp s ks"
  shows "\<exists>s'. SkipList_Insert new_char cmp key s a =
      Some (s', snd (Arena_AllocateAligned new_char sizeof_Node a)) \<and>
    sl_rel cmp s' (takeWhile (\<lambda>k. cmp k key) ks @ key # dropWhile (\<lambda>k. cmp k key) ks)"
  using strict_weak_order.sl_rel_Insert [OF assms] unfolding ins_sorted_def .

theorem skiplist_insert_refines_witness:
  "\<exists>s'. SkipList_Insert bump_new (<) (5 :: nat) (fst (SkipList_new bump_new 0 Arena_init)) Arena_init =
      Some (s', snd (Arena_AllocateAligned bump_new sizeof_Node Arena_init)) \<and>
    sl_rel (<) s' [5]"
  using skiplist_insert_refines [OF strict_weak_order_less sl_rel_new, of bump_new 5] by simp

text \<open>
  C24. Searching is total and correct on every well-formed list: \<open>Seek\<close> stops at the first
  key that is not below the target, from where \<open>Next\<close> visits exactly the keys that
  follow; \<open>SeekToFirst\<close> visits them all; \<open>Contains\<close> decides membership up to the
  equivalence of the comparator.
\<close>

theorem skiplist_search_correct:
  assumes "strict_weak_order cmp" "sl_rel cmp s ks"
  shows "(\<exists>it. Iter_Seek cmp s target = Some it \<and>
      Iter_collect s it [] = Some (dropWhile (\<lambda>k. cmp k target) ks) \<and>
      (Iter_Valid it \<longleftrightarrow> (\<exists>k \<in> set ks. \<not> cmp k target))) \<and>
    Iter_collect s (Iter_SeekToFirst s) [] = Some ks \<and>
    SkipList_Contains cmp s target = Some (\<exists>k \<in> set ks. \<not> cmp k target \<and> \<not> cmp target k)"
proof (intro conjI)
  obtain it where it: "Iter_Seek cmp s target = Some it"
    "iter_at cmp s it (dropWhile (\<lambda>k. cmp k target) ks)"
    using strict_weak_order.Iter_Seek_at [OF assms] by blast
  show "\<exists>it. Iter_Seek cmp s target = Some it \<and>
      Iter_collect s it [] = Some (dropWhile (\<lambda>k. cmp k target) ks) \<and>
      (Iter_Valid it \<longleftrightarrow> (\<exists>k \<in> set ks. \<not> cmp k target))"
    using it Iter_collect_at [OF it(2), of "[]"] iter_at_Valid [OF it(2)] by (simp add: dropWhile_eq_Nil_conv)
  show "Iter_collect s (Iter_SeekToFirst s) [] = Some ks"
    using Iter_collect_at [OF iter_at_SeekToFirst [OF assms(2)], of "[]"] by simp
  show "SkipList_Contains cmp s target = Some (\<exists>k \<in> set ks. \<not> cmp k target \<and> \<not> cmp target k)"
    by (rule strict_weak_order.SkipList_Contains_iff [OF assms])
qed

theorem skiplist_search_correct_witness:
  "SkipList_Contains (<) (fst (SkipList_new bump_new 0 Arena_init)) (5 :: nat) = Some False"
  using skiplist_search_correct [OF strict_weak_order_less sl_rel_new, of bump_new 0 Arena_init "5 :: nat"] by simp

end
