(* ===== verification/Slice.thy ===== *)
theory Slice
  imports Prelude
begin

text \<open>
  \<open>include/mini-leveldb/slice.h\<close>.  A \<open>Slice\<close> is a view of bytes, here the byte
  list it views.  \<open>std::memcmp\<close> returns only a sign, modelled as \<open>-1\<close>, \<open>0\<close> or
  \<open>1\<close>; bytes compare unsigned.  The lemmas show that \<open>compare\<close> decides the
  lexicographic order of byte strings, so the order of the library's lists
  (\<open>HOL-Library.List_Lexorder\<close>) can stand for it everywhere else.
\<close>

fun memcmp :: "bytes \<Rightarrow> bytes \<Rightarrow> nat \<Rightarrow> int" where
  "memcmp (a # as) (b # bs) (Suc n) =
     (if a < b then -1 else if b < a then 1 else memcmp as bs n)"
| "memcmp _ _ _ = 0"

text \<open>
  \<open>remove_prefix\<close>: moving the start of a view past its end is undefined behaviour
  of \<open>std::string_view\<close>, here \<open>None\<close>.
\<close>

definition Slice_remove_prefix :: "nat \<Rightarrow> bytes \<Rightarrow> bytes option" where
  "Slice_remove_prefix n s = (if n \<le> length s then Some (drop n s) else None)"

definition Slice_compare :: "bytes \<Rightarrow> bytes \<Rightarrow> int" where
  "Slice_compare a b =
     (let min_len = min (length a) (length b);
          r = memcmp a b min_len
      in if r \<noteq> 0 then r
         else if length a < length b then -1
         else if length b < length a then 1
         else 0)"

definition Slice_starts_with :: "bytes \<Rightarrow> bytes \<Rightarrow> bool" where
  "Slice_starts_with a pfx \<longleftrightarrow> length pfx \<le> length a \<and> memcmp a pfx (length pfx) = 0"

definition Slice_eq :: "bytes \<Rightarrow> bytes \<Rightarrow> bool" where
  "Slice_eq a b \<longleftrightarrow> Slice_compare a b = 0"

definition Slice_neq :: "bytes \<Rightarrow> bytes \<Rightarrow> bool" where
  "Slice_neq a b \<longleftrightarrow> \<not> Slice_eq a b"

definition Slice_less :: "bytes \<Rightarrow> bytes \<Rightarrow> bool" where
  "Slice_less a b \<longleftrightarrow> Slice_compare a b < 0"

section \<open>compare decides the lexicographic order\<close>

lemma compare_Nil [simp]:
  "Slice_compare [] [] = 0" "Slice_compare [] (b # bs) = -1" "Slice_compare (a # as) [] = 1"
  by (simp_all add: Slice_compare_def)

lemma compare_Cons [simp]:
  "Slice_compare (a # as) (b # bs) =
     (if a < b then -1 else if b < a then 1 else Slice_compare as bs)"
  by (simp add: Slice_compare_def Let_def)

lemma compare_order:
  "Slice_compare a b = (if a < b then -1 else if a = b then 0 else 1)"
proof (induction a arbitrary: b)
  case Nil
  then show ?case by (cases b) auto
next
  case (Cons x a)
  show ?case
  proof (cases b)
    case (Cons y b')
    then show ?thesis using Cons.IH[of b'] by auto
  qed simp
qed

lemma compare_less_0 [simp]: "Slice_compare a b < 0 \<longleftrightarrow> a < b"
  and compare_eq_0 [simp]: "Slice_compare a b = 0 \<longleftrightarrow> a = b"
  and compare_greater_0 [simp]: "0 < Slice_compare a b \<longleftrightarrow> b < a"
  by (auto simp: compare_order)

lemma Slice_eq_iff [simp]: "Slice_eq a b \<longleftrightarrow> a = b"
  and Slice_neq_iff [simp]: "Slice_neq a b \<longleftrightarrow> a \<noteq> b"
  and Slice_less_iff [simp]: "Slice_less a b \<longleftrightarrow> a < b"
  by (simp_all add: Slice_eq_def Slice_neq_def Slice_less_def)

lemma memcmp_eq_0: "n \<le> length a \<Longrightarrow> n \<le> length b \<Longrightarrow> memcmp a b n = 0 \<longleftrightarrow> take n a = take n b"
  by (induction a b n rule: memcmp.induct) auto

lemma starts_with_prefix: "Slice_starts_with a p \<longleftrightarrow> prefix p a"
proof -
  have "prefix p a \<longleftrightarrow> length p \<le> length a \<and> take (length p) a = p"
    by (metis append_take_drop_id prefixE prefixI prefix_length_le take_append_exact)
  then show ?thesis by (auto simp: Slice_starts_with_def memcmp_eq_0)
qed

text \<open>
  The comparison of \<open>Slice\<close> is a total order on byte strings: its sign is that
  of the lexicographic order, \<open>operator==\<close> is equality of the bytes and
  \<open>starts_with\<close> is the prefix relation.
\<close>

theorem slice_compare_lexicographic:
  "Slice_compare a b = (if a < b then -1 else if a = b then 0 else 1) \<and>
   (Slice_eq a b \<longleftrightarrow> a = b) \<and> (Slice_less a b \<longleftrightarrow> a < b) \<and>
   (Slice_starts_with a p \<longleftrightarrow> (\<exists>r. a = p @ r))"
  by (simp add: compare_order starts_with_prefix prefix_def)

end
