(* ===== verification/Coding.thy ===== *)
theory Coding
  imports Slice
begin

text \<open>
  \<open>src/util/coding.h\<close> and \<open>src/util/coding.cc\<close>: little-endian fixed-width integers,
  base-128 varints and length-prefixed strings.  A \<open>Put\<close> appends to the string it
  is given; a \<open>Get\<close> takes the front of a slice and returns what is left.
\<close>

section \<open>Varints\<close>

text \<open>The loop of \<open>EncodeVarint\<close>: the bytes it writes at \<open>dst\<close>.\<close>

function EncodeVarint :: "u64 \<Rightarrow> bytes" where
  "EncodeVarint v =
     (if v \<ge> 128 then ucast ((v AND 0x7F) OR 0x80) # EncodeVarint (drop_bit 7 v)
      else [ucast v])"
  by pat_completeness auto
termination
proof (relation "measure unat")
  fix v :: u64
  assume "128 \<le> v"
  then have "128 \<le> unat v" by (simp add: word_le_nat_alt)
  then have "unat v div 128 < unat v" by simp
  then show "(drop_bit 7 v, v) \<in> measure unat"
    by (simp add: drop_bit_eq_div unat_div)
qed simp

declare EncodeVarint.simps [simp del]

definition PutVarint32 :: "bytes \<Rightarrow> u32 \<Rightarrow> bytes" where
  "PutVarint32 dst v = dst @ EncodeVarint (ucast v)"

definition PutVarint64 :: "bytes \<Rightarrow> u64 \<Rightarrow> bytes" where
  "PutVarint64 dst v = dst @ EncodeVarint v"

text \<open>The loops of \<open>GetVarint32Ptr\<close> and \<open>GetVarint64Ptr\<close>; \<open>None\<close> is the null pointer.\<close>

fun GetVarint32Ptr :: "nat \<Rightarrow> u32 \<Rightarrow> bytes \<Rightarrow> (u32 \<times> bytes) option" where
  "GetVarint32Ptr shift result [] = None"
| "GetVarint32Ptr shift result (b # p) =
     (if shift \<le> 28 then
        let byte = ucast b :: u32 in
        if byte AND 128 \<noteq> 0
        then GetVarint32Ptr (shift + 7) (result OR push_bit shift (byte AND 127)) p
        else Some (result OR push_bit shift byte, p)
      else None)"

fun GetVarint64Ptr :: "nat \<Rightarrow> u64 \<Rightarrow> bytes \<Rightarrow> (u64 \<times> bytes) option" where
  "GetVarint64Ptr shift result [] = None"
| "GetVarint64Ptr shift result (b # p) =
     (if shift \<le> 63 then
        let byte = ucast b :: u64 in
        if byte AND 128 \<noteq> 0
        then GetVarint64Ptr (shift + 7) (result OR push_bit shift (byte AND 127)) p
        else Some (result OR push_bit shift byte, p)
      else None)"

text \<open>On failure the input slice and the output variable are left as they were.\<close>

definition GetVarint32 :: "bytes \<Rightarrow> (u32 \<times> bytes) option" where
  "GetVarint32 input = GetVarint32Ptr 0 0 input"

definition GetVarint64 :: "bytes \<Rightarrow> (u64 \<times> bytes) option" where
  "GetVarint64 input = GetVarint64Ptr 0 0 input"

section \<open>Length-prefixed strings\<close>

text \<open>The length is narrowed to \<open>uint32_t\<close>, the bytes are appended whole.\<close>

definition PutLengthPrefixedSlice :: "bytes \<Rightarrow> bytes \<Rightarrow> bytes" where
  "PutLengthPrefixedSlice dst s = PutVarint32 dst (word_of_nat (length s)) @ s"

text \<open>
  The result slice, if any, and the input afterwards: when the announced length
  exceeds what is left, the varint has been consumed all the same.
\<close>

definition GetLengthPrefixedSlice :: "bytes \<Rightarrow> bytes option \<times> bytes" where
  "GetLengthPrefixedSlice input =
     (case GetVarint32 input of
        None \<Rightarrow> (None, input)
      | Some (len, inp) \<Rightarrow>
          if unat len \<le> length inp then (Some (take (unat len) inp), drop (unat len) inp)
          else (None, inp))"

section \<open>Fixed-width integers\<close>

definition EncodeFixed32 :: "u32 \<Rightarrow> bytes" where
  "EncodeFixed32 v = map (\<lambda>i. ucast (drop_bit (8 * i) v)) [0..<4]"

definition EncodeFixed64 :: "u64 \<Rightarrow> bytes" where
  "EncodeFixed64 v = map (\<lambda>i. ucast (drop_bit (8 * i) v)) [0..<8]"

definition DecodeFixed32 :: "bytes \<Rightarrow> u32" where
  "DecodeFixed32 p = foldl (\<lambda>result i. result OR push_bit (8 * i) (ucast (p ! i))) 0 [0..<4]"

definition DecodeFixed64 :: "bytes \<Rightarrow> u64" where
  "DecodeFixed64 p = foldl (\<lambda>result i. result OR push_bit (8 * i) (ucast (p ! i))) 0 [0..<8]"

section \<open>Fixed-width round trips\<close>

lemma EncodeFixed_le_bytes:
  "EncodeFixed32 v = le_bytes 4 v" "EncodeFixed64 w = le_bytes 8 w"
  by (simp_all add: EncodeFixed32_def EncodeFixed64_def le_bytes_def)

lemma foldl_le_join:
  "n \<le> length p \<Longrightarrow>
   foldl (\<lambda>result i. result OR push_bit (8 * i) (ucast (p ! i))) 0 [0..<n] =
   (le_join (take n p) :: 'a::len word)"
proof (induction n)
  case (Suc n)
  have "take (Suc n) p = take n p @ [p ! n]" using Suc.prems by (simp add: take_Suc_conv_app_nth)
  moreover have "le_join (bs @ [b]) = le_join bs OR push_bit (8 * length bs) (ucast b :: 'a word)"
    for bs b
    by (induction bs) (auto simp: push_bit_or or.assoc)
  ultimately show ?case using Suc by simp
qed simp

lemma DecodeFixed_le_join:
  "4 \<le> length p \<Longrightarrow> DecodeFixed32 p = le_join (take 4 p)"
  "8 \<le> length p \<Longrightarrow> DecodeFixed64 p = le_join (take 8 p)"
  by (simp_all add: DecodeFixed32_def DecodeFixed64_def foldl_le_join)

lemma length_EncodeFixed [size_simps, simp]:
  "length (EncodeFixed32 v) = 4" "length (EncodeFixed64 w) = 8"
  by (simp_all add: EncodeFixed_le_bytes)

lemma DecodeFixed32_Encode [roundtrip_simps, simp]: "DecodeFixed32 (EncodeFixed32 v @ rest) = v"
  by (simp add: DecodeFixed_le_join) (simp add: EncodeFixed_le_bytes)

lemma DecodeFixed64_Encode [roundtrip_simps, simp]: "DecodeFixed64 (EncodeFixed64 v @ rest) = v"
  by (simp add: DecodeFixed_le_join) (simp add: EncodeFixed_le_bytes)

lemmas DecodeFixed_Encode_exact [roundtrip_simps, simp] =
  DecodeFixed32_Encode [where rest = "[]", simplified]
  DecodeFixed64_Encode [where rest = "[]", simplified]

lemma EncodeFixed32_Decode: "length bs = 4 \<Longrightarrow> EncodeFixed32 (DecodeFixed32 bs) = bs"
  using le_bytes_le_join [of bs, where 'a = 32]
  by (simp add: EncodeFixed_le_bytes DecodeFixed_le_join)

lemma EncodeFixed64_Decode: "length bs = 8 \<Longrightarrow> EncodeFixed64 (DecodeFixed64 bs) = bs"
  using le_bytes_le_join [of bs, where 'a = 64]
  by (simp add: EncodeFixed_le_bytes DecodeFixed_le_join)

lemma EncodeFixed32_inj [simp]: "EncodeFixed32 v = EncodeFixed32 w \<longleftrightarrow> v = w"
  by (metis DecodeFixed_Encode_exact(1))

lemma EncodeFixed64_inj [simp]: "EncodeFixed64 v = EncodeFixed64 w \<longleftrightarrow> v = w"
  by (metis DecodeFixed_Encode_exact(2))

lemma DecodeFixed32_take: "4 \<le> n \<Longrightarrow> DecodeFixed32 (take n p) = DecodeFixed32 p"
  by (auto simp: DecodeFixed32_def intro!: foldl_cong)

lemma DecodeFixed64_take: "8 \<le> n \<Longrightarrow> DecodeFixed64 (take n p) = DecodeFixed64 p"
  by (auto simp: DecodeFixed64_def intro!: foldl_cong)

section \<open>The codec interface\<close>

text \<open>
  What the formats above the integers (length-prefixed strings, block handles, log
  and batch records) rely on: decoding the front of a string that starts with an
  encoding gives the value and the rest.  A \<open>strict\<close> codec also refuses every
  proper prefix of an encoding, which is what makes a truncated file detectable.
\<close>

locale byte_codec =
  fixes enc :: "'a \<Rightarrow> bytes" and dec :: "bytes \<Rightarrow> ('a \<times> bytes) option" and valid :: "'a \<Rightarrow> bool"
  assumes dec_enc: "valid x \<Longrightarrow> dec (enc x @ rest) = Some (x, rest)"
begin

lemma dec_exact: "valid x \<Longrightarrow> dec (enc x) = Some (x, [])"
  using dec_enc [of x "[]"] by simp

lemma enc_append_inj:
  assumes "valid x" "valid y" "enc x @ r = enc y @ s"
  shows "x = y \<and> r = s"
proof -
  have "Some (x, r) = Some (y, s)"
    using dec_enc [OF assms(1), of r] dec_enc [OF assms(2), of s] by (simp only: assms(3))
  then show ?thesis by simp
qed

lemma prefix_free: "valid x \<Longrightarrow> valid y \<Longrightarrow> prefix (enc x) (enc y) \<Longrightarrow> x = y"
  using enc_append_inj [of x y _ "[]"] by (auto simp: prefix_def)

end

locale strict_codec = byte_codec +
  assumes dec_truncated: "valid x \<Longrightarrow> n < length (enc x) \<Longrightarrow> dec (take n (enc x)) = None"
begin

lemma dec_truncated_append:
  "valid x \<Longrightarrow> n < length (enc x) \<Longrightarrow> dec (take n (enc x @ rest)) = None"
  by (simp add: dec_truncated)

end

section \<open>Varint round trips\<close>

lemma EncodeVarint_small: "v < 128 \<Longrightarrow> EncodeVarint v = [ucast v]"
  by (subst EncodeVarint.simps) (auto dest: leD)

lemma EncodeVarint_step:
  "128 \<le> v \<Longrightarrow> EncodeVarint v = ucast ((v AND 127) OR 128) # EncodeVarint (drop_bit 7 v)"
  by (subst EncodeVarint.simps) simp

lemma EncodeVarint_nonempty [simp]: "EncodeVarint v \<noteq> []"
  by (subst EncodeVarint.simps) simp

text \<open>What the decoder sees of a continuation byte and of a last byte.\<close>

lemma cont_byte:
  assumes "8 \<le> LENGTH('a::len)"
  shows "(ucast (ucast ((v AND 127) OR 128) :: byte) :: 'a word) AND 127 = ucast (v AND (127 :: u64))"
    and "(ucast (ucast (((v :: u64) AND 127) OR 128) :: byte) :: 'a word) AND 128 \<noteq> 0"
proof -
  show "(ucast (ucast ((v AND 127) OR 128) :: byte) :: 'a word) AND 127 = ucast (v AND (127 :: u64))"
    using assms by (intro bit_word_eqI) (auto simp: bit_simps bit_consts)
  have "bit ((ucast (ucast ((v AND 127) OR 128) :: byte) :: 'a word) AND 128) 7"
    using assms by (auto simp: bit_simps bit_consts)
  then show "(ucast (ucast (((v :: u64) AND 127) OR 128) :: byte) :: 'a word) AND 128 \<noteq> 0"
    by (metis bit_0_eq bot_apply bot_bool_def)
qed

lemma less_128_bits: "(v :: u64) < 128 \<Longrightarrow> 7 \<le> i \<Longrightarrow> \<not> bit v i"
  using less_pow_bitD [of v 7 i] by (simp add: word_less_nat_alt)

lemma last_byte:
  assumes "8 \<le> LENGTH('a::len)" and v: "(v :: u64) < 128"
  shows "(ucast (ucast v :: byte) :: 'a word) = ucast v"
    and "(ucast v :: 'a word) AND 128 = 0"
proof -
  have *: "bit v i \<Longrightarrow> i < 7" for i using less_128_bits [OF v] by (meson not_le)
  show "(ucast (ucast v :: byte) :: 'a word) = ucast v"
    using assms by (intro bit_word_eqI) (auto simp: bit_simps dest: *)
  show "(ucast v :: 'a word) AND 128 = 0"
    by (rule bit_word_eqI) (auto simp: bit_simps bit_consts dest: *)
qed

lemma varint_split:
  assumes "shift + 7 \<le> LENGTH('a::len)"
  shows "(r OR push_bit shift (ucast (v AND (127 :: u64)))) OR
      push_bit (shift + 7) (ucast (drop_bit 7 v)) =
    (r OR push_bit shift (ucast v) :: 'a word)"
proof (rule bit_word_eqI)
  fix n assume "n < LENGTH('a)"
  have "bit (ucast (drop_bit 7 v) :: 'a word) (n - (shift + 7)) \<longleftrightarrow> bit v (n - shift)"
    if "shift + 7 \<le> n"
  proof -
    have "7 + (n - (shift + 7)) = n - shift" using that by linarith
    then show ?thesis using \<open>n < LENGTH('a)\<close> by (auto simp: bit_simps dest: bit_imp_le_length)
  qed
  moreover have "n - shift < 7" if "\<not> shift + 7 \<le> n" using that by linarith
  ultimately show "bit ((r OR push_bit shift (ucast (v AND 127))) OR
      push_bit (shift + 7) (ucast (drop_bit 7 v))) n \<longleftrightarrow>
    bit (r OR push_bit shift (ucast v) :: 'a word) n"
    using \<open>n < LENGTH('a)\<close>
    by (auto simp: bit_push_bit_iff bit_or_iff bit_unsigned_iff bit_and_iff bit_consts
        dest: bit_imp_le_length)
qed

lemma unat_drop_bit_less: "unat (v :: 'a::len word) < 2 ^ (n + k) \<Longrightarrow> unat (drop_bit k v) < 2 ^ n"
  by (simp add: unat_drop_bit_eq power_add less_mult_imp_div_less flip: drop_bit_eq_div)
    (simp add: drop_bit_eq_div less_mult_imp_div_less)

lemma GetVarint32Ptr_Encode:
  assumes "unat v < 2 ^ (32 - shift)" "shift \<le> 28" "7 dvd shift"
  shows "GetVarint32Ptr shift r (EncodeVarint v @ rest) = Some (r OR push_bit shift (ucast v), rest)"
  using assms
proof (induction v arbitrary: shift r rule: EncodeVarint.induct)
  case (1 v)
  show ?case
  proof (cases "128 \<le> v")
    case True
    have "\<not> 32 - shift \<le> 7"
    proof
      assume "32 - shift \<le> 7"
      then have "(2::nat) ^ (32 - shift) \<le> 2 ^ 7" by (rule power_increasing) simp
      with "1.prems"(1) True show False by (simp add: word_le_nat_alt)
    qed
    then have s: "shift + 7 \<le> 28" using \<open>7 dvd shift\<close> \<open>shift \<le> 28\<close> by presburger
    have "unat (drop_bit 7 v) < 2 ^ (32 - (shift + 7))"
      using "1.prems"(1) s by (intro unat_drop_bit_less) simp
    with "1.IH" [OF True this s] "1.prems"(3) s show ?thesis
      by (simp add: EncodeVarint_step [OF True] cont_byte varint_split)
  next
    case False
    then show ?thesis using "1.prems" by (simp add: EncodeVarint_small last_byte)
  qed
qed

lemma GetVarint64Ptr_Encode:
  assumes "unat v < 2 ^ (64 - shift)" "shift \<le> 63" "7 dvd shift"
  shows "GetVarint64Ptr shift r (EncodeVarint v @ rest) = Some (r OR push_bit shift v, rest)"
  using assms
proof (induction v arbitrary: shift r rule: EncodeVarint.induct)
  case (1 v)
  show ?case
  proof (cases "128 \<le> v")
    case True
    have "\<not> 64 - shift \<le> 7"
    proof
      assume "64 - shift \<le> 7"
      then have "(2::nat) ^ (64 - shift) \<le> 2 ^ 7" by (rule power_increasing) simp
      with "1.prems"(1) True show False by (simp add: word_le_nat_alt)
    qed
    then have s: "shift + 7 \<le> 63" using \<open>7 dvd shift\<close> by presburger
    have "unat (drop_bit 7 v) < 2 ^ (64 - (shift + 7))"
      using "1.prems"(1) s by (intro unat_drop_bit_less) simp
    with "1.IH" [OF True this s] "1.prems"(3) s show ?thesis
      using varint_split [where 'a = 64, of shift r v]
      by (simp add: EncodeVarint_step [OF True] cont_byte)
  next
    case False
    then show ?thesis
      using "1.prems" last_byte [where 'a = 64, of v] by (simp add: EncodeVarint_small)
  qed
qed

lemma GetVarint32_Put [roundtrip_simps, simp]:
  "GetVarint32 (EncodeVarint (ucast (v :: u32)) @ rest) = Some (v, rest)"
  using unat_less_pow [of v] by (simp add: GetVarint32_def GetVarint32Ptr_Encode)

lemma GetVarint64_Put [roundtrip_simps, simp]:
  "GetVarint64 (EncodeVarint v @ rest) = Some (v, rest)"
  using unat_less_pow [of v] by (simp add: GetVarint64_def GetVarint64Ptr_Encode)

text \<open>The number of bytes: the code's buffers have 5 and 10.\<close>

lemma length_EncodeVarint:
  "unat v < 2 ^ (7 * k) \<Longrightarrow> 0 < k \<Longrightarrow> length (EncodeVarint v) \<le> k"
proof (induction v arbitrary: k rule: EncodeVarint.induct)
  case (1 v)
  show ?case
  proof (cases "128 \<le> v")
    case True
    have "k \<noteq> 1" using "1.prems" True by (auto simp: word_le_nat_alt)
    then obtain k' where k: "k = Suc k'" "0 < k'" using "1.prems"(2) by (cases k) auto
    have "unat (drop_bit 7 v) < 2 ^ (7 * k')"
      using "1.prems"(1) k by (intro unat_drop_bit_less) (simp add: add.commute)
    from "1.IH" [OF True this k(2)] show ?thesis by (simp add: EncodeVarint_step [OF True] k)
  next
    case False
    then show ?thesis using "1.prems" by (simp add: EncodeVarint_small)
  qed
qed

lemma length_EncodeVarint32 [size_simps]: "length (EncodeVarint (ucast (v :: u32))) \<le> 5"
  using unat_less_pow [of v] by (intro length_EncodeVarint) auto

lemma length_EncodeVarint64 [size_simps]: "length (EncodeVarint v) \<le> 10"
  using unat_less_pow [of v] by (intro length_EncodeVarint) auto

text \<open>
  The decoders consume at least one byte and no more than the buffers of the encoder
  hold, and they refuse a run of continuation bytes: neither a truncated encoding nor
  an over-long one is accepted.
\<close>

lemma GetVarint32Ptr_consumes:
  "GetVarint32Ptr shift r p = Some (v, rest) \<Longrightarrow> 7 dvd shift \<Longrightarrow>
   \<exists>used. p = used @ rest \<and> used \<noteq> [] \<and> 7 * length used + shift \<le> 35"
proof (induction shift r p rule: GetVarint32Ptr.induct)
  case (2 shift r b p)
  show ?case
  proof (cases "(ucast b :: u32) AND 128 \<noteq> 0")
    case True
    with 2 obtain used where "p = used @ rest" "7 * length used + (shift + 7) \<le> 35"
      by (auto simp: Let_def split: if_splits)
    then show ?thesis by (intro exI [of _ "b # used"]) auto
  next
    case False
    with 2 have "p = rest" "shift \<le> 28" by (auto simp: Let_def split: if_splits)
    then show ?thesis by (intro exI [of _ "[b]"]) auto
  qed
qed simp

lemma GetVarint64Ptr_consumes:
  "GetVarint64Ptr shift r p = Some (v, rest) \<Longrightarrow> 7 dvd shift \<Longrightarrow>
   \<exists>used. p = used @ rest \<and> used \<noteq> [] \<and> 7 * length used + shift \<le> 70"
proof (induction shift r p rule: GetVarint64Ptr.induct)
  case (2 shift r b p)
  show ?case
  proof (cases "(ucast b :: u64) AND 128 \<noteq> 0")
    case True
    with 2 obtain used where "p = used @ rest" "7 * length used + (shift + 7) \<le> 70"
      by (auto simp: Let_def split: if_splits)
    then show ?thesis by (intro exI [of _ "b # used"]) auto
  next
    case False
    with 2 have "p = rest" "shift \<le> 63" by (auto simp: Let_def split: if_splits)
    then show ?thesis by (intro exI [of _ "[b]"]) auto
  qed
qed simp

lemma GetVarint32_consumes:
  assumes "GetVarint32 input = Some (v, rest)"
  obtains used where "input = used @ rest" "used \<noteq> []" "length used \<le> 5"
  using GetVarint32Ptr_consumes [of 0 0 input v rest] assms by (auto simp: GetVarint32_def)

lemma GetVarint64_consumes:
  assumes "GetVarint64 input = Some (v, rest)"
  obtains used where "input = used @ rest" "used \<noteq> []" "length used \<le> 10"
  using GetVarint64Ptr_consumes [of 0 0 input v rest] assms by (auto simp: GetVarint64_def)

definition continues :: "byte \<Rightarrow> bool" where
  "continues b \<longleftrightarrow> bit b 7"

lemma continues_and_128:
  assumes "8 \<le> LENGTH('a::len)"
  shows "(ucast b :: 'a word) AND 128 \<noteq> 0 \<longleftrightarrow> continues b"
proof
  assume "continues b"
  then have "bit ((ucast b :: 'a word) AND 128) 7"
    using assms by (auto simp: continues_def bit_simps bit_consts)
  then show "(ucast b :: 'a word) AND 128 \<noteq> 0" by (metis bit_0_eq bot_apply bot_bool_def)
next
  assume "(ucast b :: 'a word) AND 128 \<noteq> 0"
  moreover have "(ucast b :: 'a word) AND 128 = 0" if "\<not> bit b 7"
    using that by (intro bit_word_eqI) (auto simp: bit_simps bit_consts)
  ultimately show "continues b" by (auto simp: continues_def)
qed

lemma GetVarintPtr_continues:
  "list_all continues p \<Longrightarrow> GetVarint32Ptr shift r p = None"
  "list_all continues p \<Longrightarrow> GetVarint64Ptr shift s p = None"
  by (induction p arbitrary: shift r s) (auto simp: Let_def continues_and_128)

lemma EncodeVarint_continues: "n < length (EncodeVarint v) \<Longrightarrow> list_all continues (take n (EncodeVarint v))"
proof (induction v arbitrary: n rule: EncodeVarint.induct)
  case (1 v)
  show ?case
  proof (cases "128 \<le> v")
    case True
    have "continues (ucast ((v AND 127) OR 128))"
      by (auto simp: continues_def bit_simps bit_consts)
    with 1 True show ?thesis by (cases n) (simp_all add: EncodeVarint_step)
  qed (use 1 in \<open>simp add: EncodeVarint_small\<close>)
qed

interpretation varint32: strict_codec "\<lambda>v. EncodeVarint (ucast (v :: u32))" GetVarint32 "\<lambda>_. True"
  by unfold_locales
    (simp_all add: GetVarint32_def [of "take _ _"] GetVarintPtr_continues EncodeVarint_continues)

interpretation varint64: strict_codec EncodeVarint GetVarint64 "\<lambda>_. True"
  by unfold_locales
    (simp_all add: GetVarint64_def [of "take _ _"] GetVarintPtr_continues EncodeVarint_continues)

section \<open>Length-prefixed strings\<close>

text \<open>The result and the rest as one option, for the codec interface.\<close>

definition slice_dec :: "bytes \<Rightarrow> (bytes \<times> bytes) option" where
  "slice_dec input = (case GetLengthPrefixedSlice input of
     (Some r, rest) \<Rightarrow> Some (r, rest) | (None, _) \<Rightarrow> None)"

lemma PutLengthPrefixedSlice_append:
  "PutLengthPrefixedSlice dst s = dst @ PutLengthPrefixedSlice [] s"
  by (simp add: PutLengthPrefixedSlice_def PutVarint32_def)

lemma GetLengthPrefixedSlice_Put [roundtrip_simps]:
  "length s < 2 ^ 32 \<Longrightarrow>
   GetLengthPrefixedSlice (PutLengthPrefixedSlice [] s @ rest) = (Some s, rest)"
  by (simp add: GetLengthPrefixedSlice_def PutLengthPrefixedSlice_def PutVarint32_def
      unat_word_of_nat_less)

lemma GetLengthPrefixedSlice_truncated:
  assumes "length s < 2 ^ 32" "n < length (PutLengthPrefixedSlice [] s)"
  shows "fst (GetLengthPrefixedSlice (take n (PutLengthPrefixedSlice [] s))) = None"
proof -
  let ?v = "word_of_nat (length s) :: u32" and ?l = "length (EncodeVarint (ucast (word_of_nat (length s) :: u32)))"
  show ?thesis
  proof (cases "n < ?l")
    case True
    then show ?thesis
      using varint32.dec_truncated_append [where x = ?v and n = n and rest = s]
      by (simp add: GetLengthPrefixedSlice_def PutLengthPrefixedSlice_def PutVarint32_def)
  next
    case False
    then show ?thesis
      using assms by (simp add: GetLengthPrefixedSlice_def PutLengthPrefixedSlice_def PutVarint32_def
          unat_word_of_nat_less)
  qed
qed

interpretation lp_slice: strict_codec "PutLengthPrefixedSlice []" slice_dec "\<lambda>s. length s < 2 ^ 32"
proof unfold_locales
  fix s :: bytes and n
  assume "length s < 2 ^ 32" "n < length (PutLengthPrefixedSlice [] s)"
  then show "slice_dec (take n (PutLengthPrefixedSlice [] s)) = None"
    using GetLengthPrefixedSlice_truncated [of s n]
    by (auto simp: slice_dec_def split: prod.splits option.splits)
qed (simp add: slice_dec_def GetLengthPrefixedSlice_Put)

lemma GetLengthPrefixedSlice_consumes:
  assumes "GetLengthPrefixedSlice input = (Some r, rest)"
  shows "\<exists>used. input = used @ r @ rest \<and> used \<noteq> []"
proof -
  obtain len inp where v: "GetVarint32 input = Some (len, inp)"
    and r: "r = take (unat len) inp" "rest = drop (unat len) inp"
    using assms by (auto simp: GetLengthPrefixedSlice_def split: option.splits if_splits)
  from v show ?thesis by (rule GetVarint32_consumes) (auto simp: r)
qed

section \<open>Properties\<close>

text \<open>
  C31. Varint coding is a strict prefix code that fits the buffers of the encoder: for
  every 32-bit and 64-bit value the decoder returns it with exactly the bytes that
  follow, and a cut anywhere inside the encoding is refused.
\<close>

theorem varint_roundtrip_strict:
  "GetVarint32 (PutVarint32 [] v @ rest) = Some (v, rest) \<and>
   GetVarint64 (PutVarint64 [] w @ rest) = Some (w, rest) \<and>
   length (PutVarint32 [] v) \<le> 5 \<and> length (PutVarint64 [] w) \<le> 10 \<and>
   (n < length (PutVarint32 [] v) \<longrightarrow> GetVarint32 (take n (PutVarint32 [] v)) = None) \<and>
   (n < length (PutVarint64 [] w) \<longrightarrow> GetVarint64 (take n (PutVarint64 [] w)) = None)"
  using varint32.dec_truncated [where x = v and n = n] varint64.dec_truncated [where x = w and n = n]
    length_EncodeVarint32 [of v] length_EncodeVarint64 [of w]
  by (simp add: PutVarint32_def PutVarint64_def)

theorem varint_roundtrip_strict_witness:
  "GetVarint32 (take 0 (PutVarint32 [] 300)) = None"
  using varint_roundtrip_strict [of 300 "[]" 0 0] by (simp add: PutVarint32_def)

text \<open>
  Length-prefixed strings come back with what follows them when their length fits
  32 bits; a truncated one is refused, and on any input a successful read has
  consumed at least one byte and returned bytes of the input.
\<close>

theorem length_prefixed_slice_roundtrip:
  assumes "length s < 2 ^ 32"
  shows "GetLengthPrefixedSlice (PutLengthPrefixedSlice [] s @ rest) = (Some s, rest) \<and>
    (n < length (PutLengthPrefixedSlice [] s) \<longrightarrow>
      fst (GetLengthPrefixedSlice (take n (PutLengthPrefixedSlice [] s))) = None) \<and>
    (GetLengthPrefixedSlice input = (Some r, rest') \<longrightarrow> (\<exists>used. input = used @ r @ rest' \<and> used \<noteq> []))"
  using GetLengthPrefixedSlice_Put [OF assms] GetLengthPrefixedSlice_truncated [OF assms]
    GetLengthPrefixedSlice_consumes by blast

theorem length_prefixed_slice_roundtrip_witness:
  "GetLengthPrefixedSlice (PutLengthPrefixedSlice [] (str ''ab'') @ [7]) = (Some (str ''ab''), [7])"
proof -
  have "length (str ''ab'') < 2 ^ 32" by (simp add: str_def)
  from length_prefixed_slice_roundtrip [OF this] show ?thesis by blast
qed

text \<open>
  The fixed-width integers are stored in exactly 4 and 8 bytes, little end first, and
  both directions of the coding are inverse.
\<close>

theorem fixed_roundtrip:
  "length (EncodeFixed32 v) = 4 \<and> length (EncodeFixed64 w) = 8 \<and>
   DecodeFixed32 (EncodeFixed32 v @ rest) = v \<and> DecodeFixed64 (EncodeFixed64 w @ rest) = w \<and>
   (length a = 4 \<longrightarrow> EncodeFixed32 (DecodeFixed32 a) = a) \<and>
   (length b = 8 \<longrightarrow> EncodeFixed64 (DecodeFixed64 b) = b)"
  by (simp add: EncodeFixed32_Decode EncodeFixed64_Decode)

theorem fixed_roundtrip_witness:
  "EncodeFixed32 (DecodeFixed32 [1, 2, 3, 4]) = [1, 2, 3, 4]"
  using fixed_roundtrip [of 0 0 "[]" "[1, 2, 3, 4]" "[]"] by simp

end
