(* ===== verification/DbFormat.thy ===== *)
theory DbFormat
  imports Coding
begin

text \<open>
  \<open>src/db/dbformat.h\<close>: internal keys.  An internal key is a user key followed by the
  8-byte tag \<open>sequence << 8 | type\<close>; the comparator orders by user key ascending and
  by tag descending, so the newest version of a key comes first.  The type \<open>ikey\<close>
  is the abstract internal key, with that order as its linear order; the lemmas show
  that the byte-level comparator refines it.
\<close>

section \<open>Internal keys as the code has them\<close>

text \<open>\<open>enum ValueType : uint8_t\<close> can hold any byte; the code tests for the two it names.\<close>

type_synonym ValueType = byte

definition kTypeDeletion :: ValueType where "kTypeDeletion = 0"

definition kTypeValue :: ValueType where "kTypeValue = 1"

type_synonym SequenceNumber = u64

definition kMaxSequenceNumber :: u64 where "kMaxSequenceNumber = push_bit 56 1 - 1"

text \<open>\<open>enum class LookupState\<close>: the three outcomes of a lookup in one layer.  The code fills
  an output string on \<open>kValue\<close>; the model carries it in the constructor.\<close>

datatype LookupState = kNotFoundState | kValue bytes | kDeleted

record ParsedInternalKey =
  user_key :: bytes
  sequence :: SequenceNumber
  vtype :: ValueType

definition PackSequenceAndType :: "SequenceNumber \<Rightarrow> ValueType \<Rightarrow> u64" where
  "PackSequenceAndType seq t = push_bit 8 seq OR ucast t"

text \<open>Both extractors need at least 8 bytes; callers check it or know it.\<close>

definition ExtractUserKey :: "bytes \<Rightarrow> bytes" where
  "ExtractUserKey internal_key = take (length internal_key - 8) internal_key"

definition ExtractTag :: "bytes \<Rightarrow> u64" where
  "ExtractTag internal_key = DecodeFixed64 (drop (length internal_key - 8) internal_key)"

definition AppendInternalKey :: "bytes \<Rightarrow> bytes \<Rightarrow> SequenceNumber \<Rightarrow> ValueType \<Rightarrow> bytes" where
  "AppendInternalKey dst uk seq t = dst @ uk @ EncodeFixed64 (PackSequenceAndType seq t)"

definition ParseInternalKey :: "bytes \<Rightarrow> ParsedInternalKey option" where
  "ParseInternalKey internal =
     (if length internal < 8 then None
      else let tag = ExtractTag internal in
        Some \<lparr>user_key = ExtractUserKey internal, sequence = drop_bit 8 tag,
              vtype = ucast (tag AND 0xff)\<rparr>)"

definition InternalKeyComparator :: "bytes \<Rightarrow> bytes \<Rightarrow> bool" where
  "InternalKeyComparator a b =
     (let r = Slice_compare (ExtractUserKey a) (ExtractUserKey b) in
      if r \<noteq> 0 then r < 0 else ExtractTag a > ExtractTag b)"

section \<open>Abstract internal keys and their order\<close>

datatype ikey = IKey (ik_user: bytes) (ik_tag: u64)

instantiation ikey :: linorder
begin

definition less_ikey :: "ikey \<Rightarrow> ikey \<Rightarrow> bool" where
  "less_ikey a b \<longleftrightarrow> ik_user a < ik_user b \<or> ik_user a = ik_user b \<and> ik_tag b < ik_tag a"

definition less_eq_ikey :: "ikey \<Rightarrow> ikey \<Rightarrow> bool" where
  "less_eq_ikey a b \<longleftrightarrow> ik_user a < ik_user b \<or> ik_user a = ik_user b \<and> ik_tag b \<le> ik_tag a"

instance
proof
  fix x y z :: ikey
  show "x < y \<longleftrightarrow> x \<le> y \<and> \<not> y \<le> x" by (auto simp: less_ikey_def less_eq_ikey_def)
  show "x \<le> x" by (simp add: less_eq_ikey_def)
  show "x \<le> y \<Longrightarrow> y \<le> z \<Longrightarrow> x \<le> z" by (auto simp: less_eq_ikey_def)
  show "x \<le> y \<Longrightarrow> y \<le> x \<Longrightarrow> x = y" by (cases x; cases y) (auto simp: less_eq_ikey_def)
  show "x \<le> y \<or> y \<le> x" by (auto simp: less_eq_ikey_def)
qed

end

definition view_ikey :: "bytes \<Rightarrow> ikey" where
  "view_ikey b = IKey (ExtractUserKey b) (ExtractTag b)"

lemma InternalKeyComparator_view: "InternalKeyComparator a b \<longleftrightarrow> view_ikey a < view_ikey b"
  by (auto simp: InternalKeyComparator_def Let_def less_ikey_def view_ikey_def compare_order)

lemma view_ikey_append [simp]: "view_ikey (uk @ EncodeFixed64 tag) = IKey uk tag"
  by (simp add: view_ikey_def ExtractUserKey_def ExtractTag_def)

lemma ExtractUserKey_append [simp]: "ExtractUserKey (uk @ EncodeFixed64 tag) = uk"
  and ExtractTag_append [simp]: "ExtractTag (uk @ EncodeFixed64 tag) = tag"
  by (simp_all add: ExtractUserKey_def ExtractTag_def)

lemma ikey_bytes:
  assumes "8 \<le> length b"
  shows "b = ExtractUserKey b @ EncodeFixed64 (ExtractTag b)"
  using assms by (simp add: ExtractUserKey_def ExtractTag_def EncodeFixed64_Decode)

lemma view_ikey_inj: "8 \<le> length a \<Longrightarrow> 8 \<le> length b \<Longrightarrow> view_ikey a = view_ikey b \<Longrightarrow> a = b"
  using ikey_bytes [of a] ikey_bytes [of b] by (simp add: view_ikey_def)

section \<open>Tags\<close>

lemma unat_split_8: "unat (x :: u64) = 256 * unat (drop_bit 8 x) + unat (take_bit 8 x)"
proof -
  have "unat (drop_bit 8 x) = unat x div 256" by (simp add: drop_bit_eq_div unat_div)
  moreover have "unat (take_bit 8 x) = unat x mod 256"
    by (simp add: take_bit_eq_mod unat_mod)
  ultimately show ?thesis by simp
qed

lemma ucast_byte_u64_byte [simp]: "ucast (ucast (t :: byte) :: u64) = t"
  by (rule bit_word_eqI) (simp add: bit_simps)

lemma take_bit_Pack [simp]: "take_bit 8 (PackSequenceAndType seq t) = ucast t"
  by (rule bit_word_eqI) (auto simp: PackSequenceAndType_def bit_simps dest: bit_imp_le_length)

lemma and_255_Pack [simp]: "PackSequenceAndType seq t AND 255 = ucast t"
  by (rule bit_word_eqI)
    (auto simp: PackSequenceAndType_def bit_simps bit_consts dest: bit_imp_le_length)

lemma drop_bit_Pack:
  assumes "seq \<le> kMaxSequenceNumber"
  shows "drop_bit 8 (PackSequenceAndType seq t) = seq"
proof -
  have "unat seq \<le> unat kMaxSequenceNumber" using assms by (simp add: word_le_nat_alt)
  also have "\<dots> < 2 ^ 56" by (simp add: kMaxSequenceNumber_def)
  finally have s: "bit seq i \<Longrightarrow> i < 56" for i using less_pow_bitD by (meson not_le)
  show ?thesis
    by (rule bit_word_eqI)
      (auto simp: PackSequenceAndType_def bit_simps dest: s bit_imp_le_length)
qed

lemma unat_Pack:
  "seq \<le> kMaxSequenceNumber \<Longrightarrow> unat (PackSequenceAndType seq t) = 256 * unat seq + unat t"
  using unat_split_8 [of "PackSequenceAndType seq t"]
  by (simp add: drop_bit_Pack unsigned_ucast_eq take_bit_nat_eq_self_iff
      less_trans [OF unat_less_pow])

lemma Pack_less:
  assumes "s \<le> kMaxSequenceNumber" "s' \<le> kMaxSequenceNumber" "s < s'"
  shows "PackSequenceAndType s t < PackSequenceAndType s' t'"
proof -
  have "unat t < 256" using unat_less_pow [of t] by simp
  moreover have "unat s < unat s'" using assms(3) by (simp add: word_less_nat_alt)
  ultimately show ?thesis using assms by (simp add: word_less_nat_alt unat_Pack)
qed

lemma Pack_inj:
  "s \<le> kMaxSequenceNumber \<Longrightarrow> s' \<le> kMaxSequenceNumber \<Longrightarrow>
   PackSequenceAndType s t = PackSequenceAndType s' t' \<longleftrightarrow> s = s' \<and> t = t'"
proof
  assume s: "s \<le> kMaxSequenceNumber" "s' \<le> kMaxSequenceNumber"
    and eq: "PackSequenceAndType s t = PackSequenceAndType s' t'"
  from eq s have "s = s'" by (metis drop_bit_Pack)
  moreover have "unat t = unat t'" using s eq \<open>s = s'\<close> unat_Pack by (metis add_left_cancel)
  ultimately show "s = s' \<and> t = t'" using unsigned_word_eqI [of t t', where 'a = nat] by simp
qed simp

text \<open>The lookup key of \<open>MemTable::Get\<close> has the largest tag of a live entry.\<close>

lemma lookup_tag_max:
  assumes "s \<le> kMaxSequenceNumber" "t \<le> kTypeValue"
  shows "PackSequenceAndType s t \<le> PackSequenceAndType kMaxSequenceNumber kTypeValue"
proof -
  have "unat s \<le> unat kMaxSequenceNumber" "unat t \<le> unat kTypeValue"
    using assms by (simp_all add: word_le_nat_alt)
  then show ?thesis using assms(1) by (simp add: word_le_nat_alt unat_Pack)
qed

lemma type_AND_255 [simp]: "ucast (PackSequenceAndType seq t AND 0xff) = t"
  by (simp only: and_255_Pack) (rule bit_word_eqI, simp add: bit_simps)

text \<open>
  Packing and parsing an internal key are inverse for every sequence number the
  format can hold.
\<close>

theorem internal_key_roundtrip:
  assumes "seq \<le> kMaxSequenceNumber"
  shows "ParseInternalKey (AppendInternalKey [] uk seq t) =
    Some \<lparr>user_key = uk, sequence = seq, vtype = t\<rparr>"
  using assms by (simp add: ParseInternalKey_def AppendInternalKey_def Let_def drop_bit_Pack)

theorem internal_key_roundtrip_witness:
  "ParseInternalKey (AppendInternalKey [] (str ''k'') 7 kTypeValue) =
    Some \<lparr>user_key = str ''k'', sequence = 7, vtype = kTypeValue\<rparr>"
proof -
  have "(7 :: u64) \<le> kMaxSequenceNumber" by (simp add: kMaxSequenceNumber_def)
  then show ?thesis by (rule internal_key_roundtrip)
qed

text \<open>
  The comparator of internal keys is the linear order of the abstract keys: user
  keys ascending and, for one user key, newer versions before older ones, whatever
  their types; so a deletion hides the values written before it.
\<close>

theorem internal_key_order:
  assumes "s \<le> kMaxSequenceNumber" "s' \<le> kMaxSequenceNumber"
  shows "(InternalKeyComparator a b \<longleftrightarrow> view_ikey a < view_ikey b) \<and>
    (s' < s \<longrightarrow> InternalKeyComparator (AppendInternalKey [] uk s t) (AppendInternalKey [] uk s' t')) \<and>
    (uk < uk' \<longrightarrow> InternalKeyComparator (AppendInternalKey [] uk s t) (AppendInternalKey [] uk' s' t'))"
  using Pack_less [OF assms(2,1)]
  by (simp add: InternalKeyComparator_view AppendInternalKey_def less_ikey_def)

theorem internal_key_order_witness:
  "InternalKeyComparator (AppendInternalKey [] (str ''k'') 9 kTypeDeletion)
     (AppendInternalKey [] (str ''k'') 4 kTypeValue)"
proof -
  have "(9 :: u64) \<le> kMaxSequenceNumber" "(4 :: u64) \<le> kMaxSequenceNumber" "(4 :: u64) < 9"
    by (simp_all add: kMaxSequenceNumber_def)
  with internal_key_order [OF this(1,2)] show ?thesis by blast
qed

end
