(* ===== verification/Status.thy ===== *)
theory Status
  imports Slice
begin

text \<open>
  \<open>include/mini-leveldb/status.h\<close> and \<open>src/util/status.cc\<close>: the result of every
  operation that can fail, a code and a message.  The message is a byte string,
  because \<open>NotFound(key)\<close> puts a user key into it.
\<close>

datatype Code = kOk | kNotFound | kCorruption | kNotSupported | kInvalidArgument | kIOError

record Status =
  st_code :: Code
  st_msg :: bytes

definition Status_OK :: Status where
  "Status_OK = \<lparr>st_code = kOk, st_msg = []\<rparr>"

text \<open>The private constructor, which asserts \<open>code != kOk\<close>.\<close>

definition mk_Status :: "Code \<Rightarrow> bytes \<Rightarrow> bytes \<Rightarrow> Status" where
  "mk_Status c m m2 = \<lparr>st_code = c, st_msg = (if m2 \<noteq> [] then m @ str '': '' @ m2 else m)\<rparr>"

definition NotFound :: "bytes \<Rightarrow> Status" where
  "NotFound m = mk_Status kNotFound m []"

definition Corruption :: "bytes \<Rightarrow> Status" where
  "Corruption m = mk_Status kCorruption m []"

definition NotSupported :: "bytes \<Rightarrow> Status" where
  "NotSupported m = mk_Status kNotSupported m []"

definition InvalidArgument :: "bytes \<Rightarrow> Status" where
  "InvalidArgument m = mk_Status kInvalidArgument m []"

definition IOError :: "bytes \<Rightarrow> Status" where
  "IOError m = mk_Status kIOError m []"

definition ok :: "Status \<Rightarrow> bool" where
  "ok s \<longleftrightarrow> st_code s = kOk"

definition IsNotFound :: "Status \<Rightarrow> bool" where
  "IsNotFound s \<longleftrightarrow> st_code s = kNotFound"

definition IsCorruption :: "Status \<Rightarrow> bool" where
  "IsCorruption s \<longleftrightarrow> st_code s = kCorruption"

definition IsIOError :: "Status \<Rightarrow> bool" where
  "IsIOError s \<longleftrightarrow> st_code s = kIOError"

definition IsNotSupportedError :: "Status \<Rightarrow> bool" where
  "IsNotSupportedError s \<longleftrightarrow> st_code s = kNotSupported"

definition IsInvalidArgument :: "Status \<Rightarrow> bool" where
  "IsInvalidArgument s \<longleftrightarrow> st_code s = kInvalidArgument"

text \<open>\<open>ToString\<close>; the \<open>default\<close> branch of the code is unreachable, as the enum has no
  other value.\<close>

definition Status_ToString :: "Status \<Rightarrow> bytes" where
  "Status_ToString s =
     (if ok s then str ''OK''
      else (case st_code s of
              kOk \<Rightarrow> str ''OK''
            | kNotFound \<Rightarrow> str ''NotFound: ''
            | kCorruption \<Rightarrow> str ''Corruption: ''
            | kNotSupported \<Rightarrow> str ''Not implemented: ''
            | kInvalidArgument \<Rightarrow> str ''Invalid argument: ''
            | kIOError \<Rightarrow> str ''IO error: '') @ st_msg s)"

lemma ok_simps [simp]:
  "ok Status_OK" "\<not> ok (NotFound m)" "\<not> ok (Corruption m)" "\<not> ok (NotSupported m)"
  "\<not> ok (InvalidArgument m)" "\<not> ok (IOError m)"
  by (simp_all add: ok_def Status_OK_def NotFound_def Corruption_def NotSupported_def
      InvalidArgument_def IOError_def mk_Status_def)

lemma is_kind_simps [simp]:
  "IsNotFound (NotFound m)" "IsCorruption (Corruption m)" "IsIOError (IOError m)"
  "\<not> IsNotFound Status_OK" "\<not> IsCorruption Status_OK" "\<not> IsIOError Status_OK"
  "\<not> IsCorruption (NotFound m)" "\<not> IsNotFound (Corruption m)" "\<not> IsIOError (Corruption m)"
  by (simp_all add: IsNotFound_def IsCorruption_def IsIOError_def NotFound_def Corruption_def
      IOError_def mk_Status_def Status_OK_def)

lemma status_distinct [simp]:
  "NotFound m \<noteq> Status_OK" "Corruption m \<noteq> Status_OK" "IOError m \<noteq> Status_OK"
  "InvalidArgument m \<noteq> Status_OK"
  by (metis ok_simps)+

end
