(* ===== verification/WriteBatch.thy ===== *)
theory WriteBatch
  imports DbFormat Status
begin

text \<open>
  \<open>include/mini-leveldb/write_batch.h\<close> and \<open>src/db/write_batch.cc\<close>: a batch of
  updates encoded into one string, 8 bytes of sequence number, 4 bytes of count, then
  the records.  The state of a \<open>WriteBatch\<close> is that string, \<open>rep_\<close>.  The virtual
  class \<open>Handler\<close> is a pair of state transformers that \<open>Iterate\<close> is given.  The
  lemmas relate the string to the list of operations it encodes and show that
  \<open>Iterate\<close> replays exactly these, that it never feeds a handler more records than
  the header announces, and that it reports every truncation.
\<close>

section \<open>The operations of the class\<close>

definition kHeader :: nat where "kHeader = 12"

definition WriteBatch_Clear :: bytes where
  "WriteBatch_Clear = replicate kHeader 0"

text \<open>\<open>Count\<close> returns the 32-bit header field as a signed \<open>int\<close>.\<close>

definition WriteBatch_Count :: "bytes \<Rightarrow> int" where
  "WriteBatch_Count rep = sint (DecodeFixed32 (drop 8 rep))"

definition WriteBatch_sequence :: "bytes \<Rightarrow> u64" where
  "WriteBatch_sequence rep = DecodeFixed64 rep"

definition WriteBatch_set_sequence :: "u64 \<Rightarrow> bytes \<Rightarrow> bytes" where
  "WriteBatch_set_sequence seq rep = overwrite 0 (EncodeFixed64 seq) rep"

definition WriteBatch_Put :: "bytes \<Rightarrow> bytes \<Rightarrow> bytes \<Rightarrow> bytes" where
  "WriteBatch_Put key value rep =
     (let rep = rep @ [kTypeValue];
          rep = PutLengthPrefixedSlice rep key;
          rep = PutLengthPrefixedSlice rep value
      in overwrite 8 (EncodeFixed32 (word_of_int (WriteBatch_Count rep + 1))) rep)"

definition WriteBatch_Delete :: "bytes \<Rightarrow> bytes \<Rightarrow> bytes" where
  "WriteBatch_Delete key rep =
     (let rep = rep @ [kTypeDeletion];
          rep = PutLengthPrefixedSlice rep key
      in overwrite 8 (EncodeFixed32 (word_of_int (WriteBatch_Count rep + 1))) rep)"

definition WriteBatch_SetContents :: "bytes \<Rightarrow> bytes \<Rightarrow> Status \<times> bytes" where
  "WriteBatch_SetContents contents rep =
     (if length contents < kHeader
      then (Corruption (str ''malformed WriteBatch (too small)''), rep)
      else (Status_OK, contents))"

text \<open>The loop of \<open>Iterate\<close>, over a handler given by its two methods.\<close>

function Iterate_loop ::
  "(u64 \<Rightarrow> bytes \<Rightarrow> bytes \<Rightarrow> 's \<Rightarrow> 's) \<Rightarrow> (u64 \<Rightarrow> bytes \<Rightarrow> 's \<Rightarrow> 's) \<Rightarrow>
   bytes \<Rightarrow> u64 \<Rightarrow> u64 \<Rightarrow> 's \<Rightarrow> Status \<times> 's" where
  "Iterate_loop hput hdel input seq remaining s =
     (case input of
        [] \<Rightarrow>
          (if remaining \<noteq> 0 then Corruption (str ''WriteBatch has wrong count'') else Status_OK, s)
      | tag # input1 \<Rightarrow>
          if remaining = 0 then (Corruption (str ''WriteBatch has too many records''), s)
          else if tag = kTypeValue then
            (case GetLengthPrefixedSlice input1 of
               (None, _) \<Rightarrow> (Corruption (str ''bad WriteBatch Put''), s)
             | (Some key, input2) \<Rightarrow>
                 (case GetLengthPrefixedSlice input2 of
                    (None, _) \<Rightarrow> (Corruption (str ''bad WriteBatch Put''), s)
                  | (Some value, input3) \<Rightarrow>
                      Iterate_loop hput hdel input3 (seq + 1) (remaining - 1) (hput seq key value s)))
          else if tag = kTypeDeletion then
            (case GetLengthPrefixedSlice input1 of
               (None, _) \<Rightarrow> (Corruption (str ''bad WriteBatch Delete''), s)
             | (Some key, input2) \<Rightarrow>
                 Iterate_loop hput hdel input2 (seq + 1) (remaining - 1) (hdel seq key s))
          else (Corruption (str ''unknown WriteBatch tag''), s))"
  by pat_completeness auto
termination
  by (relation "measure (\<lambda>(_, _, input, _). length input)")
    (auto dest!: GetLengthPrefixedSlice_consumes [OF sym])

declare Iterate_loop.simps [simp del]

definition WriteBatch_Iterate ::
  "(u64 \<Rightarrow> bytes \<Rightarrow> bytes \<Rightarrow> 's \<Rightarrow> 's) \<Rightarrow> (u64 \<Rightarrow> bytes \<Rightarrow> 's \<Rightarrow> 's) \<Rightarrow>
   bytes \<Rightarrow> 's \<Rightarrow> Status \<times> 's" where
  "WriteBatch_Iterate hput hdel rep s =
     Iterate_loop hput hdel (drop kHeader rep) (WriteBatch_sequence rep)
       (word_of_int (WriteBatch_Count rep)) s"

section \<open>Batches as lists of operations\<close>

datatype op = OpPut bytes bytes | OpDelete bytes

fun enc_op :: "op \<Rightarrow> bytes" where
  "enc_op (OpPut k v) =
     [kTypeValue] @ PutLengthPrefixedSlice [] k @ PutLengthPrefixedSlice [] v"
| "enc_op (OpDelete k) = [kTypeDeletion] @ PutLengthPrefixedSlice [] k"

fun op_ok :: "op \<Rightarrow> bool" where
  "op_ok (OpPut k v) \<longleftrightarrow> length k < 2 ^ 32 \<and> length v < 2 ^ 32"
| "op_ok (OpDelete k) \<longleftrightarrow> length k < 2 ^ 32"

definition enc_batch :: "u64 \<Rightarrow> op list \<Rightarrow> bytes" where
  "enc_batch seq ops =
     EncodeFixed64 seq @ EncodeFixed32 (word_of_nat (length ops)) @ concat (map enc_op ops)"

definition batch_ok :: "op list \<Rightarrow> bool" where
  "batch_ok ops \<longleftrightarrow> list_all op_ok ops \<and> length ops < 2 ^ 31"

fun batch_add :: "op \<Rightarrow> bytes \<Rightarrow> bytes" where
  "batch_add (OpPut k v) rep = WriteBatch_Put k v rep"
| "batch_add (OpDelete k) rep = WriteBatch_Delete k rep"

text \<open>What a handler is asked to do for a list of operations.\<close>

fun handle_op ::
  "(u64 \<Rightarrow> bytes \<Rightarrow> bytes \<Rightarrow> 's \<Rightarrow> 's) \<Rightarrow> (u64 \<Rightarrow> bytes \<Rightarrow> 's \<Rightarrow> 's) \<Rightarrow> u64 \<Rightarrow> op \<Rightarrow> 's \<Rightarrow> 's" where
  "handle_op hput hdel seq (OpPut k v) s = hput seq k v s"
| "handle_op hput hdel seq (OpDelete k) s = hdel seq k s"

fun handle_ops ::
  "(u64 \<Rightarrow> bytes \<Rightarrow> bytes \<Rightarrow> 's \<Rightarrow> 's) \<Rightarrow> (u64 \<Rightarrow> bytes \<Rightarrow> 's \<Rightarrow> 's) \<Rightarrow> u64 \<Rightarrow> op list \<Rightarrow> 's \<Rightarrow> 's" where
  "handle_ops hput hdel seq [] s = s"
| "handle_ops hput hdel seq (x # xs) s =
     handle_ops hput hdel (seq + 1) xs (handle_op hput hdel seq x s)"

lemma enc_op_nonempty [simp]: "enc_op x \<noteq> []"
  by (cases x) simp_all

lemma length_enc_batch: "length (enc_batch seq ops) = 12 + length (concat (map enc_op ops))"
  by (simp add: enc_batch_def)

lemma kTypes_distinct [simp]: "kTypeValue \<noteq> kTypeDeletion" "kTypeDeletion \<noteq> kTypeValue"
  by (simp_all add: kTypeValue_def kTypeDeletion_def)

section \<open>Building a batch\<close>

lemma WriteBatch_Clear_enc: "WriteBatch_Clear = enc_batch 0 []"
  by (simp add: WriteBatch_Clear_def kHeader_def enc_batch_def EncodeFixed64_def EncodeFixed32_def
      upt_rec numeral_eq_Suc)

lemma sint_word_of_nat: "n < 2 ^ 31 \<Longrightarrow> sint (word_of_nat n :: u32) = int n"
  by (simp add: signed_of_nat signed_take_bit_int_eq_self)

lemma Count_enc_batch [simp]:
  "length ops < 2 ^ 31 \<Longrightarrow> WriteBatch_Count (enc_batch seq ops @ rest) = int (length ops)"
  by (simp add: WriteBatch_Count_def enc_batch_def sint_word_of_nat)

lemma Count_enc_batch_exact [simp]:
  "length ops < 2 ^ 31 \<Longrightarrow> WriteBatch_Count (enc_batch seq ops) = int (length ops)"
  using Count_enc_batch [of ops seq "[]"] by simp

lemma sequence_enc_batch [simp]: "WriteBatch_sequence (enc_batch seq ops) = seq"
  by (simp add: WriteBatch_sequence_def enc_batch_def)

lemma set_sequence_enc_batch [simp]:
  "WriteBatch_set_sequence seq' (enc_batch seq ops) = enc_batch seq' ops"
  by (simp add: WriteBatch_set_sequence_def enc_batch_def)

lemma batch_add_enc:
  assumes "length ops < 2 ^ 31"
  shows "batch_add x (enc_batch seq ops) = enc_batch seq (ops @ [x])"
proof -
  have c: "word_of_int (int (length ops) + 1) = (word_of_nat (Suc (length ops)) :: u32)" by simp
  have w: "overwrite 8 (EncodeFixed32 n) (enc_batch seq ops @ r) =
      EncodeFixed64 seq @ EncodeFixed32 n @ concat (map enc_op ops) @ r" for n r
    unfolding enc_batch_def append_assoc by (rule overwrite_append) simp_all
  show ?thesis
  proof (cases x)
    case (OpPut k v)
    have "WriteBatch_Put k v (enc_batch seq ops) =
        overwrite 8 (EncodeFixed32 (word_of_nat (Suc (length ops))))
          (enc_batch seq ops @ enc_op (OpPut k v))"
      using assms c
      by (simp add: WriteBatch_Put_def Let_def PutLengthPrefixedSlice_append [of "_ @ _"]
          del: of_nat_Suc)
    then show ?thesis
      by (simp only: OpPut batch_add.simps w) (simp add: enc_batch_def del: enc_op.simps)
  next
    case (OpDelete k)
    have "WriteBatch_Delete k (enc_batch seq ops) =
        overwrite 8 (EncodeFixed32 (word_of_nat (Suc (length ops))))
          (enc_batch seq ops @ enc_op (OpDelete k))"
      using assms c
      by (simp add: WriteBatch_Delete_def Let_def PutLengthPrefixedSlice_append [of "_ @ _"]
          del: of_nat_Suc)
    then show ?thesis
      by (simp only: OpDelete batch_add.simps w) (simp add: enc_batch_def del: enc_op.simps)
  qed
qed

lemma batch_ok_append [simp]: "batch_ok (ops @ [x]) \<longleftrightarrow> batch_ok ops \<and> op_ok x \<and> Suc (length ops) < 2 ^ 31"
  by (auto simp: batch_ok_def)

lemma batch_add_all:
  "length (ops @ xs) < 2 ^ 31 \<Longrightarrow>
   fold batch_add xs (enc_batch seq ops) = enc_batch seq (ops @ xs)"
  by (induction xs arbitrary: ops) (simp_all add: batch_add_enc)

section \<open>Replaying a batch\<close>

lemma handle_ops_append:
  "handle_ops hput hdel seq (xs @ ys) s =
   handle_ops hput hdel (seq + word_of_nat (length xs)) ys (handle_ops hput hdel seq xs s)"
  by (induction xs arbitrary: seq s) (simp_all add: add.assoc)

text \<open>One record: a single unfolding of the loop.\<close>

lemma Iterate_loop_op:
  assumes "op_ok x" "remaining \<noteq> 0"
  shows "Iterate_loop hput hdel (enc_op x @ rest) seq remaining s =
    Iterate_loop hput hdel rest (seq + 1) (remaining - 1) (handle_op hput hdel seq x s)"
  using assms
  by (cases x; subst Iterate_loop.simps) (simp_all add: GetLengthPrefixedSlice_Put)

lemma Iterate_loop_ops:
  assumes "list_all op_ok ops" "length ops \<le> n" "n < 2 ^ 64"
  shows "Iterate_loop hput hdel (concat (map enc_op ops) @ rest) seq (word_of_nat n) s =
    Iterate_loop hput hdel rest (seq + word_of_nat (length ops)) (word_of_nat (n - length ops))
      (handle_ops hput hdel seq ops s)"
  using assms
proof (induction ops arbitrary: seq n s)
  case (Cons x ops)
  then obtain m where n: "n = Suc m" by (cases n) auto
  have "unat (word_of_nat n :: u64) = n" using Cons.prems(3) by (simp add: unat_word_of_nat_less)
  then have "(word_of_nat n :: u64) \<noteq> 0" using n by (metis nat.distinct(1) unsigned_0)
  then show ?case
    using Cons.prems Cons.IH [of m "seq + 1"]
    by (simp add: Iterate_loop_op n add.assoc del: enc_op.simps)
qed simp

lemma Iterate_enc_batch:
  assumes "batch_ok ops"
  shows "WriteBatch_Iterate hput hdel (enc_batch seq ops) s =
    (Status_OK, handle_ops hput hdel seq ops s)"
proof -
  have "drop kHeader (enc_batch seq ops) = concat (map enc_op ops) @ []"
    by (simp add: kHeader_def enc_batch_def)
  then have "WriteBatch_Iterate hput hdel (enc_batch seq ops) s =
      Iterate_loop hput hdel (concat (map enc_op ops) @ []) seq (word_of_nat (length ops)) s"
    using assms by (simp add: WriteBatch_Iterate_def batch_ok_def)
  also have "\<dots> = Iterate_loop hput hdel [] (seq + word_of_nat (length ops)) 0
      (handle_ops hput hdel seq ops s)"
    using assms by (subst Iterate_loop_ops) (simp_all add: batch_ok_def)
  also have "\<dots> = (Status_OK, handle_ops hput hdel seq ops s)"
    by (subst Iterate_loop.simps) simp
  finally show ?thesis .
qed

section \<open>The handler interface\<close>

text \<open>
  What a client of \<open>Iterate\<close> provides: an invariant indexed by the next sequence
  number, which each callback advances, and an abstract view on which the callbacks
  act as \<open>upd\<close> and \<open>del\<close>.  A replay then acts on the view as the list of operations.
\<close>

fun apply_op :: "(bytes \<Rightarrow> bytes \<Rightarrow> 'v \<Rightarrow> 'v) \<Rightarrow> (bytes \<Rightarrow> 'v \<Rightarrow> 'v) \<Rightarrow> op \<Rightarrow> 'v \<Rightarrow> 'v" where
  "apply_op upd del (OpPut k v) m = upd k v m"
| "apply_op upd del (OpDelete k) m = del k m"

locale batch_handler =
  fixes hput :: "u64 \<Rightarrow> bytes \<Rightarrow> bytes \<Rightarrow> 's \<Rightarrow> 's"
    and hdel :: "u64 \<Rightarrow> bytes \<Rightarrow> 's \<Rightarrow> 's"
    and inv :: "nat \<Rightarrow> 's \<Rightarrow> bool"
    and view :: "'s \<Rightarrow> 'v"
    and upd :: "bytes \<Rightarrow> bytes \<Rightarrow> 'v \<Rightarrow> 'v"
    and del :: "bytes \<Rightarrow> 'v \<Rightarrow> 'v"
  assumes put_inv: "inv n s \<Longrightarrow> n < 2 ^ 56 \<Longrightarrow> inv (Suc n) (hput (word_of_nat n) k v s)"
    and del_inv: "inv n s \<Longrightarrow> n < 2 ^ 56 \<Longrightarrow> inv (Suc n) (hdel (word_of_nat n) k s)"
    and put_view: "inv n s \<Longrightarrow> n < 2 ^ 56 \<Longrightarrow> view (hput (word_of_nat n) k v s) = upd k v (view s)"
    and del_view: "inv n s \<Longrightarrow> n < 2 ^ 56 \<Longrightarrow> view (hdel (word_of_nat n) k s) = del k (view s)"
begin

lemma handle_ops_view:
  assumes "inv n s" "n + length ops \<le> 2 ^ 56"
  shows "inv (n + length ops) (handle_ops hput hdel (word_of_nat n) ops s) \<and>
    view (handle_ops hput hdel (word_of_nat n) ops s) = fold (apply_op upd del) ops (view s)"
  using assms
proof (induction ops arbitrary: n s)
  case (Cons x ops)
  have n: "n < 2 ^ 56" using Cons.prems(2) by simp
  have "inv (Suc n) (handle_op hput hdel (word_of_nat n) x s)"
    using put_inv [OF Cons.prems(1) n] del_inv [OF Cons.prems(1) n] by (cases x) simp_all
  moreover have "view (handle_op hput hdel (word_of_nat n) x s) = apply_op upd del x (view s)"
    using put_view [OF Cons.prems(1) n] del_view [OF Cons.prems(1) n] by (cases x) simp_all
  ultimately show ?case
    using Cons.IH [of "Suc n" "handle_op hput hdel (word_of_nat n) x s"] Cons.prems(2)
    by (simp add: add.commute [of 1])
qed simp

lemma iterate_batch:
  assumes "batch_ok ops" "inv n s" "n + length ops \<le> 2 ^ 56"
  obtains s' where "WriteBatch_Iterate hput hdel (enc_batch (word_of_nat n) ops) s = (Status_OK, s')"
    and "inv (n + length ops) s'" and "view s' = fold (apply_op upd del) ops (view s)"
  using that [OF Iterate_enc_batch [OF assms(1)]] handle_ops_view [OF assms(2,3)] by simp

end

section \<open>Any contents\<close>

text \<open>
  On an arbitrary string the handler sees some list of operations, never longer than
  the header announces, and of exactly that length when \<open>Iterate\<close> reports success.
\<close>

lemma Iterate_loop_shape:
  "\<exists>ops. length ops \<le> unat remaining \<and>
     snd (Iterate_loop hput hdel input seq remaining s) = handle_ops hput hdel seq ops s \<and>
     (ok (fst (Iterate_loop hput hdel input seq remaining s)) \<longrightarrow> length ops = unat remaining)"
proof (induction hput hdel input seq remaining s rule: Iterate_loop.induct)
  case (1 hput hdel input seq remaining s)
  let ?P = "\<lambda>st s'. \<exists>ops. length ops \<le> unat remaining \<and> s' = handle_ops hput hdel seq ops s \<and>
     (ok st \<longrightarrow> length ops = unat remaining)"
  have stop: "?P (Corruption m) s" for m by (intro exI [of _ "[]"]) simp
  have more: "?P (fst r) (snd r)"
    if r: "remaining \<noteq> 0" and ex: "\<exists>ops. length ops \<le> unat (remaining - 1) \<and>
      snd r = handle_ops hput hdel (seq + 1) ops (handle_op hput hdel seq x s) \<and>
      (ok (fst r) \<longrightarrow> length ops = unat (remaining - 1))" for r x
  proof -
    have "unat (remaining - 1) = unat remaining - 1" "0 < unat remaining"
      using r by (simp_all add: unat_minus_one unat_gt_0)
    moreover obtain ops where "length ops \<le> unat (remaining - 1)"
      "snd r = handle_ops hput hdel (seq + 1) ops (handle_op hput hdel seq x s)"
      "ok (fst r) \<longrightarrow> length ops = unat (remaining - 1)" using ex by blast
    ultimately show ?thesis by (intro exI [of _ "x # ops"]) auto
  qed
  show ?case
  proof (cases input)
    case Nil
    then show ?thesis by (subst (1 2) Iterate_loop.simps) (auto intro!: exI [of _ "[]"])
  next
    case (Cons tag input1)
    show ?thesis
    proof (cases "GetLengthPrefixedSlice input1")
      case p1: (Pair r1 input2)
      show ?thesis
      proof (cases "GetLengthPrefixedSlice input2")
        case p2: (Pair r2 input3)
        show ?thesis
          using Cons 1 [OF Cons] stop p1 p2 more [of _ "OpPut (the r1) (the r2)"]
            more [of _ "OpDelete (the r1)"]
          by (subst (1 2) Iterate_loop.simps) (cases r1; cases r2; simp)
      qed
    qed
  qed
qed

lemma Iterate_loop_truncated_op:
  assumes "op_ok x" "remaining \<noteq> 0" "n < length (enc_op x)"
  shows "\<not> ok (fst (Iterate_loop hput hdel (take n (enc_op x)) seq remaining s))"
proof (cases n)
  case 0
  then show ?thesis using assms(2) by (subst Iterate_loop.simps) simp
next
  case (Suc m)
  have one: "\<exists>rest. GetLengthPrefixedSlice (take m (PutLengthPrefixedSlice [] k)) = (None, rest)"
    if "length k < 2 ^ 32" "m < length (PutLengthPrefixedSlice [] k)" for m k
    using GetLengthPrefixedSlice_truncated [OF that] by (metis prod.collapse)
  show ?thesis
  proof (cases x)
    case (OpDelete k)
    then show ?thesis using assms Suc one [of k m] by (subst Iterate_loop.simps) auto
  next
    case (OpPut k v)
    let ?p = "PutLengthPrefixedSlice []"
    show ?thesis
    proof (cases "m < length (?p k)")
      case True
      then show ?thesis
        using assms(1,2) Suc one [of k m] OpPut by (subst Iterate_loop.simps) auto
    next
      case False
      then have m: "take m (?p k @ ?p v) = ?p k @ take (m - length (?p k)) (?p v)" by simp
      moreover obtain rest where
        "GetLengthPrefixedSlice (take (m - length (?p k)) (?p v)) = (None, rest)"
      proof -
        have "length v < 2 ^ 32" using assms(1) OpPut by simp
        moreover have "m - length (?p k) < length (?p v)" using assms(3) Suc OpPut False by auto
        ultimately have "\<exists>rest. GetLengthPrefixedSlice (take (m - length (?p k)) (?p v)) = (None, rest)"
          by (rule one)
        then show thesis using that by blast
      qed
      ultimately show ?thesis
        using assms Suc OpPut
        by (subst Iterate_loop.simps) (auto simp: GetLengthPrefixedSlice_Put)
    qed
  qed
qed

lemma Iterate_loop_truncated:
  assumes "list_all op_ok ops" "length ops < 2 ^ 64" "n < length (concat (map enc_op ops))"
  shows "\<not> ok (fst (Iterate_loop hput hdel (take n (concat (map enc_op ops))) seq
    (word_of_nat (length ops)) s))"
  using assms
proof (induction ops arbitrary: n seq s)
  case (Cons x ops)
  have "unat (word_of_nat (length (x # ops)) :: u64) = length (x # ops)"
    using Cons.prems(2) by (intro unat_word_of_nat_less) simp
  then have r: "(word_of_nat (length (x # ops)) :: u64) \<noteq> 0" by auto
  show ?case
  proof (cases "n < length (enc_op x)")
    case True
    then show ?thesis using Cons.prems(1) r Iterate_loop_truncated_op [of x _ n] by simp
  next
    case False
    then show ?thesis
      using Cons.prems Cons.IH [of "n - length (enc_op x)"] r
      by (simp add: Iterate_loop_op del: enc_op.simps)
  qed
qed simp

section \<open>Properties\<close>

text \<open>
  C29. A batch built by any sequence of \<open>Put\<close> and \<open>Delete\<close> replays exactly that sequence
  into any handler, with consecutive sequence numbers from the one it was stamped
  with, and reports success.
\<close>

theorem write_batch_roundtrip:
  assumes "batch_ok ops"
  shows "WriteBatch_Iterate hput hdel
      (WriteBatch_set_sequence seq (fold batch_add ops WriteBatch_Clear)) s =
    (Status_OK, handle_ops hput hdel seq ops s)"
proof -
  have "fold batch_add ops WriteBatch_Clear = enc_batch 0 ops"
    using batch_add_all [of "[]" ops 0] assms by (simp add: WriteBatch_Clear_enc batch_ok_def)
  then show ?thesis using Iterate_enc_batch [OF assms] by simp
qed

theorem write_batch_roundtrip_witness:
  "WriteBatch_Iterate (\<lambda>seq k v s. s @ [(seq, k, v)]) (\<lambda>seq k s. s @ [(seq, k, [])])
     (WriteBatch_set_sequence 5 (fold batch_add [OpPut [1] [2], OpDelete [3]] WriteBatch_Clear)) [] =
   (Status_OK, [(5, [1], [2]), (6, [3], [])])"
  by (subst write_batch_roundtrip) (simp_all add: batch_ok_def)

text \<open>
  On arbitrary contents the handler is called at most as many times as the header
  announces, and exactly as many times when the replay reports success.
\<close>

theorem write_batch_quota:
  "\<exists>ops. length ops \<le> unat (word_of_int (WriteBatch_Count rep) :: u64) \<and>
     snd (WriteBatch_Iterate hput hdel rep s) = handle_ops hput hdel (WriteBatch_sequence rep) ops s \<and>
     (ok (fst (WriteBatch_Iterate hput hdel rep s)) \<longrightarrow>
       length ops = unat (word_of_int (WriteBatch_Count rep) :: u64))"
  unfolding WriteBatch_Iterate_def by (rule Iterate_loop_shape)

theorem write_batch_quota_witness:
  "\<exists>ops. length ops = 1 \<and>
     snd (WriteBatch_Iterate (\<lambda>seq k v s. s + 1) (\<lambda>seq k s. s + 1) (enc_batch 5 [OpDelete [3]]) (0 :: nat)) =
       handle_ops (\<lambda>seq k v s. s + 1) (\<lambda>seq k s. s + 1) 5 ops 0"
  using write_batch_quota [of "enc_batch 5 [OpDelete [3]]" "\<lambda>seq k v s. s + 1" "\<lambda>seq k s. s + 1" "0 :: nat"]
  by (auto simp: Iterate_enc_batch batch_ok_def)

text \<open>
  C30. A batch cut anywhere after its header is refused: the replay never reports success
  on a truncated record.
\<close>

theorem write_batch_truncation_refused:
  assumes "batch_ok ops" "kHeader \<le> n" "n < length (enc_batch seq ops)"
  shows "\<not> ok (fst (WriteBatch_Iterate hput hdel (take n (enc_batch seq ops)) s))"
proof -
  let ?h = "EncodeFixed64 seq @ EncodeFixed32 (word_of_nat (length ops))"
  have n: "12 \<le> n" using assms(2) by (simp add: kHeader_def)
  then have t: "take n (enc_batch seq ops) = ?h @ take (n - 12) (concat (map enc_op ops))"
    by (simp add: enc_batch_def take_Cons')
  have "length ops < 2 ^ 31" "list_all op_ok ops" using assms(1) by (simp_all add: batch_ok_def)
  moreover have "n - 12 < length (concat (map enc_op ops))"
    using assms(3) n by (simp add: length_enc_batch)
  ultimately have "\<not> ok (fst (Iterate_loop hput hdel (take (n - 12) (concat (map enc_op ops))) seq
      (word_of_nat (length ops)) s))"
    by (intro Iterate_loop_truncated) simp_all
  moreover have "WriteBatch_Iterate hput hdel (take n (enc_batch seq ops)) s =
      Iterate_loop hput hdel (take (n - 12) (concat (map enc_op ops))) seq (word_of_nat (length ops)) s"
    using \<open>length ops < 2 ^ 31\<close> unfolding t
    by (simp add: WriteBatch_Iterate_def kHeader_def WriteBatch_Count_def WriteBatch_sequence_def
        sint_word_of_nat)
  ultimately show ?thesis by simp
qed

theorem write_batch_truncation_refused_witness:
  "\<not> ok (fst (WriteBatch_Iterate (\<lambda>seq k v s. s) (\<lambda>seq k s. s) (take 13 (enc_batch 1 [OpDelete []])) ()))"
proof -
  have l: "length (enc_batch 1 [OpDelete []]) = 14"
    by (simp add: length_enc_batch PutLengthPrefixedSlice_def PutVarint32_def EncodeVarint_small)
  show ?thesis
    by (rule write_batch_truncation_refused) (simp_all only: l, simp_all add: batch_ok_def kHeader_def)
qed

end
