(* ===== verification/Layers.thy ===== *)
theory Layers
  imports DbFormat
begin

text \<open>
  What a layer of the database stores and what a lookup in it answers.  A memtable
  and a table both hold a list of entries, internal key and value, in the order of the
  internal keys; a lookup answers with the newest version of a user key.  This theory
  holds that specification, shared by the two, and the interface \<open>lookup_layer\<close>
  through which the database reads them.
\<close>

section \<open>Entries\<close>

type_synonym entry = "bytes \<times> bytes"

abbreviation entry_user :: "entry \<Rightarrow> bytes" where "entry_user e \<equiv> ExtractUserKey (fst e)"
abbreviation entry_tag :: "entry \<Rightarrow> u64" where "entry_tag e \<equiv> ExtractTag (fst e)"

text \<open>The answer an entry stands for: its value, or a tombstone.\<close>

definition entry_state :: "entry \<Rightarrow> LookupState" where
  "entry_state e = (if ucast (entry_tag e AND 0xff) = kTypeValue then kValue (snd e) else kDeleted)"

definition entries_lookup :: "entry list \<Rightarrow> bytes \<Rightarrow> LookupState" where
  "entries_lookup es uk =
     (case find (\<lambda>e. entry_user e = uk) es of None \<Rightarrow> kNotFoundState | Some e \<Rightarrow> entry_state e)"

text \<open>Entries written by the database: a sequence number in range and one of the two types.\<close>

definition entry_seq :: "entry \<Rightarrow> u64" where
  "entry_seq e = drop_bit 8 (entry_tag e)"

definition entry_ok :: "entry \<Rightarrow> bool" where
  "entry_ok e \<longleftrightarrow> (\<exists>uk s t. fst e = uk @ EncodeFixed64 (PackSequenceAndType s t) \<and>
     s \<le> kMaxSequenceNumber \<and> (t = kTypeValue \<or> t = kTypeDeletion))"

definition entries_ok :: "entry list \<Rightarrow> bool" where
  "entries_ok es \<longleftrightarrow> list_all entry_ok es \<and> sorted_wrt (\<lambda>a b. view_ikey (fst a) \<le> view_ikey (fst b)) es"

definition mk_entry :: "u64 \<Rightarrow> ValueType \<Rightarrow> bytes \<Rightarrow> bytes \<Rightarrow> entry" where
  "mk_entry seq t key value = (key @ EncodeFixed64 (PackSequenceAndType seq t), value)"

lemma entries_ok_simps [simp]:
  "entries_ok []"
  "entries_ok (e # es) \<longleftrightarrow> entry_ok e \<and> (\<forall>x \<in> set es. view_ikey (fst e) \<le> view_ikey (fst x)) \<and> entries_ok es"
  by (auto simp: entries_ok_def)

lemma entry_ok_mk [simp]:
  "s \<le> kMaxSequenceNumber \<Longrightarrow> t = kTypeValue \<or> t = kTypeDeletion \<Longrightarrow> entry_ok (mk_entry s t k v)"
  unfolding entry_ok_def mk_entry_def by auto

lemma mk_entry_simps [simp]:
  "entry_user (mk_entry s t k v) = k"
  "entry_tag (mk_entry s t k v) = PackSequenceAndType s t"
  "s \<le> kMaxSequenceNumber \<Longrightarrow> entry_seq (mk_entry s t k v) = s"
  "snd (mk_entry s t k v) = v"
  "view_ikey (fst (mk_entry s t k v)) = IKey k (PackSequenceAndType s t)"
  "length (fst (mk_entry s t k v)) = length k + 8"
  by (simp_all add: mk_entry_def entry_seq_def drop_bit_Pack)

lemma entry_state_mk [simp]:
  "entry_state (mk_entry s t k v) = (if t = kTypeValue then kValue v else kDeleted)"
  by (simp add: entry_state_def del: and_255_Pack)

lemma entry_state_not_NotFound [simp]: "entry_state e \<noteq> kNotFoundState"
  by (simp add: entry_state_def)

lemma entry_ok_length: "entry_ok e \<Longrightarrow> 8 \<le> length (fst e)"
  by (auto simp: entry_ok_def)

lemma entry_ok_tag_le:
  assumes "entry_ok e"
  shows "entry_tag e \<le> PackSequenceAndType kMaxSequenceNumber kTypeValue"
proof -
  have "kTypeDeletion \<le> kTypeValue" by (simp add: kTypeDeletion_def kTypeValue_def)
  then show ?thesis using assms lookup_tag_max by (auto simp: entry_ok_def)
qed

lemma entry_tag_less:
  assumes "entry_ok e" "s \<le> kMaxSequenceNumber" "entry_seq e < s"
  shows "entry_tag e < PackSequenceAndType s t"
  using assms Pack_less by (auto simp: entry_ok_def entry_seq_def drop_bit_Pack)

section \<open>Lookups\<close>

lemma entries_lookup_Nil [simp]: "entries_lookup [] uk = kNotFoundState"
  by (simp add: entries_lookup_def)

lemma entries_lookup_Cons:
  "entries_lookup (e # es) uk = (if entry_user e = uk then entry_state e else entries_lookup es uk)"
  by (simp add: entries_lookup_def)

lemma entries_lookup_append:
  "entries_lookup (es @ fs) uk =
    (if uk \<in> entry_user ` set es then entries_lookup es uk else entries_lookup fs uk)"
  by (induction es) (auto simp: entries_lookup_Cons)

lemma entries_lookup_NotFound:
  "entries_lookup es uk = kNotFoundState \<longleftrightarrow> uk \<notin> entry_user ` set es"
  by (induction es) (auto simp: entries_lookup_Cons)

text \<open>A lookup answers with the version of the largest tag.\<close>

lemma entries_lookup_newest:
  assumes "entries_ok es" "uk \<in> entry_user ` set es"
  shows "\<exists>e \<in> set es. entry_user e = uk \<and> entries_lookup es uk = entry_state e \<and>
    (\<forall>e' \<in> set es. entry_user e' = uk \<longrightarrow> entry_tag e' \<le> entry_tag e)"
  using assms
proof (induction es)
  case (Cons e es)
  have le: "entry_user x = entry_user e \<Longrightarrow> entry_tag x \<le> entry_tag e" if "x \<in> set es" for x
    using Cons.prems(1) that by (auto simp: view_ikey_def less_eq_ikey_def)
  show ?case
    using Cons le by (cases "entry_user e = uk") (auto simp: entries_lookup_Cons)
qed simp

text \<open>A new version goes in front of all older versions of its key.\<close>

lemma entries_lookup_insert:
  assumes "\<And>x. x \<in> set A \<Longrightarrow> entry_user x \<noteq> entry_user e"
  shows "entries_lookup (A @ e # B) = (entries_lookup (A @ B))(entry_user e := entry_state e)"
proof
  fix uk
  have "uk = entry_user e \<Longrightarrow> uk \<notin> entry_user ` set A" using assms by fastforce
  then show "entries_lookup (A @ e # B) uk =
      ((entries_lookup (A @ B))(entry_user e := entry_state e)) uk"
    unfolding entries_lookup_append entries_lookup_Cons fun_upd_apply by presburger
qed

section \<open>The layers of the database\<close>

text \<open>The first layer that knows a key answers for it.\<close>

definition layer_over :: "LookupState \<Rightarrow> LookupState \<Rightarrow> LookupState" where
  "layer_over s t = (if s = kNotFoundState then t else s)"

definition layers_lookup :: "entry list list \<Rightarrow> bytes \<Rightarrow> LookupState" where
  "layers_lookup ess uk = foldr (\<lambda>es. layer_over (entries_lookup es uk)) ess kNotFoundState"

lemma layer_over_simps [simp]:
  "layer_over kNotFoundState t = t" "layer_over kDeleted t = kDeleted" "layer_over (kValue v) t = kValue v"
  "layer_over t kNotFoundState = t"
  by (simp_all add: layer_over_def)

lemma layers_lookup_simps [simp]:
  "layers_lookup [] uk = kNotFoundState"
  "layers_lookup (es # ess) uk = layer_over (entries_lookup es uk) (layers_lookup ess uk)"
  by (simp_all add: layers_lookup_def)

lemma layers_lookup_concat: "layers_lookup ess uk = entries_lookup (concat ess) uk"
proof (induction ess)
  case (Cons es ess)
  then show ?case
    using entries_lookup_NotFound [of es uk] by (auto simp: entries_lookup_append layer_over_def)
qed simp

text \<open>
  The interface: \<open>stands\<close> relates a layer to its entries, \<open>get\<close> is the lookup of the
  code (\<open>None\<close> where it would not return or would read outside its memory), and
  \<open>adm\<close> says for which keys the lookup is right.
\<close>

locale lookup_layer =
  fixes stands :: "'l \<Rightarrow> entry list \<Rightarrow> bool"
    and get :: "bytes \<Rightarrow> 'l \<Rightarrow> LookupState option"
    and adm :: "entry list \<Rightarrow> bytes \<Rightarrow> bool"
  assumes stands_ok: "stands l es \<Longrightarrow> entries_ok es"
    and get_lookup: "stands l es \<Longrightarrow> adm es uk \<Longrightarrow> get uk l = Some (entries_lookup es uk)"
begin

lemma get_absent:
  "stands l es \<Longrightarrow> adm es uk \<Longrightarrow> get uk l = Some kNotFoundState \<longleftrightarrow> uk \<notin> entry_user ` set es"
  by (simp add: get_lookup entries_lookup_NotFound)

lemma get_newest:
  assumes "stands l es" "adm es uk" "uk \<in> entry_user ` set es"
  shows "\<exists>e \<in> set es. entry_user e = uk \<and> get uk l = Some (entry_state e) \<and>
    (\<forall>e' \<in> set es. entry_user e' = uk \<longrightarrow> entry_tag e' \<le> entry_tag e)"
  using entries_lookup_newest [OF stands_ok [OF assms(1)] assms(3)] get_lookup [OF assms(1,2)] by auto

end

end
