(* ===== verification/MemTable.thy ===== *)
theory MemTable
  imports SkipList WriteBatch Layers
begin

text \<open>
  \<open>src/db/memtable.h\<close> and \<open>src/db/memtable.cc\<close>: the memtable, a skip list whose keys
  are views on records in an arena, and the \<open>MemTableInserter\<close> of \<open>src/db/db_impl.cc\<close>
  that replays a batch into it.  The two views of a key are kept as the byte strings
  they show: the arena never reuses or rewrites a region it has handed out.
\<close>

section \<open>The memtable\<close>

record MemKey =
  mk_ikey :: bytes
  mk_value :: bytes

definition MemTable_Cmp :: "MemKey \<Rightarrow> MemKey \<Rightarrow> bool" where
  "MemTable_Cmp a b = InternalKeyComparator (mk_ikey a) (mk_ikey b)"

record MemTable =
  mt_arena :: Arena
  mt_table :: "MemKey skiplist"

definition MemTable_new :: "alloc \<Rightarrow> MemTable" where
  "MemTable_new new_char =
     (let (t, a) = SkipList_new new_char \<lparr>mk_ikey = [], mk_value = []\<rparr> Arena_init
      in \<lparr>mt_arena = a, mt_table = t\<rparr>)"

text \<open>The record laid out in the arena is \<open>buf\<close>; \<open>None\<close> if the insertion does not return.\<close>

definition MemTable_Add ::
  "alloc \<Rightarrow> SequenceNumber \<Rightarrow> ValueType \<Rightarrow> bytes \<Rightarrow> bytes \<Rightarrow> MemTable \<Rightarrow> MemTable option" where
  "MemTable_Add new_char seq t key value m =
     (let klen = length key + 8;
          (_, a) = Arena_AllocateAligned new_char (klen + length value) (mt_arena m);
          buf = key @ EncodeFixed64 (PackSequenceAndType seq t) @ value
      in case SkipList_Insert new_char MemTable_Cmp
                \<lparr>mk_ikey = take klen buf, mk_value = drop klen buf\<rparr> (mt_table m) a of
           None \<Rightarrow> None
         | Some (t, a) \<Rightarrow> Some \<lparr>mt_arena = a, mt_table = t\<rparr>)"

definition MemTable_Get :: "bytes \<Rightarrow> MemTable \<Rightarrow> LookupState option" where
  "MemTable_Get uk m =
     (let lookup = AppendInternalKey [] uk kMaxSequenceNumber kTypeValue in
      case Iter_Seek MemTable_Cmp (mt_table m) \<lparr>mk_ikey = lookup, mk_value = []\<rparr> of
        None \<Rightarrow> None
      | Some it \<Rightarrow>
          if \<not> Iter_Valid it then Some kNotFoundState
          else let e = Iter_key (mt_table m) it in
            if Slice_neq (ExtractUserKey (mk_ikey e)) uk then Some kNotFoundState
            else if (ucast (ExtractTag (mk_ikey e) AND 0xff) :: ValueType) = kTypeValue
            then Some (kValue (mk_value e))
            else Some kDeleted)"

definition ApproximateMemoryUsage :: "MemTable \<Rightarrow> nat" where
  "ApproximateMemoryUsage m = Arena_MemoryUsage (mt_arena m)"

text \<open>
  The usage is exact: the list asks for aligned memory only, so no block of the arena is
  ever shared, and each entry costs its record and a node.
\<close>

definition mem_usage :: "entry list \<Rightarrow> nat" where
  "mem_usage es = sizeof_Node + (\<Sum>e\<leftarrow>es. sizeof_Node + length (fst e) + length (snd e))"

definition arena_unshared :: "Arena \<Rightarrow> bool" where
  "arena_unshared a \<longleftrightarrow> curr a = 0 \<and> avail a = 0"

lemma AllocateAligned_unshared:
  assumes "arena_unshared a"
  shows "arena_unshared (snd (Arena_AllocateAligned new_char n a))"
    and "Arena_MemoryUsage (snd (Arena_AllocateAligned new_char n a)) = Arena_MemoryUsage a + n"
  using assms
  by (simp_all add: arena_unshared_def Arena_AllocateAligned_def AllocateNewBlock_def Arena_MemoryUsage_def Let_def)

text \<open>The iterator wraps the one of the list.\<close>

definition MemIter_SeekToFirst :: "MemTable \<Rightarrow> nat option" where
  "MemIter_SeekToFirst m = Iter_SeekToFirst (mt_table m)"

definition MemIter_ikey :: "MemTable \<Rightarrow> nat option \<Rightarrow> bytes" where
  "MemIter_ikey m it = mk_ikey (Iter_key (mt_table m) it)"

definition MemIter_value :: "MemTable \<Rightarrow> nat option \<Rightarrow> bytes" where
  "MemIter_value m it = mk_value (Iter_key (mt_table m) it)"

definition MemIter_Next :: "MemTable \<Rightarrow> nat option \<Rightarrow> nat option" where
  "MemIter_Next m it = Iter_Next (mt_table m) it"

text \<open>\<open>MemTableInserter\<close>, the handler of a replay.\<close>

definition MemTableInserter_Put ::
  "alloc \<Rightarrow> u64 \<Rightarrow> bytes \<Rightarrow> bytes \<Rightarrow> MemTable option \<Rightarrow> MemTable option" where
  "MemTableInserter_Put new_char seq key value m =
     Option.bind m (MemTable_Add new_char seq kTypeValue key value)"

definition MemTableInserter_Delete ::
  "alloc \<Rightarrow> u64 \<Rightarrow> bytes \<Rightarrow> MemTable option \<Rightarrow> MemTable option" where
  "MemTableInserter_Delete new_char seq key m =
     Option.bind m (MemTable_Add new_char seq kTypeDeletion key [])"

section \<open>The order of the keys\<close>

definition mem_entry :: "MemKey \<Rightarrow> entry" where
  "mem_entry e = (mk_ikey e, mk_value e)"

lemma MemTable_Cmp_view: "MemTable_Cmp a b \<longleftrightarrow> view_ikey (mk_ikey a) < view_ikey (mk_ikey b)"
  by (simp add: MemTable_Cmp_def InternalKeyComparator_view)

interpretation mem: strict_weak_order MemTable_Cmp
  by unfold_locales (auto simp: MemTable_Cmp_view)

lemma ordered_entries:
  "ordered MemTable_Cmp ks \<longleftrightarrow>
    sorted_wrt (\<lambda>a b. view_ikey (fst a) \<le> view_ikey (fst b)) (map mem_entry ks)"
  by (simp add: ordered_def sorted_wrt_map MemTable_Cmp_view mem_entry_def not_less)

section \<open>What a memtable stands for\<close>

definition mem_rel :: "MemTable \<Rightarrow> entry list \<Rightarrow> bool" where
  "mem_rel m es \<longleftrightarrow> list_all entry_ok es \<and>
     arena_unshared (mt_arena m) \<and> ApproximateMemoryUsage m = mem_usage es \<and>
     (\<exists>ks. sl_rel MemTable_Cmp (mt_table m) ks \<and> es = map mem_entry ks)"

lemma mem_rel_ok: "mem_rel m es \<Longrightarrow> entries_ok es"
  unfolding mem_rel_def entries_ok_def using sl_rel_ordered ordered_entries by blast

lemma mem_rel_new: "mem_rel (MemTable_new new_char) []"
proof -
  have a: "arena_unshared Arena_init" "Arena_MemoryUsage Arena_init = 0"
    by (simp_all add: arena_unshared_def Arena_init_def Arena_MemoryUsage_def)
  show ?thesis
    using sl_rel_new [of MemTable_Cmp new_char "\<lparr>mk_ikey = [], mk_value = []\<rparr>" Arena_init]
      AllocateAligned_unshared [OF a(1)] a(2)
    by (simp add: mem_rel_def MemTable_new_def case_prod_unfold Let_def snd_SkipList_new
        ApproximateMemoryUsage_def mem_usage_def)
qed

lemma mem_rel_usage: "mem_rel m es \<Longrightarrow> ApproximateMemoryUsage m = mem_usage es"
  by (simp add: mem_rel_def)

text \<open>Where a new entry goes.\<close>

definition entries_below :: "ikey \<Rightarrow> entry list \<Rightarrow> entry list" where
  "entries_below k es = takeWhile (\<lambda>e. view_ikey (fst e) < k) es"

definition entries_above :: "ikey \<Rightarrow> entry list \<Rightarrow> entry list" where
  "entries_above k es = dropWhile (\<lambda>e. view_ikey (fst e) < k) es"

lemma entries_below_above: "entries_below k es @ entries_above k es = es"
  by (simp add: entries_below_def entries_above_def)

lemma entries_below_less: "e \<in> set (entries_below k es) \<Longrightarrow> e \<in> set es \<and> view_ikey (fst e) < k"
  unfolding entries_below_def by (rule set_takeWhileD)

lemma MemTable_Add_rel:
  assumes m: "mem_rel m es" and s: "s \<le> kMaxSequenceNumber" and t: "t = kTypeValue \<or> t = kTypeDeletion"
  shows "\<exists>m'. MemTable_Add new_char s t key value m = Some m' \<and>
    mem_rel m' (entries_below (IKey key (PackSequenceAndType s t)) es @ mk_entry s t key value #
      entries_above (IKey key (PackSequenceAndType s t)) es)"
proof -
  obtain ks where sl: "sl_rel MemTable_Cmp (mt_table m) ks" and es: "es = map mem_entry ks"
    and ok: "list_all entry_ok es" and un: "arena_unshared (mt_arena m)"
    and us: "Arena_MemoryUsage (mt_arena m) = mem_usage es"
    using m by (auto simp: mem_rel_def ApproximateMemoryUsage_def)
  let ?k = "\<lparr>mk_ikey = key @ EncodeFixed64 (PackSequenceAndType s t), mk_value = value\<rparr>"
  let ?a = "snd (Arena_AllocateAligned new_char (length key + 8 + length value) (mt_arena m))"
  from mem.sl_rel_Insert [OF sl, of new_char ?k ?a] obtain s' where
    ins: "SkipList_Insert new_char MemTable_Cmp ?k (mt_table m) ?a =
      Some (s', snd (Arena_AllocateAligned new_char sizeof_Node ?a))"
    and sl': "sl_rel MemTable_Cmp s' (ins_sorted MemTable_Cmp ?k ks)" by blast
  have "MemTable_Add new_char s t key value m =
      Some \<lparr>mt_arena = snd (Arena_AllocateAligned new_char sizeof_Node ?a), mt_table = s'\<rparr>"
    using ins by (simp add: MemTable_Add_def case_prod_unfold Let_def)
  moreover have "map mem_entry (ins_sorted MemTable_Cmp ?k ks) =
      entries_below (IKey key (PackSequenceAndType s t)) es @ mk_entry s t key value #
      entries_above (IKey key (PackSequenceAndType s t)) es"
    by (simp add: ins_sorted_def es entries_below_def entries_above_def takeWhile_map dropWhile_map
        comp_def MemTable_Cmp_view mem_entry_def mk_entry_def)
  moreover have "list_all entry_ok (map mem_entry (ins_sorted MemTable_Cmp ?k ks))"
    using ok s t entry_ok_mk [OF s t, of key "value"]
    by (simp add: list_all_iff es mem_entry_def mk_entry_def)
  moreover have "mem_usage es = mem_usage (entries_below (IKey key (PackSequenceAndType s t)) es @
      entries_above (IKey key (PackSequenceAndType s t)) es)"
    by (simp only: entries_below_above)
  ultimately show ?thesis
    using sl' us AllocateAligned_unshared [OF AllocateAligned_unshared(1) [OF un]] AllocateAligned_unshared(2) [OF un]
    by (auto simp: mem_rel_def ApproximateMemoryUsage_def mem_usage_def mk_entry_def)
qed

text \<open>What the seek of a read skips belongs to other keys; where it stops, the key is the first if it is there at all.\<close>

lemma skipped_other_user:
  assumes "list_all entry_ok (map mem_entry ks)" "k \<in> set ks"
    and "view_ikey (mk_ikey k) < IKey uk (PackSequenceAndType kMaxSequenceNumber kTypeValue)"
  shows "entry_user (mem_entry k) \<noteq> uk"
proof
  assume "entry_user (mem_entry k) = uk"
  then have "PackSequenceAndType kMaxSequenceNumber kTypeValue < entry_tag (mem_entry k)"
    using assms(3) by (auto simp: less_ikey_def view_ikey_def mem_entry_def)
  moreover have "entry_ok (mem_entry k)" using assms(1,2) by (auto simp: list_all_iff)
  ultimately show False using entry_ok_tag_le [of "mem_entry k"] by (simp add: not_less)
qed

lemma first_at_user:
  assumes s: "sorted_wrt (\<lambda>a b. \<not> MemTable_Cmp b a) (k # ks)"
    and k: "IKey uk tag \<le> view_ikey (mk_ikey k)" and inside: "uk \<in> entry_user ` set (map mem_entry (k # ks))"
  shows "entry_user (mem_entry k) = uk"
proof -
  obtain x where x: "x \<in> set (k # ks)" "entry_user (mem_entry x) = uk"
    using inside unfolding set_map image_image by blast
  then have "view_ikey (mk_ikey k) \<le> view_ikey (mk_ikey x)"
    using s by (auto simp: MemTable_Cmp_view not_less)
  then show ?thesis using k x(2)
    by (auto simp: view_ikey_def less_eq_ikey_def mem_entry_def)
qed

lemma MemTable_Get_rel:
  assumes m: "mem_rel m es"
  shows "MemTable_Get uk m = Some (entries_lookup es uk)"
proof -
  obtain ks where sl: "sl_rel MemTable_Cmp (mt_table m) ks" and es: "es = map mem_entry ks"
    and ok: "list_all entry_ok es" using m by (auto simp: mem_rel_def)
  let ?tag = "PackSequenceAndType kMaxSequenceNumber kTypeValue"
  let ?k = "\<lparr>mk_ikey = AppendInternalKey [] uk kMaxSequenceNumber kTypeValue, mk_value = []\<rparr>"
  let ?p = "\<lambda>k. MemTable_Cmp k ?k"
  obtain it where it: "Iter_Seek MemTable_Cmp (mt_table m) ?k = Some it"
    "iter_at MemTable_Cmp (mt_table m) it (dropWhile ?p ks)"
    using mem.Iter_Seek_at [OF sl] by blast
  have p: "?p k \<longleftrightarrow> view_ikey (mk_ikey k) < IKey uk ?tag" for k
    by (simp add: MemTable_Cmp_view AppendInternalKey_def)
  have "entry_user (mem_entry k) \<noteq> uk" if "k \<in> set (takeWhile ?p ks)" for k
    using skipped_other_user [of ks k uk] ok set_takeWhileD [OF that] unfolding p es by blast
  then have none: "uk \<notin> entry_user ` set (map mem_entry (takeWhile ?p ks))" by (simp only: set_map image_image) blast
  have "es = map mem_entry (takeWhile ?p ks) @ map mem_entry (dropWhile ?p ks)"
    unfolding es by (simp only: map_append [symmetric] takeWhile_dropWhile_id)
  then have "entries_lookup es uk = entries_lookup (map mem_entry (dropWhile ?p ks)) uk"
    using none by (simp only: entries_lookup_append if_False)
  moreover have "MemTable_Get uk m = Some (entries_lookup (map mem_entry (dropWhile ?p ks)) uk)"
  proof (cases "dropWhile ?p ks")
    case Nil
    then have "\<not> Iter_Valid it" using iter_at_Valid [OF it(2)] by (simp only: Nil simp_thms)
    then show ?thesis using it(1) by (simp only: Nil) (simp add: MemTable_Get_def)
  next
    case (Cons k ks')
    have v: "Iter_Valid it" "Iter_key (mt_table m) it = k"
      using iter_at_Valid [OF it(2)] iter_at_key [OF it(2) [unfolded Cons]] Cons by simp_all
    have u: "entry_user (mem_entry k) = uk" if inside: "uk \<in> entry_user ` set (map mem_entry (k # ks'))"
    proof -
      have o: "ordered MemTable_Cmp ks" using sl_rel_ordered [OF sl] .
      then have s: "sorted_wrt (\<lambda>a b. \<not> MemTable_Cmp b a) (k # ks')"
        unfolding ordered_def Cons [symmetric] by (metis sorted_wrt_append takeWhile_dropWhile_id)
      have "IKey uk ?tag \<le> view_ikey (mk_ikey k)"
        using mem.ordered_dropWhile [OF o, of k ?k] Cons unfolding p by simp
      from first_at_user [OF s this inside] show ?thesis .
    qed
    show ?thesis
    proof (cases "entry_user (mem_entry k) = uk")
      case True
      then show ?thesis using it(1) v Cons
        by (simp add: MemTable_Get_def entries_lookup_Cons entry_state_def
            mem_entry_def)
    next
      case False
      then have "entries_lookup (map mem_entry (k # ks')) uk = kNotFoundState"
        using u entries_lookup_NotFound by blast
      then show ?thesis using False it(1) v Cons
        by (simp add: MemTable_Get_def mem_entry_def)
    qed
  qed
  ultimately show ?thesis by simp
qed

interpretation mem_layer: lookup_layer mem_rel MemTable_Get "\<lambda>_ _. True"
  by unfold_locales (auto simp: mem_rel_ok MemTable_Get_rel)

section \<open>Replaying batches\<close>

text \<open>
  All sequence numbers are below \<open>n\<close>, the next one; the view is the lookup function.
  The state is an option since \<open>Add\<close> is.
\<close>

definition mem_seq_inv :: "nat \<Rightarrow> MemTable option \<Rightarrow> bool" where
  "mem_seq_inv n mo \<longleftrightarrow>
     (\<exists>m es. mo = Some m \<and> mem_rel m es \<and> (\<forall>e \<in> set es. unat (entry_seq e) < n))"

definition mem_view :: "MemTable option \<Rightarrow> bytes \<Rightarrow> LookupState" where
  "mem_view mo uk = (case mo of None \<Rightarrow> kNotFoundState | Some m \<Rightarrow> the (MemTable_Get uk m))"

definition view_put :: "bytes \<Rightarrow> bytes \<Rightarrow> (bytes \<Rightarrow> LookupState) \<Rightarrow> bytes \<Rightarrow> LookupState" where
  "view_put k v f = f(k := kValue v)"

definition view_delete :: "bytes \<Rightarrow> (bytes \<Rightarrow> LookupState) \<Rightarrow> bytes \<Rightarrow> LookupState" where
  "view_delete k f = f(k := kDeleted)"

lemma mem_view_rel: "mem_rel m es \<Longrightarrow> mem_view (Some m) = entries_lookup es"
  by (simp add: mem_view_def MemTable_Get_rel fun_eq_iff)

lemma seq_in_range:
  assumes "n < 2 ^ 56"
  shows "unat (word_of_nat n :: u64) = n" "(word_of_nat n :: u64) \<le> kMaxSequenceNumber"
proof -
  show n: "unat (word_of_nat n :: u64) = n" using assms by (intro unat_word_of_nat_less) simp
  show "(word_of_nat n :: u64) \<le> kMaxSequenceNumber"
    using assms unfolding word_le_nat_alt n by (simp add: kMaxSequenceNumber_def)
qed

text \<open>Adding the newest version of a key.\<close>

lemma MemTable_Add_newest:
  assumes m: "mem_rel m es" "\<forall>e \<in> set es. unat (entry_seq e) < n" and n: "n < 2 ^ 56"
    and t: "t = kTypeValue \<or> t = kTypeDeletion"
  shows "\<exists>m' es'. MemTable_Add new_char (word_of_nat n) t key value m = Some m' \<and> mem_rel m' es' \<and>
    set es' = insert (mk_entry (word_of_nat n) t key value) (set es) \<and>
    entries_lookup es' = (entries_lookup es)(key := (if t = kTypeValue then kValue value else kDeleted))"
proof -
  let ?s = "word_of_nat n :: u64"
  let ?k = "IKey key (PackSequenceAndType ?s t)" and ?e = "mk_entry (word_of_nat n) t key value"
  let ?es' = "entries_below ?k es @ ?e # entries_above ?k es"
  obtain m' where m': "MemTable_Add new_char ?s t key value m = Some m'" "mem_rel m' ?es'"
    using MemTable_Add_rel [OF m(1) seq_in_range(2) [OF n] t] by blast
  have "entry_user x \<noteq> entry_user ?e" if x: "x \<in> set (entries_below ?k es)" for x
  proof
    assume u: "entry_user x = entry_user ?e"
    have "x \<in> set es" "view_ikey (fst x) < ?k" using entries_below_less [OF x] by auto
    then have "PackSequenceAndType ?s t < entry_tag x"
      using u by (simp add: view_ikey_def less_ikey_def)
    moreover have "entry_ok x" using m(1) \<open>x \<in> set es\<close> by (auto simp: mem_rel_def list_all_iff)
    moreover have "entry_seq x < ?s"
      using m(2) \<open>x \<in> set es\<close> by (simp add: word_less_nat_alt seq_in_range(1) [OF n])
    ultimately show False
      using entry_tag_less [OF _ seq_in_range(2) [OF n], of x t] by simp
  qed
  from entries_lookup_insert [where B = "entries_above ?k es", OF this]
  have "entries_lookup ?es' = (entries_lookup es)(key := entry_state ?e)"
    by (simp only: entries_below_above mk_entry_simps)
  moreover have "set ?es' = insert ?e (set (entries_below ?k es @ entries_above ?k es))" by simp
  ultimately show ?thesis using m' unfolding entries_below_above entry_state_mk by blast
qed

lemma inserter_step:
  fixes new_char :: alloc and key "value" :: bytes
  assumes "mem_seq_inv n mo" "n < 2 ^ 56" "t = kTypeValue \<or> t = kTypeDeletion"
  defines "mo' \<equiv> Option.bind mo (MemTable_Add new_char (word_of_nat n) t key value)"
  shows "mem_seq_inv (Suc n) mo' \<and>
    mem_view mo' = (mem_view mo)(key := (if t = kTypeValue then kValue value else kDeleted))"
proof -
  obtain m es where mo: "mo = Some m" and m: "mem_rel m es" "\<forall>e \<in> set es. unat (entry_seq e) < n"
    using assms(1) by (auto simp: mem_seq_inv_def)
  from MemTable_Add_newest [OF m assms(2,3), of new_char key "value"] obtain m' es' where
    m': "mo' = Some m'" "mem_rel m' es'"
    and es': "set es' = insert (mk_entry (word_of_nat n) t key value) (set es)"
    and lk: "entries_lookup es' = (entries_lookup es)(key := (if t = kTypeValue then kValue value else kDeleted))"
    by (auto simp: mo'_def mo)
  have "\<forall>e \<in> set es'. unat (entry_seq e) < Suc n"
    using m(2) seq_in_range [OF assms(2)] by (auto simp: es' less_Suc_eq)
  then show ?thesis
    using m' mem_view_rel [OF m'(2)] mem_view_rel [OF m(1)] lk mo by (auto simp: mem_seq_inv_def)
qed

interpretation inserter: batch_handler "MemTableInserter_Put new_char" "MemTableInserter_Delete new_char"
  mem_seq_inv mem_view view_put view_delete
proof unfold_locales
  fix n s k v
  assume *: "mem_seq_inv n s" "n < 2 ^ 56"
  note put = inserter_step [OF *, of kTypeValue new_char k v, folded MemTableInserter_Put_def]
  note del = inserter_step [OF *, of kTypeDeletion new_char k "[]", folded MemTableInserter_Delete_def]
  show "mem_seq_inv (Suc n) (MemTableInserter_Put new_char (word_of_nat n) k v s)" using put by simp
  show "mem_seq_inv (Suc n) (MemTableInserter_Delete new_char (word_of_nat n) k s)" using del by simp
  show "mem_view (MemTableInserter_Put new_char (word_of_nat n) k v s) = view_put k v (mem_view s)"
    using put by (simp add: view_put_def)
  show "mem_view (MemTableInserter_Delete new_char (word_of_nat n) k s) = view_delete k (mem_view s)"
    using del by (simp add: view_delete_def)
qed

text \<open>The memory a replay takes.\<close>

definition usage_view :: "MemTable option \<Rightarrow> nat" where
  "usage_view mo = (case mo of None \<Rightarrow> 0 | Some m \<Rightarrow> ApproximateMemoryUsage m)"

definition usage_put :: "bytes \<Rightarrow> bytes \<Rightarrow> nat \<Rightarrow> nat" where
  "usage_put k v u = u + sizeof_Node + length k + 8 + length v"

definition usage_delete :: "bytes \<Rightarrow> nat \<Rightarrow> nat" where
  "usage_delete k u = usage_put k [] u"

lemma inserter_usage:
  assumes "mem_seq_inv n mo" "n < 2 ^ 56" "t = kTypeValue \<or> t = kTypeDeletion"
  shows "usage_view (Option.bind mo (MemTable_Add new_char (word_of_nat n) t key value)) =
    usage_put key value (usage_view mo)"
proof -
  obtain m es where mo: "mo = Some m" and m: "mem_rel m es" using assms(1) by (auto simp: mem_seq_inv_def)
  let ?k = "IKey key (PackSequenceAndType (word_of_nat n) t)"
  obtain m' where m': "MemTable_Add new_char (word_of_nat n) t key value m = Some m'"
    "mem_rel m' (entries_below ?k es @ mk_entry (word_of_nat n) t key value # entries_above ?k es)"
    using MemTable_Add_rel [OF m seq_in_range(2) [OF assms(2)] assms(3)] by blast
  have "mem_usage es = mem_usage (entries_below ?k es @ entries_above ?k es)" by (simp only: entries_below_above)
  then show ?thesis
    using m'(1) mem_rel_usage [OF m'(2)] mem_rel_usage [OF m]
    by (simp add: mo usage_view_def usage_put_def mem_usage_def mk_entry_def)
qed

interpretation inserter_usage: batch_handler "MemTableInserter_Put new_char" "MemTableInserter_Delete new_char"
  mem_seq_inv usage_view usage_put usage_delete
proof unfold_locales
  fix n s k v
  assume *: "mem_seq_inv n s" "n < 2 ^ 56"
  note put = inserter_usage [OF *, of kTypeValue new_char k v, folded MemTableInserter_Put_def]
  note del = inserter_usage [OF *, of kTypeDeletion new_char k "[]", folded MemTableInserter_Delete_def]
  show "usage_view (MemTableInserter_Put new_char (word_of_nat n) k v s) = usage_put k v (usage_view s)"
    using put by simp
  show "usage_view (MemTableInserter_Delete new_char (word_of_nat n) k s) = usage_delete k (usage_view s)"
    using del by (simp add: usage_delete_def)
qed (fact inserter.put_inv inserter.del_inv)+

text \<open>The flush walks over all entries, in order.\<close>

partial_function (option) MemIter_collect :: "MemTable \<Rightarrow> nat option \<Rightarrow> entry list \<Rightarrow> entry list option" where
  "MemIter_collect m it acc =
     (if Iter_Valid it
      then MemIter_collect m (MemIter_Next m it) (acc @ [(MemIter_ikey m it, MemIter_value m it)])
      else Some acc)"

lemma MemIter_collect_at:
  "iter_at MemTable_Cmp (mt_table m) it ks \<Longrightarrow> MemIter_collect m it acc = Some (acc @ map mem_entry ks)"
proof (induction ks arbitrary: it acc)
  case Nil
  then show ?case using iter_at_Valid [OF Nil] by (subst MemIter_collect.simps) simp
next
  case (Cons k ks)
  show ?case
    using iter_at_Valid [OF Cons.prems] iter_at_key [OF Cons.prems] Cons.IH [OF iter_at_Next [OF Cons.prems]]
    by (subst MemIter_collect.simps)
      (simp add: MemIter_Next_def MemIter_ikey_def MemIter_value_def mem_entry_def)
qed

lemma MemIter_collect_all:
  "mem_rel m es \<Longrightarrow> MemIter_collect m (MemIter_SeekToFirst m) [] = Some es"
  unfolding mem_rel_def MemIter_SeekToFirst_def
  using MemIter_collect_at [OF iter_at_SeekToFirst] by fastforce

section \<open>Properties\<close>

text \<open>
  C25. \<open>MemTable::Get\<close> always returns, and answers with the newest version of the key:
  the value of the entry with the largest tag, a deletion if that entry is a
  tombstone, and not-found exactly if the key was never written.
\<close>

theorem memtable_get_newest:
  assumes "mem_rel m es"
  shows "(MemTable_Get uk m = Some kNotFoundState \<longleftrightarrow> (\<forall>e \<in> set es. entry_user e \<noteq> uk)) \<and>
    (uk \<in> entry_user ` set es \<longrightarrow>
      (\<exists>e \<in> set es. entry_user e = uk \<and> MemTable_Get uk m = Some (entry_state e) \<and>
        (\<forall>e' \<in> set es. entry_user e' = uk \<longrightarrow> entry_tag e' \<le> entry_tag e)))"
  using mem_layer.get_absent [OF assms, of uk] mem_layer.get_newest [OF assms, of uk] by blast

theorem memtable_get_newest_witness:
  "MemTable_Get (str ''k'') (MemTable_new bump_new) = Some kNotFoundState"
  using memtable_get_newest [OF mem_rel_new [of bump_new], of "str ''k''"] by simp

text \<open>
  Replaying a batch into a memtable updates its contents as the batch says: with every
  sequence number in the memtable below that of the batch, the replay succeeds, and
  afterwards each lookup answers as the operations, applied in order to the earlier
  answers, prescribe.
\<close>

theorem memtable_replay_updates:
  assumes "batch_ok ops" "mem_rel m es" "\<forall>e \<in> set es. unat (entry_seq e) < n"
    and "n + length ops \<le> 2 ^ 56"
  shows "\<exists>m' es'. WriteBatch_Iterate (MemTableInserter_Put new_char) (MemTableInserter_Delete new_char)
      (enc_batch (word_of_nat n) ops) (Some m) = (Status_OK, Some m') \<and>
    mem_rel m' es' \<and> (\<forall>e \<in> set es'. unat (entry_seq e) < n + length ops) \<and>
    (\<forall>uk. MemTable_Get uk m' =
      Some (fold (apply_op view_put view_delete) ops (\<lambda>uk. the (MemTable_Get uk m)) uk))"
proof -
  have "mem_seq_inv n (Some m)" using assms(2,3) by (auto simp: mem_seq_inv_def)
  from inserter.iterate_batch [OF assms(1) this assms(4), of new_char] obtain s' where
    run: "WriteBatch_Iterate (MemTableInserter_Put new_char) (MemTableInserter_Delete new_char)
      (enc_batch (word_of_nat n) ops) (Some m) = (Status_OK, s')"
    and inv: "mem_seq_inv (n + length ops) s'"
    and view: "mem_view s' = fold (apply_op view_put view_delete) ops (mem_view (Some m))" by blast
  obtain m' es' where s': "s' = Some m'" "mem_rel m' es'"
    "\<forall>e \<in> set es'. unat (entry_seq e) < n + length ops" using inv by (auto simp: mem_seq_inv_def)
  have "mem_view (Some m) = (\<lambda>uk. the (MemTable_Get uk m))" by (simp add: mem_view_def fun_eq_iff)
  moreover have "MemTable_Get uk m' = Some (mem_view s' uk)" for uk
    using s' MemTable_Get_rel mem_view_rel by simp
  ultimately show ?thesis using run s' view by auto
qed

theorem memtable_replay_updates_witness:
  "\<exists>m'. WriteBatch_Iterate (MemTableInserter_Put bump_new) (MemTableInserter_Delete bump_new)
      (enc_batch (word_of_nat 1) [OpPut [1] [2], OpDelete [3]]) (Some (MemTable_new bump_new)) =
        (Status_OK, Some m') \<and>
    MemTable_Get [1] m' = Some (kValue [2]) \<and> MemTable_Get [3] m' = Some kDeleted"
proof -
  have "batch_ok [OpPut [1] [2], OpDelete [3]]" by (simp add: batch_ok_def)
  from memtable_replay_updates [OF this mem_rel_new, of 1 bump_new bump_new] show ?thesis
    by (auto simp: view_put_def view_delete_def)
qed

text \<open>
  The walk of a flush, \<open>SeekToFirst\<close> and \<open>Next\<close> until the end, returns and yields every
  entry once, in the order of the internal keys, tombstones included.
\<close>

theorem memtable_iterates_in_order:
  assumes "mem_rel m es"
  shows "MemIter_collect m (MemIter_SeekToFirst m) [] = Some es \<and>
    sorted_wrt (\<lambda>a b. \<not> InternalKeyComparator (fst b) (fst a)) es"
  using MemIter_collect_all [OF assms] mem_rel_ok [OF assms]
  by (simp add: entries_ok_def InternalKeyComparator_view not_less)

theorem memtable_iterates_in_order_witness:
  "MemIter_collect (MemTable_new bump_new) (MemIter_SeekToFirst (MemTable_new bump_new)) [] = Some []"
  using memtable_iterates_in_order [OF mem_rel_new [of bump_new]] by blast

end
