(* ===== verification/Crc32c.thy ===== *)
theory Crc32c
  imports Prelude
begin

text \<open>
  \<open>src/util/crc32c.h\<close> and \<open>src/util/crc32c.cc\<close>: the CRC-32C checksum, computed four
  bytes at a time from four tables.  The four-byte \<open>memcpy\<close> reads its word as the
  little-endian hosts of the code do.  The lemmas show that the table-driven loop
  computes the bit-by-bit CRC, that it can be continued over the pieces of a string,
  and that a change confined to four consecutive bytes always changes the checksum.
\<close>

definition kPoly :: u32 where
  "kPoly = 0x82f63b78"

definition crc_bit :: "u32 \<Rightarrow> u32" where
  "crc_bit c = (if c AND 1 \<noteq> 0 then drop_bit 1 c XOR kPoly else drop_bit 1 c)"

text \<open>The entries the constructor of \<open>Tables\<close> computes: level 0, then each level from the one before.\<close>

primrec table_entry :: "nat \<Rightarrow> u32 \<Rightarrow> u32" where
  "table_entry 0 i = (crc_bit ^^ 8) i"
| "table_entry (Suc lvl) i =
     (let c = table_entry lvl i in drop_bit 8 c XOR (crc_bit ^^ 8) (c AND 0xff))"

definition Tables :: "u32 list list" where
  "Tables = map (\<lambda>lvl. map (\<lambda>i. table_entry lvl (word_of_nat i)) [0..<256]) [0..<4]"

fun Extend_bytes :: "u32 \<Rightarrow> bytes \<Rightarrow> u32" where
  "Extend_bytes c [] = c"
| "Extend_bytes c (b # p) =
     Extend_bytes ((Tables ! 0 ! unat ((c XOR ucast b) AND 0xff)) XOR drop_bit 8 c) p"

fun Extend_words :: "u32 \<Rightarrow> bytes \<Rightarrow> u32" where
  "Extend_words c (p0 # p1 # p2 # p3 # p) =
     (let c = c XOR le_join [p0, p1, p2, p3] in
      Extend_words
        ((Tables ! 3 ! unat (c AND 0xff)) XOR (Tables ! 2 ! unat (drop_bit 8 c AND 0xff)) XOR
         (Tables ! 1 ! unat (drop_bit 16 c AND 0xff)) XOR (Tables ! 0 ! unat (drop_bit 24 c))) p)"
| "Extend_words c p = Extend_bytes c p"

definition Extend :: "u32 \<Rightarrow> bytes \<Rightarrow> u32" where
  "Extend crc data = NOT (Extend_words (NOT crc) data)"

definition Value :: "bytes \<Rightarrow> u32" where
  "Value data = Extend 0 data"

definition kMaskDelta :: u32 where
  "kMaskDelta = 0xa282ead8"

definition MaskCrc32c :: "u32 \<Rightarrow> u32" where
  "MaskCrc32c crc = (drop_bit 15 crc OR push_bit 17 crc) + kMaskDelta"

definition UnmaskCrc32c :: "u32 \<Rightarrow> u32" where
  "UnmaskCrc32c masked =
     (let rot = masked - kMaskDelta in drop_bit 17 rot OR push_bit 15 rot)"

section \<open>The bit-by-bit CRC\<close>

text \<open>The reference: one byte is eight steps of the shift register.\<close>

definition crc_byte :: "u32 \<Rightarrow> byte \<Rightarrow> u32" where
  "crc_byte c b = (crc_bit ^^ 8) (c XOR ucast b)"

definition crc_ref :: "u32 \<Rightarrow> bytes \<Rightarrow> u32" where
  "crc_ref c data = foldl crc_byte c data"

lemma crc_bit_alt: "crc_bit c = (if bit c 0 then drop_bit 1 c XOR kPoly else drop_bit 1 c)"
proof -
  have "c AND 1 \<noteq> 0 \<longleftrightarrow> bit c 0" by (simp add: and_one_eq mod2_eq_if bit_0)
  then show ?thesis by (simp add: crc_bit_def)
qed

lemma drop_bit_xor: "drop_bit n (a XOR b) = drop_bit n a XOR drop_bit n (b :: 'a::len word)"
  by (rule bit_word_eqI) (simp add: bit_simps)

lemma xor_right_cancel [simp]: "a XOR k = b XOR k \<longleftrightarrow> a = (b :: 'a::len word)"
proof
  assume "a XOR k = b XOR k"
  then have "(a XOR k) XOR k = (b XOR k) XOR k" by (rule arg_cong)
  then show "a = b" by (simp add: xor.assoc)
qed simp

lemma crc_bit_xor: "crc_bit (a XOR b) = crc_bit a XOR crc_bit b"
  by (simp add: crc_bit_alt bit_xor_iff drop_bit_xor ac_simps xor.left_commute)

lemma crc_bits_xor: "(crc_bit ^^ n) (a XOR b) = (crc_bit ^^ n) a XOR (crc_bit ^^ n) b"
  by (induction n arbitrary: a b) (simp_all add: crc_bit_xor)

lemma crc_bits_shift: "(\<And>i. i < n \<Longrightarrow> \<not> bit c i) \<Longrightarrow> (crc_bit ^^ n) c = drop_bit n c"
proof (induction n arbitrary: c)
  case (Suc n)
  have "crc_bit c = drop_bit 1 c" using Suc.prems [of 0] by (simp add: crc_bit_alt)
  moreover have "\<not> bit (drop_bit 1 c) i" if "i < n" for i
    using Suc.prems [of "Suc i"] that by (simp add: bit_simps)
  ultimately have "(crc_bit ^^ Suc n) c = drop_bit n (drop_bit 1 c)"
    using Suc.IH by (simp add: funpow_swap1)
  then show ?case by (simp add: ac_simps)
qed simp

lemma bit_kPoly_31: "bit kPoly 31"
  by (simp add: kPoly_def bit_iff_odd)

lemma crc_bit_inj: "crc_bit a = crc_bit b \<Longrightarrow> a = b"
proof -
  assume eq: "crc_bit a = crc_bit b"
  have top: "bit (crc_bit c) 31 \<longleftrightarrow> bit c 0" for c
    using bit_kPoly_31 by (auto simp: crc_bit_alt bit_simps dest: bit_imp_le_length)
  have 0: "bit a 0 \<longleftrightarrow> bit b 0" using top [of a] top [of b] eq by simp
  have "drop_bit 1 a = drop_bit 1 b"
    using eq 0 by (simp add: crc_bit_alt split: if_splits)
  then have "bit a (Suc i) \<longleftrightarrow> bit b (Suc i)" for i
    by (metis bit_drop_bit_eq comp_apply plus_1_eq_Suc)
  with 0 show "a = b" by (metis bit_word_eqI not0_implies_Suc)
qed

lemma crc_bits_inj: "(crc_bit ^^ n) a = (crc_bit ^^ n) b \<Longrightarrow> a = b"
  by (induction n arbitrary: a b) (auto dest: crc_bit_inj)

text \<open>Eight steps are a table lookup and a shift.\<close>

lemma crc8_split: "(crc_bit ^^ 8) c = drop_bit 8 c XOR (crc_bit ^^ 8) (c AND 0xff)"
proof -
  have c: "c = (c AND NOT 0xff) XOR (c AND 0xff)" by (rule bit_word_eqI) (auto simp: bit_simps)
  have "(crc_bit ^^ 8) (c AND NOT 0xff) = drop_bit 8 (c AND NOT 0xff)"
    by (rule crc_bits_shift) (auto simp: bit_simps bit_consts)
  moreover have "drop_bit 8 (c AND NOT 0xff) = drop_bit 8 c"
  proof (rule bit_word_eqI)
    fix n assume "n < LENGTH(32)"
    show "bit (drop_bit 8 (c AND NOT 0xff)) n \<longleftrightarrow> bit (drop_bit 8 c) n"
      by (simp only: bit_drop_bit_eq comp_apply bit_and_iff bit_not_iff)
        (auto simp: bit_consts dest: bit_imp_le_length)
  qed
  ultimately show ?thesis
    using crc_bits_xor [of 8 "c AND NOT 0xff" "c AND 0xff"] by (simp only: c [symmetric])
qed

lemma table_entry_crc: "table_entry lvl i = (crc_bit ^^ (8 * Suc lvl)) i"
proof (induction lvl)
  case (Suc lvl)
  have "table_entry (Suc lvl) i = (crc_bit ^^ 8) (table_entry lvl i)"
    by (simp add: Let_def crc8_split [symmetric])
  also have "\<dots> = (crc_bit ^^ (8 + 8 * Suc lvl)) i" by (simp only: Suc funpow_add comp_apply)
  finally show ?case by simp
qed simp

lemma Tables_nth: "lvl < 4 \<Longrightarrow> unat i < 256 \<Longrightarrow> Tables ! lvl ! unat i = (crc_bit ^^ (8 * Suc lvl)) i"
  by (simp add: Tables_def table_entry_crc)

lemma and_255_less: "unat (c AND (255 :: 'a::len word)) < 256" if "8 \<le> LENGTH('a)"
proof -
  have "c AND 255 = take_bit 8 c"
    using that by (intro bit_word_eqI) (auto simp: bit_simps bit_consts)
  then show ?thesis using take_bit_nat_less_exp [of 8 "unat c"] by (simp add: unsigned_take_bit_eq)
qed

lemma crc_byte_table:
  "(Tables ! 0 ! unat ((c XOR ucast b) AND 0xff)) XOR drop_bit 8 c = crc_byte c b"
proof -
  have "drop_bit 8 (c XOR ucast b) = drop_bit 8 c"
    by (rule bit_word_eqI) (auto simp: bit_simps dest: bit_imp_le_length)
  then show ?thesis
    using crc8_split [of "c XOR ucast b"]
    by (simp add: Tables_nth and_255_less crc_byte_def xor.commute)
qed

lemma Extend_bytes_ref: "Extend_bytes c p = crc_ref c p"
  by (induction p arbitrary: c) (simp_all add: crc_ref_def crc_byte_table del: xor_right_cancel)

text \<open>Up to four bytes can be fed at once: the register is linear in what is fed.\<close>

lemma crc8_push: "unat x < 2 ^ 24 \<Longrightarrow> (crc_bit ^^ 8) (push_bit 8 x) = x"
proof -
  assume "unat x < 2 ^ 24"
  then have "\<not> bit x i" if "24 \<le> i" for i using less_pow_bitD that by blast
  then have "bit x i \<Longrightarrow> i < 24" for i by (meson not_le)
  then have "drop_bit 8 (push_bit 8 x) = x"
    by (intro bit_word_eqI) (auto simp: bit_simps not_less dest: bit_imp_le_length)
  moreover have "(crc_bit ^^ 8) (push_bit 8 x) = drop_bit 8 (push_bit 8 x)"
    by (rule crc_bits_shift) (simp add: bit_simps)
  ultimately show ?thesis by simp
qed

lemma le_join_less: "unat (le_join bs :: 'a::len word) < 2 ^ (8 * length bs)"
proof -
  have "take_bit (8 * length bs) (le_join bs :: 'a word) = le_join bs"
    by (rule bit_word_eqI) (auto simp: bit_simps bit_le_join)
  then show ?thesis
    by (metis take_bit_nat_less_exp unsigned_take_bit_eq)
qed

lemma crc_ref_join:
  "length bs \<le> 4 \<Longrightarrow> crc_ref c bs = (crc_bit ^^ (8 * length bs)) (c XOR le_join bs)"
proof (induction bs arbitrary: c)
  case (Cons b bs)
  have "unat (le_join bs :: u32) < 2 ^ (8 * length bs)" by (rule le_join_less)
  also have "(2::nat) ^ (8 * length bs) \<le> 2 ^ 24"
    using Cons.prems by (intro power_increasing) auto
  finally have p: "(crc_bit ^^ 8) (push_bit 8 (le_join bs)) = le_join bs" by (rule crc8_push)
  have x: "le_join (b # bs) = ucast b XOR push_bit 8 (le_join bs :: u32)"
    by (rule bit_word_eqI) (auto simp: bit_simps dest: bit_imp_le_length)
  have "crc_ref c (b # bs) = (crc_bit ^^ (8 * length bs)) (crc_byte c b XOR le_join bs)"
    using Cons by (simp add: crc_ref_def)
  also have "crc_byte c b XOR le_join bs = (crc_bit ^^ 8) (c XOR le_join (b # bs))"
    by (simp only: crc_byte_def x xor.assoc [symmetric] crc_bits_xor p)
  also have "(crc_bit ^^ (8 * length bs)) \<dots> =
      (crc_bit ^^ (8 * length bs + 8)) (c XOR le_join (b # bs))"
    by (simp only: funpow_add comp_apply)
  finally show ?case by (simp add: add.commute)
qed (simp add: crc_ref_def)

lemma crc_peel:
  "(crc_bit ^^ (n + 8)) x = (crc_bit ^^ n) (drop_bit 8 x) XOR (crc_bit ^^ (n + 8)) (x AND 0xff)"
  by (simp only: funpow_add comp_apply crc8_split [of x] crc_bits_xor)

lemma crc32_tables:
  "(crc_bit ^^ 32) x =
     (Tables ! 3 ! unat (x AND 0xff)) XOR (Tables ! 2 ! unat (drop_bit 8 x AND 0xff)) XOR
     (Tables ! 1 ! unat (drop_bit 16 x AND 0xff)) XOR (Tables ! 0 ! unat (drop_bit 24 x))"
proof -
  have 32: "(crc_bit ^^ 32) x = (crc_bit ^^ 24) (drop_bit 8 x) XOR (crc_bit ^^ 32) (x AND 0xff)"
    using crc_peel [of 24 x] by simp
  have 24: "(crc_bit ^^ 24) (drop_bit 8 x) =
      (crc_bit ^^ 16) (drop_bit 16 x) XOR (crc_bit ^^ 24) (drop_bit 8 x AND 0xff)"
    using crc_peel [of 16 "drop_bit 8 x"] by simp
  have 16: "(crc_bit ^^ 16) (drop_bit 16 x) =
      (crc_bit ^^ 8) (drop_bit 24 x) XOR (crc_bit ^^ 16) (drop_bit 16 x AND 0xff)"
    using crc_peel [of 8 "drop_bit 16 x"] by simp
  have "unat (drop_bit 24 x) < 2 ^ 8"
    using unat_less_pow [of x] by (simp add: drop_bit_eq_div unat_div)
  then show ?thesis
    unfolding 32 24 16 by (simp add: Tables_nth and_255_less ac_simps del: xor_right_cancel)
qed

lemma crc_ref_append: "crc_ref c (a @ b) = crc_ref (crc_ref c a) b"
  by (simp add: crc_ref_def)

lemma Extend_words_ref: "Extend_words c p = crc_ref c p"
proof (induction c p rule: Extend_words.induct)
  case (1 c p0 p1 p2 p3 p)
  have "crc_ref c [p0, p1, p2, p3] = (crc_bit ^^ 32) (c XOR le_join [p0, p1, p2, p3])"
    using crc_ref_join [of "[p0, p1, p2, p3]" c] by simp
  then show ?case
    using 1 [OF refl] crc_ref_append [of c "[p0, p1, p2, p3]" p]
    by (simp add: Let_def crc32_tables del: xor_right_cancel le_join.simps)
qed (simp_all only: Extend_words.simps Extend_bytes_ref)

lemma Extend_ref: "Extend crc data = NOT (crc_ref (NOT crc) data)"
  by (simp add: Extend_def Extend_words_ref)

lemma Extend_append: "Extend crc (a @ b) = Extend (Extend crc a) b"
  by (simp add: Extend_ref crc_ref_append)

lemma Extend_Value: "Extend (Value a) b = Value (a @ b)"
  by (simp add: Value_def Extend_append)

section \<open>What the checksum detects\<close>

lemma crc_ref_inj: "crc_ref a data = crc_ref b data \<Longrightarrow> a = b"
proof (induction data arbitrary: a b)
  case (Cons x data)
  then have "crc_byte a x = crc_byte b x" by (simp add: crc_ref_def)
  then show ?case by (auto simp: crc_byte_def dest!: crc_bits_inj)
qed (simp add: crc_ref_def)

lemma le_join_inj:
  assumes "length as = length bs" "8 * length as \<le> LENGTH('a)"
    and "le_join as = (le_join bs :: 'a::len word)"
  shows "as = bs"
proof -
  have "as = le_bytes (length as) (le_join as :: 'a word)"
    using assms(2) by (rule le_bytes_le_join [symmetric])
  also have "\<dots> = le_bytes (length bs) (le_join bs :: 'a word)" by (simp only: assms(1,3))
  also have "\<dots> = bs" using assms(1,2) by (intro le_bytes_le_join) simp
  finally show ?thesis .
qed

lemma Value_burst:
  assumes "length as = length bs" "length as \<le> 4" "as \<noteq> bs"
  shows "Value (pre @ as @ post) \<noteq> Value (pre @ bs @ post)"
proof
  assume "Value (pre @ as @ post) = Value (pre @ bs @ post)"
  then have "crc_ref (crc_ref (crc_ref (NOT 0) pre) as) post =
      crc_ref (crc_ref (crc_ref (NOT 0) pre) bs) post"
    by (simp only: Value_def Extend_ref crc_ref_append bit.compl_eq_compl_iff)
  then have "crc_ref (crc_ref (NOT 0) pre) as = crc_ref (crc_ref (NOT 0) pre) bs"
    by (rule crc_ref_inj)
  then have "(crc_bit ^^ (8 * length bs)) (crc_ref (NOT 0) pre XOR le_join as) =
      (crc_bit ^^ (8 * length bs)) (crc_ref (NOT 0) pre XOR le_join bs)"
    using crc_ref_join [of as "crc_ref (NOT 0) pre"] crc_ref_join [of bs "crc_ref (NOT 0) pre"]
      assms(1,2) by (simp only:)
  then have "crc_ref (NOT 0) pre XOR le_join as = crc_ref (NOT 0) pre XOR (le_join bs :: u32)"
    by (rule crc_bits_inj)
  then have "le_join as = (le_join bs :: u32)"
    by (simp only: xor.commute [of "crc_ref (NOT 0) pre"] xor_right_cancel)
  then have "as = bs"
    using assms(1,2) le_join_inj [of as bs, where 'a = 32] by simp
  with assms(3) show False by contradiction
qed

text \<open>
  What the two formats that carry a checksum (log records and table blocks) rely on:
  a change confined to four consecutive bytes of the covered string changes the sum.
\<close>

locale burst_checksum =
  fixes sum :: "bytes \<Rightarrow> u32"
  assumes burst: "length as = length bs \<Longrightarrow> length as \<le> 4 \<Longrightarrow> as \<noteq> bs \<Longrightarrow>
    sum (pre @ as @ post) \<noteq> sum (pre @ bs @ post)"
begin

lemma one_byte:
  assumes "i < length p" "p ! i \<noteq> b"
  shows "sum (p[i := b]) \<noteq> sum p"
  using burst [of "[b]" "[p ! i]" "take i p" "drop (Suc i) p"] assms
  by (simp add: upd_conv_take_nth_drop id_take_nth_drop [symmetric])

end

section \<open>Masking\<close>

lemma rotate_unmask: "drop_bit 17 (drop_bit 15 c OR push_bit 17 c) OR
    push_bit 15 (drop_bit 15 c OR push_bit 17 c) = (c :: u32)"
proof (rule bit_word_eqI)
  fix n assume "n < LENGTH(32)"
  then show "bit (drop_bit 17 (drop_bit 15 c OR push_bit 17 c) OR
    push_bit 15 (drop_bit 15 c OR push_bit 17 c)) n = bit c n"
    by (cases "n < 15") (auto simp: bit_simps dest: bit_imp_le_length)
qed

lemma Unmask_Mask [simp]: "UnmaskCrc32c (MaskCrc32c crc) = crc"
  by (simp only: UnmaskCrc32c_def MaskCrc32c_def Let_def add_diff_cancel_right' rotate_unmask)

lemma rotate_mask: "drop_bit 15 (drop_bit 17 r OR push_bit 15 r) OR
    push_bit 17 (drop_bit 17 r OR push_bit 15 r) = (r :: u32)"
proof (rule bit_word_eqI)
  fix n assume "n < LENGTH(32)"
  then show "bit (drop_bit 15 (drop_bit 17 r OR push_bit 15 r) OR
      push_bit 17 (drop_bit 17 r OR push_bit 15 r)) n \<longleftrightarrow> bit r n"
    by (cases "n < 17") (auto simp: bit_simps dest: bit_imp_le_length)
qed

lemma Mask_Unmask: "MaskCrc32c (UnmaskCrc32c m) = m"
  by (simp only: UnmaskCrc32c_def MaskCrc32c_def Let_def rotate_mask diff_add_cancel)

lemma Mask_inj [simp]: "MaskCrc32c a = MaskCrc32c b \<longleftrightarrow> a = b"
  by (metis Unmask_Mask)

interpretation masked_crc: burst_checksum "\<lambda>p. MaskCrc32c (Value p)"
  by unfold_locales (simp add: Value_burst)

section \<open>Properties\<close>

text \<open>
  C28. The loop over four tables, four bytes at a time with a byte-wise tail, computes the
  bit-by-bit CRC-32C of the whole string, and a checksum can be continued piece by piece.
\<close>

theorem crc32c_tables_correct:
  "Value data = NOT (foldl (\<lambda>c b. (crc_bit ^^ 8) (c XOR ucast b)) (NOT 0) data) \<and>
   Extend (Value a) b = Value (a @ b)"
  by (simp add: Extend_Value) (simp add: Value_def Extend_ref crc_ref_def crc_byte_def [abs_def])

text \<open>
  A change of up to four consecutive bytes anywhere in a string always changes its
  stored (masked) checksum, and masking loses nothing.
\<close>

theorem crc32c_detects_bursts:
  assumes "length as = length bs" "length as \<le> 4" "as \<noteq> bs"
  shows "MaskCrc32c (Value (pre @ as @ post)) \<noteq> MaskCrc32c (Value (pre @ bs @ post)) \<and>
    UnmaskCrc32c (MaskCrc32c crc) = crc"
  using masked_crc.burst [OF assms] by simp

theorem crc32c_detects_bursts_witness:
  "MaskCrc32c (Value ([1] @ [2, 3] @ [4])) \<noteq> MaskCrc32c (Value ([1] @ [9, 3] @ [4]))"
proof -
  have "length [2 :: byte, 3] = length [9 :: byte, 3]" "length [2 :: byte, 3] \<le> 4"
    "[2 :: byte, 3] \<noteq> [9, 3]" by simp_all
  from crc32c_detects_bursts [OF this] show ?thesis by blast
qed

end
