(* ===== verification/StdFile.thy ===== *)
theory StdFile
  imports Status
begin

text \<open>
  The part of \<open><cstdio>\<close> the program uses on its files.  A stream opened for writing has
  the bytes written so far and the number of them handed to the operating system; what
  a call of the library does is decided by a parameter, the \<open>Os\<close>, which may cut a
  write short or fail a flush.  A crash of the process keeps some prefix of the
  content, at least what was flushed.  Reading is from the content at a position; how many
  bytes of those asked for come back is a parameter too, the \<open>Reads\<close>.
\<close>

record FILE =
  content :: bytes
  flushed :: nat
  calls :: nat

record Os =
  os_write :: "nat \<Rightarrow> nat \<Rightarrow> nat"
  os_flush :: "nat \<Rightarrow> bool"
  os_tell :: "nat \<Rightarrow> bool"
  os_close :: "nat \<Rightarrow> nat"

definition fopen_new :: FILE where
  "fopen_new = \<lparr>content = [], flushed = 0, calls = 0\<rparr>"

definition fopen_append :: "bytes \<Rightarrow> FILE" where
  "fopen_append bs = \<lparr>content = bs, flushed = length bs, calls = 0\<rparr>"

text \<open>The number of bytes written and the stream after the call.\<close>

definition fwrite :: "Os \<Rightarrow> bytes \<Rightarrow> FILE \<Rightarrow> nat \<times> FILE" where
  "fwrite os bs f =
     (let n = min (os_write os (calls f) (length bs)) (length bs)
      in (n, f\<lparr>content := content f @ take n bs, calls := Suc (calls f)\<rparr>))"

definition fflush :: "Os \<Rightarrow> FILE \<Rightarrow> bool \<times> FILE" where
  "fflush os f =
     (if os_flush os (calls f)
      then (True, f\<lparr>flushed := length (content f), calls := Suc (calls f)\<rparr>)
      else (False, f\<lparr>calls := Suc (calls f)\<rparr>))"

text \<open>
  \<open>ftell\<close> on a stream that only ever appends, and \<open>fclose\<close>: the bytes not yet flushed are
  handed over; if that fails, some first part of them may have been.
\<close>

definition ftell :: "Os \<Rightarrow> FILE \<Rightarrow> nat option" where
  "ftell os f = (if os_tell os (calls f) then Some (length (content f)) else None)"

definition fclose :: "Os \<Rightarrow> FILE \<Rightarrow> bool \<times> bytes" where
  "fclose os f =
     (if os_flush os (calls f) then (True, content f)
      else (False, take (flushed f + os_close os (calls f)) (content f)))"

text \<open>
  What \<open>fread\<close> gives of \<open>n\<close> bytes from a position: fewer at the end of the file, and also
  after an error.
\<close>

type_synonym Reads = "nat \<Rightarrow> nat \<Rightarrow> nat"

definition fread :: "Reads \<Rightarrow> nat \<Rightarrow> nat \<Rightarrow> bytes \<Rightarrow> bytes" where
  "fread rd n pos bs = take (min n (rd pos n)) (drop pos bs)"

definition all_read :: Reads where
  "all_read pos n = n"

definition none_read :: Reads where
  "none_read pos n = 0"

text \<open>No write is cut short; no flush fails; an operating system that never fails.\<close>

definition never_short :: "Os \<Rightarrow> bool" where
  "never_short os \<longleftrightarrow> (\<forall>k n. n \<le> os_write os k n)"

definition flushes :: "Os \<Rightarrow> bool" where
  "flushes os \<longleftrightarrow> (\<forall>k. os_flush os k)"

definition tells :: "Os \<Rightarrow> bool" where
  "tells os \<longleftrightarrow> (\<forall>k. os_tell os k)"

definition good_os :: Os where
  "good_os = \<lparr>os_write = \<lambda>_ n. n, os_flush = \<lambda>_. True, os_tell = \<lambda>_. True, os_close = \<lambda>_. 0\<rparr>"

text \<open>What a crash can leave of a stream.\<close>

definition crash_image :: "FILE \<Rightarrow> bytes \<Rightarrow> bool" where
  "crash_image f bs \<longleftrightarrow> (\<exists>k. flushed f \<le> k \<and> k \<le> length (content f) \<and> bs = take k (content f))"

definition file_ok :: "FILE \<Rightarrow> bool" where
  "file_ok f \<longleftrightarrow> flushed f \<le> length (content f)"

lemma fread_all_read [simp]: "fread all_read n pos bs = take n (drop pos bs)"
  and fread_none_read [simp]: "fread none_read n pos bs = []"
  by (simp_all add: fread_def all_read_def none_read_def)

lemma fwrite_prefix:
  "fwrite os bs f = (n, f') \<Longrightarrow>
   n \<le> length bs \<and> content f' = content f @ take n bs \<and> flushed f' = flushed f"
  by (auto simp: fwrite_def Let_def)

lemma good_os [simp]: "never_short good_os" "flushes good_os" "tells good_os"
  by (simp_all add: never_short_def flushes_def tells_def good_os_def)

lemma fwrite_never_short:
  "never_short os \<Longrightarrow> fwrite os bs f = (length bs, f\<lparr>content := content f @ bs, calls := Suc (calls f)\<rparr>)"
  by (simp add: fwrite_def never_short_def min_absorb2)

lemma fflush_cases:
  "content (snd (fflush os f)) = content f"
  "fst (fflush os f) \<Longrightarrow> flushed (snd (fflush os f)) = length (content f)"
  "\<not> fst (fflush os f) \<Longrightarrow> flushed (snd (fflush os f)) = flushed f"
  "flushes os \<Longrightarrow> flushed (snd (fflush os f)) = length (content f)"
  by (auto simp: fflush_def flushes_def split: if_splits)

lemma ftell_tells: "tells os \<Longrightarrow> ftell os f = Some (length (content f))"
  by (simp add: ftell_def tells_def)

lemma fclose_cases:
  "flushed f = length (content f) \<Longrightarrow> snd (fclose os f) = content f"
  "fst (fclose os f) \<Longrightarrow> snd (fclose os f) = content f"
  "\<exists>k. snd (fclose os f) = take k (content f)"
  "flushes os \<Longrightarrow> fclose os f = (True, content f)"
  by (auto simp: fclose_def flushes_def split: if_splits intro: exI [of _ "length (content f)"])

lemma file_ok_steps:
  "file_ok f \<Longrightarrow> file_ok (snd (fwrite os bs f))"
  "file_ok f \<Longrightarrow> file_ok (snd (fflush os f))"
  by (simp_all add: file_ok_def fwrite_def fflush_def Let_def)

lemma crash_image_flushed: "flushed f = length (content f) \<Longrightarrow> crash_image f bs \<longleftrightarrow> bs = content f"
  by (auto simp: crash_image_def)

lemma crash_image_closed: "file_ok f \<Longrightarrow> crash_image f (snd (fclose os (snd (fflush os f))))"
  by (cases "flushed f + os_close os (Suc (calls f)) \<le> length (content f)")
    (auto simp: crash_image_def fclose_def fflush_def file_ok_def
      intro: exI [of _ "length (content f)"] exI [of _ "flushed f + os_close os (Suc (calls f))"])

lemma crash_image_prefix:
  assumes "crash_image f bs" "content f = pre @ post" "length pre \<le> flushed f"
  obtains k where "bs = pre @ take k post"
proof -
  obtain k where "flushed f \<le> k" "bs = take k (content f)" using assms(1) by (auto simp: crash_image_def)
  then have "bs = pre @ take (k - length pre) post" using assms(2,3) by simp
  then show ?thesis using that by blast
qed

end
