(* ===== verification/LogFormat.thy ===== *)
theory LogFormat
  imports Coding Crc32c StdFile
begin

text \<open>
  \<open>src/db/log_format.h\<close>: the constants of the write-ahead log, and the specification
  the writer and the reader share.  A logical record is cut into fragments, a fragment
  is stored as a physical record, 7 bytes of header and its payload, and a physical
  record never crosses a block of 32 KB.  \<open>layout\<close> places fragments in a file,
  \<open>assemble\<close> puts logical records together from the fragments read back.
\<close>

section \<open>The constants\<close>

definition kBlockSize :: nat where "kBlockSize = 32 * 1024"
definition kHeaderSize :: nat where "kHeaderSize = 4 + 2 + 1"

type_synonym RecordType = byte

definition kZeroType :: RecordType where "kZeroType = 0"
definition kFullType :: RecordType where "kFullType = 1"
definition kFirstType :: RecordType where "kFirstType = 2"
definition kMiddleType :: RecordType where "kMiddleType = 3"
definition kLastType :: RecordType where "kLastType = 4"

lemmas record_types = kZeroType_def kFullType_def kFirstType_def kMiddleType_def kLastType_def

lemma record_types_distinct [simp]:
  "kFullType \<noteq> kFirstType" "kFullType \<noteq> kMiddleType" "kFullType \<noteq> kLastType"
  "kFirstType \<noteq> kFullType" "kFirstType \<noteq> kMiddleType" "kFirstType \<noteq> kLastType"
  "kMiddleType \<noteq> kFullType" "kMiddleType \<noteq> kFirstType" "kMiddleType \<noteq> kLastType"
  "kLastType \<noteq> kFullType" "kLastType \<noteq> kFirstType" "kLastType \<noteq> kMiddleType"
  by (simp_all add: record_types)

section \<open>Fragments and their place in the file\<close>

type_synonym frag = "RecordType \<times> bytes"

text \<open>The bytes of a physical record.\<close>

definition enc_phys :: "frag \<Rightarrow> bytes" where
  "enc_phys f = EncodeFixed32 (MaskCrc32c (Value (fst f # snd f))) @
     [word_of_nat (length (snd f)), word_of_nat (length (snd f) div 256), fst f] @ snd f"

lemma length_enc_phys [size_simps, simp]: "length (enc_phys f) = kHeaderSize + length (snd f)"
  by (simp add: enc_phys_def kHeaderSize_def)

text \<open>The zeros that end a block in which no header fits, and where writing continues.\<close>

definition pad_len :: "nat \<Rightarrow> nat" where
  "pad_len off = (if kBlockSize - off < kHeaderSize then kBlockSize - off else 0)"

definition pad_off :: "nat \<Rightarrow> nat" where
  "pad_off off = (if kBlockSize - off < kHeaderSize then 0 else off)"

definition frag_fits :: "nat \<Rightarrow> frag \<Rightarrow> bool" where
  "frag_fits off f \<longleftrightarrow> off \<le> kBlockSize \<and> pad_off off + kHeaderSize + length (snd f) \<le> kBlockSize \<and>
     kFullType \<le> fst f \<and> fst f \<le> kLastType"

definition next_off :: "nat \<Rightarrow> frag \<Rightarrow> nat" where
  "next_off off f = pad_off off + kHeaderSize + length (snd f)"

fun layout :: "nat \<Rightarrow> frag list \<Rightarrow> bytes" where
  "layout off [] = []"
| "layout off (f # fs) = replicate (pad_len off) 0 @ enc_phys f @ layout (next_off off f) fs"

fun fits :: "nat \<Rightarrow> frag list \<Rightarrow> bool" where
  "fits off [] \<longleftrightarrow> off \<le> kBlockSize"
| "fits off (f # fs) \<longleftrightarrow> frag_fits off f \<and> fits (next_off off f) fs"

definition end_off :: "nat \<Rightarrow> frag list \<Rightarrow> nat" where
  "end_off off fs = foldl next_off off fs"

lemma end_off_simps [simp]:
  "end_off off [] = off" "end_off off (f # fs) = end_off (next_off off f) fs"
  by (simp_all add: end_off_def)

lemma layout_append: "layout off (fs @ gs) = layout off fs @ layout (end_off off fs) gs"
  by (induction fs arbitrary: off) simp_all

lemma end_off_append: "end_off off (fs @ gs) = end_off (end_off off fs) gs"
  by (simp add: end_off_def)

lemma frag_fits_next: "frag_fits off f \<Longrightarrow> next_off off f \<le> kBlockSize"
  by (simp add: frag_fits_def next_off_def)

lemma fits_append: "fits off (fs @ gs) \<longleftrightarrow> fits off fs \<and> fits (end_off off fs) gs"
proof (induction fs arbitrary: off)
  case Nil
  then show ?case by (cases gs) (auto simp: frag_fits_def)
qed simp

lemma fits_end: "fits off fs \<Longrightarrow> end_off off fs \<le> kBlockSize"
  by (induction fs arbitrary: off) simp_all

lemma fits_off: "fits off fs \<Longrightarrow> off \<le> kBlockSize"
  by (cases fs) (simp_all add: frag_fits_def)

text \<open>Offsets agree with positions in the file, modulo the block size.\<close>

lemma pad_position: "off \<le> kBlockSize \<Longrightarrow> (off + pad_len off) mod kBlockSize = pad_off off mod kBlockSize"
  by (auto simp: pad_len_def pad_off_def)

lemma end_off_position:
  "fits off fs \<Longrightarrow> (off + length (layout off fs)) mod kBlockSize = end_off off fs mod kBlockSize"
proof (induction fs arbitrary: off)
  case (Cons f fs)
  let ?r = "kHeaderSize + length (snd f) + length (layout (next_off off f) fs)"
  have "off + length (layout off (f # fs)) = (off + pad_len off) + ?r" by simp
  then have "(off + length (layout off (f # fs))) mod kBlockSize = (pad_off off + ?r) mod kBlockSize"
    using Cons.prems pad_position [of off] by (metis fits_off mod_add_left_eq)
  also have "\<dots> = (next_off off f + length (layout (next_off off f) fs)) mod kBlockSize"
    by (simp add: next_off_def add.assoc)
  also have "\<dots> = end_off off (f # fs) mod kBlockSize"
    using Cons by simp
  finally show ?case .
qed simp

text \<open>A writer that reopens the file continues where the last one stopped.\<close>

lemma pad_block_end: "pad_len 0 = 0" "pad_off 0 = 0" "pad_len kBlockSize = 0" "pad_off kBlockSize = 0"
  by (simp_all add: pad_len_def pad_off_def kBlockSize_def kHeaderSize_def)

lemma layout_mod: "off \<le> kBlockSize \<Longrightarrow> layout (off mod kBlockSize) fs = layout off fs"
  by (cases "off = kBlockSize"; cases fs)
    (simp_all add: next_off_def pad_block_end le_neq_implies_less)

lemma fits_mod: "off \<le> kBlockSize \<Longrightarrow> fits (off mod kBlockSize) fs = fits off fs"
  by (cases "off = kBlockSize"; cases fs)
    (simp_all add: frag_fits_def next_off_def pad_block_end le_neq_implies_less)

section \<open>Assembling logical records\<close>

text \<open>The pending fragments of an unfinished record, and the records completed.\<close>

fun assemble :: "bytes option \<Rightarrow> frag list \<Rightarrow> bytes list" where
  "assemble st [] = []"
| "assemble st ((t, p) # fs) =
     (if t = kFullType then p # assemble None fs
      else if t = kFirstType then assemble (Some p) fs
      else case st of
             None \<Rightarrow> assemble None fs
           | Some r \<Rightarrow>
               if t = kLastType then (r @ p) # assemble None fs else assemble (Some (r @ p)) fs)"

text \<open>The fragments of one record: a full one, or a first, middles and a last.\<close>

definition chain :: "frag list \<Rightarrow> bool" where
  "chain fs \<longleftrightarrow> (\<exists>p. fs = [(kFullType, p)]) \<or>
     (\<exists>p ms q. fs = (kFirstType, p) # map (Pair kMiddleType) ms @ [(kLastType, q)])"

definition payload :: "frag list \<Rightarrow> bytes" where
  "payload fs = concat (map snd fs)"

lemma assemble_middles:
  "assemble (Some r) (map (Pair kMiddleType) ms @ fs) = assemble (Some (r @ concat ms)) fs"
  by (induction ms arbitrary: r) simp_all

lemma assemble_chain: "chain fs \<Longrightarrow> assemble st (fs @ gs) = payload fs # assemble None gs"
  by (auto simp: chain_def payload_def assemble_middles comp_def)

lemma assemble_middles_only: "assemble (Some r) (map (Pair kMiddleType) ms) = []"
  using assemble_middles [of r ms "[]"] by simp

lemma assemble_cut_chain:
  assumes "chain fs" "n < length fs"
  shows "assemble st (take n fs) = []"
proof (cases n)
  case (Suc m)
  then obtain p ms q where fs: "fs = (kFirstType, p) # map (Pair kMiddleType) ms @ [(kLastType, q)]"
    using assms by (auto simp: chain_def)
  then have "take n fs = (kFirstType, p) # map (Pair kMiddleType) (take m ms)"
    using assms(2) Suc by (simp add: take_map)
  then show ?thesis by (simp add: assemble_middles_only)
qed simp

text \<open>
  Cutting a sequence of records after any number of fragments leaves the records that
  are complete, whatever was pending before.
\<close>

lemma assemble_chains:
  "list_all chain css \<Longrightarrow> css \<noteq> [] \<Longrightarrow>
   assemble st (concat css @ gs) = map payload css @ assemble None gs"
proof (induction css arbitrary: st)
  case (Cons cs css)
  then show ?case by (cases "css = []") (simp_all add: assemble_chain)
qed simp

lemma assemble_take_chains:
  assumes "list_all chain css"
  shows "\<exists>k \<le> length css. assemble None (take n (concat css)) = map payload (take k css) \<and>
    length (concat (take k css)) \<le> n \<and>
    (\<forall>j \<le> length css. length (concat (take j css)) \<le> n \<longrightarrow> j \<le> k)"
  using assms
proof (induction css arbitrary: n)
  case (Cons cs css)
  have ne: "cs \<noteq> []" using Cons.prems by (auto simp: chain_def)
  show ?case
  proof (cases "length cs \<le> n")
    case True
    have "list_all chain css" using Cons.prems by simp
    from Cons.IH [OF this, of "n - length cs"]
    obtain k where k: "k \<le> length css" "assemble None (take (n - length cs) (concat css)) = map payload (take k css)"
      "length (concat (take k css)) \<le> n - length cs"
      "\<forall>j \<le> length css. length (concat (take j css)) \<le> n - length cs \<longrightarrow> j \<le> k"
      by blast
    have "assemble None (take n (concat (cs # css))) = map payload (take (Suc k) (cs # css))"
      using True Cons.prems k(2) by (simp add: assemble_chain)
    moreover have "j \<le> Suc k"
      if "j \<le> length (cs # css)" "length (concat (take j (cs # css))) \<le> n" for j
      using that k(4) True by (cases j) auto
    ultimately show ?thesis
      using k(1,3) True by (intro exI [of _ "Suc k"]) auto
  next
    case False
    then have "assemble None (take n (concat (cs # css))) = []"
      using Cons.prems assemble_cut_chain [of cs n None] by simp
    moreover have "j = 0" if "length (concat (take j (cs # css))) \<le> n" for j
      using that False by (cases j) auto
    ultimately show ?thesis by (intro exI [of _ 0]) auto
  qed
qed simp

end
