(* ===== verification/LogWriter.thy ===== *)
theory LogWriter
  imports LogFormat
begin

text \<open>
  \<open>src/db/log_writer.h\<close> and \<open>src/db/log_writer.cc\<close>: appending logical records to the
  write-ahead log.  The lemmas show that, unless the library cuts a write short, the
  bytes appended are the layout of the fragments of the record, that these form one
  chain, and that after a failure the file still holds a prefix of that layout.
\<close>

record LogWriter =
  lw_file :: FILE
  block_offset :: nat

definition LogWriter_new :: "FILE \<Rightarrow> nat \<Rightarrow> LogWriter" where
  "LogWriter_new f offset = \<lparr>lw_file = f, block_offset = offset mod kBlockSize\<rparr>"

text \<open>The second \<open>fwrite\<close> is not made when the first falls short or the payload is empty.\<close>

definition EmitPhysicalRecord :: "Os \<Rightarrow> RecordType \<Rightarrow> bytes \<Rightarrow> LogWriter \<Rightarrow> Status \<times> LogWriter" where
  "EmitPhysicalRecord os t p w =
     (let len = length p;
          crc = MaskCrc32c (Extend (Value [t]) p);
          header = EncodeFixed32 crc @ [word_of_nat len, word_of_nat (len div 256), t];
          (n, f) = fwrite os header (lw_file w);
          (failed, f) =
            (if n \<noteq> kHeaderSize then (True, f)
             else if len > 0 then let (m, f) = fwrite os p f in (m \<noteq> len, f)
             else (False, f))
      in if failed then (IOError (str ''write log record failed''), w\<lparr>lw_file := f\<rparr>)
         else (Status_OK, w\<lparr>lw_file := f, block_offset := block_offset w + (kHeaderSize + len)\<rparr>))"

text \<open>The start of an iteration: the rest of a block that cannot hold a header is zeroed.\<close>

definition pad_block :: "Os \<Rightarrow> LogWriter \<Rightarrow> bool \<times> LogWriter" where
  "pad_block os w =
     (let leftover = kBlockSize - block_offset w in
      if leftover < kHeaderSize then
        if leftover > 0 then
          let (n, f) = fwrite os (replicate leftover 0) (lw_file w) in
          if n \<noteq> leftover then (False, w\<lparr>lw_file := f\<rparr>)
          else (True, w\<lparr>lw_file := f, block_offset := 0\<rparr>)
        else (True, w\<lparr>block_offset := 0\<rparr>)
      else (True, w))"

definition record_type :: "bool \<Rightarrow> bool \<Rightarrow> RecordType" where
  "record_type first final =
     (if first \<and> final then kFullType else if first then kFirstType
      else if final then kLastType else kMiddleType)"

lemma EmitPhysicalRecord_offset:
  "EmitPhysicalRecord os t p w = (s, w') \<Longrightarrow> ok s \<Longrightarrow>
   block_offset w' = block_offset w + (kHeaderSize + length p)"
  by (auto simp: EmitPhysicalRecord_def Let_def split: prod.splits if_splits)

text \<open>The loop of \<open>AddRecord\<close>, on the bytes left.\<close>

function AddRecord_loop :: "Os \<Rightarrow> bytes \<Rightarrow> bool \<Rightarrow> LogWriter \<Rightarrow> Status \<times> LogWriter" where
  "AddRecord_loop os data first w =
     (case pad_block os w of
        (False, w) \<Rightarrow> (IOError (str ''write log padding failed''), w)
      | (True, w) \<Rightarrow>
          let avail = kBlockSize - block_offset w - kHeaderSize;
              frag_len = min (length data) avail;
              final = (frag_len = length data);
              (s, w) = EmitPhysicalRecord os (record_type first final) (take frag_len data) w;
              data = drop frag_len data
          in if ok s \<and> data \<noteq> [] then AddRecord_loop os data False w else (s, w))"
  by pat_completeness auto
termination
proof (relation "measures [\<lambda>(_, data, _, _). length data, \<lambda>(_, _, _, w). kBlockSize - block_offset w]", goal_cases)
  case (2 os data first w b w1 avail frag_len final p s w2 data')
  have "EmitPhysicalRecord os (record_type first final) (take frag_len data) w1 = (s, w2)" "ok s"
    using 2(6-9) by auto
  then have off: "block_offset w2 = block_offset w1 + (kHeaderSize + frag_len)"
    using EmitPhysicalRecord_offset 2(4) by fastforce
  have w1: "block_offset w1 = pad_off (block_offset w)"
    using 2(1,2) by (auto simp: pad_block_def pad_off_def Let_def split: if_splits prod.splits)
  have ne: "data \<noteq> []" using 2(8,9) by auto
  show ?case
  proof (cases "frag_len = 0")
    case True
    then have "kBlockSize - pad_off (block_offset w) - kHeaderSize = 0"
      using 2(3,4) ne w1 by (auto simp: min_def split: if_splits)
    then have "kBlockSize - block_offset w = kHeaderSize" "pad_off (block_offset w) = block_offset w"
      by (auto simp: pad_off_def kBlockSize_def kHeaderSize_def split: if_splits)
    then show ?thesis using True off w1 2(8) by (simp add: kHeaderSize_def)
  next
    case False
    then show ?thesis using 2(8) ne by simp
  qed
qed simp

declare AddRecord_loop.simps [simp del]

definition LogWriter_AddRecord :: "Os \<Rightarrow> bytes \<Rightarrow> LogWriter \<Rightarrow> Status \<times> LogWriter" where
  "LogWriter_AddRecord os data w =
     (let (s, w) = AddRecord_loop os data True w in
      if ok s then (s, w\<lparr>lw_file := snd (fflush os (lw_file w))\<rparr>) else (s, w))"

section \<open>The fragments of a record\<close>

function frags_of :: "nat \<Rightarrow> bytes \<Rightarrow> bool \<Rightarrow> frag list" where
  "frags_of off data first =
     (let n = min (length data) (kBlockSize - pad_off off - kHeaderSize);
          f = (record_type first (n = length data), take n data)
      in if drop n data \<noteq> [] then f # frags_of (next_off off f) (drop n data) False else [f])"
  by pat_completeness auto
termination
proof (relation "measures [\<lambda>(_, data, _). length data, \<lambda>(off, _, _). kBlockSize - off]", goal_cases)
  case (2 off data first n f)
  then show ?case
    by (auto simp: next_off_def pad_off_def min_def kBlockSize_def kHeaderSize_def split: if_splits)
qed simp

declare frags_of.simps [simp del]

lemma record_type_range [simp]: "kFullType \<le> record_type first final" "record_type first final \<le> kLastType"
  by (simp_all add: record_type_def record_types)

lemma pad_off_room: "off \<le> kBlockSize \<Longrightarrow> pad_off off + kHeaderSize \<le> kBlockSize"
  by (auto simp: pad_off_def kBlockSize_def kHeaderSize_def)

lemma frags_of_fits: "off \<le> kBlockSize \<Longrightarrow> fits off (frags_of off data first)"
proof (induction off data first rule: frags_of.induct)
  case (1 off data first)
  let ?n = "min (length data) (kBlockSize - pad_off off - kHeaderSize)"
  let ?f = "(record_type first (?n = length data), take ?n data)"
  have f: "frag_fits off ?f"
    using 1(2) pad_off_room [of off] by (simp add: frag_fits_def)
  show ?case
    using 1(1) [OF refl refl] f frag_fits_next [OF f]
    by (subst frags_of.simps) (simp only: Let_def fits.simps split: if_split, blast)
qed

lemma frags_of_payload: "payload (frags_of off data first) = data"
proof (induction off data first rule: frags_of.induct)
  case (1 off data first)
  let ?n = "min (length data) (kBlockSize - pad_off off - kHeaderSize)"
  let ?f = "(record_type first (?n = length data), take ?n data)"
  show ?case
  proof (cases "drop ?n data = []")
    case True
    then have "frags_of off data first = [?f]"
      by (subst frags_of.simps) (simp only: Let_def if_False not_True_eq_False simp_thms)
    moreover have "take ?n data = data" using True by simp
    ultimately show ?thesis by (simp only: payload_def list.map snd_conv concat.simps append_Nil2)
  next
    case False
    have "frags_of off data first = ?f # frags_of (next_off off ?f) (drop ?n data) False"
      using False by (subst frags_of.simps) (simp only: Let_def if_True not_False_eq_True simp_thms)
    then have "payload (frags_of off data first) =
        take ?n data @ payload (frags_of (next_off off ?f) (drop ?n data) False)"
      by (simp only: payload_def list.map snd_conv concat.simps)
    then show ?thesis using 1 [OF refl refl False] by (simp only: append_take_drop_id)
  qed
qed

lemma frags_of_tail: "\<exists>ms q. frags_of off data False = map (Pair kMiddleType) ms @ [(kLastType, q)]"
proof (induction off data False rule: frags_of.induct)
  case (1 off data)
  let ?n = "min (length data) (kBlockSize - pad_off off - kHeaderSize)"
  let ?f = "(record_type False (?n = length data), take ?n data)"
  show ?case
  proof (cases "drop ?n data = []")
    case True
    then have "?n = length data" by simp
    then show ?thesis
      by (subst frags_of.simps) (simp add: Let_def record_type_def)
  next
    case False
    then have "?n \<noteq> length data" by auto
    obtain ms q where "frags_of (next_off off ?f) (drop ?n data) False =
        map (Pair kMiddleType) ms @ [(kLastType, q)]" using 1 [OF refl refl False] by blast
    moreover have "frags_of off data False = ?f # frags_of (next_off off ?f) (drop ?n data) False"
      using False by (subst frags_of.simps) (simp only: Let_def if_True not_False_eq_True simp_thms)
    moreover have "?f = (kMiddleType, take ?n data)" using \<open>?n \<noteq> length data\<close> by (simp add: record_type_def)
    ultimately show ?thesis
      by (intro exI [of _ "take ?n data # ms"] exI [of _ q]) simp
  qed
qed

lemma frags_of_chain: "chain (frags_of off data True)"
proof -
  let ?n = "min (length data) (kBlockSize - pad_off off - kHeaderSize)"
  let ?f = "(record_type True (?n = length data), take ?n data)"
  show ?thesis
  proof (cases "drop ?n data = []")
    case True
    then have "?n = length data" by simp
    then show ?thesis by (subst frags_of.simps) (simp add: Let_def record_type_def chain_def)
  next
    case False
    then have "?n \<noteq> length data" by auto
    then have "?f = (kFirstType, take ?n data)" by (simp add: record_type_def)
    moreover have "frags_of off data True = ?f # frags_of (next_off off ?f) (drop ?n data) False"
      using False by (subst frags_of.simps) (simp only: Let_def if_True not_False_eq_True simp_thms)
    ultimately show ?thesis
      using frags_of_tail [of "next_off off ?f" "drop ?n data"] by (auto simp: chain_def)
  qed
qed

section \<open>What the writer leaves in the file\<close>

lemma enc_phys_header:
  "EncodeFixed32 (MaskCrc32c (Extend (Value [t]) p)) @
    [word_of_nat (length p), word_of_nat (length p div 256), t] @ p = enc_phys (t, p)"
  by (simp add: enc_phys_def Extend_Value)

lemma Emit_spec:
  assumes "EmitPhysicalRecord os t p w = (s, w')"
  shows "\<exists>k. content (lw_file w') = content (lw_file w) @ take k (enc_phys (t, p)) \<and>
    flushed (lw_file w') = flushed (lw_file w) \<and>
    (ok s \<longrightarrow> length (enc_phys (t, p)) \<le> k \<and> block_offset w' = block_offset w + (kHeaderSize + length p)) \<and>
    (never_short os \<longrightarrow> ok s) \<and> (\<not> ok s \<longrightarrow> k < length (enc_phys (t, p)))"
proof -
  define h where "h = EncodeFixed32 (MaskCrc32c (Extend (Value [t]) p)) @
    [word_of_nat (length p), word_of_nat (length p div 256), t]"
  have e: "enc_phys (t, p) = h @ p" using enc_phys_header [of t p] by (simp add: h_def)
  have h: "length h = kHeaderSize" by (simp add: kHeaderSize_def h_def)
  obtain n f where n: "fwrite os h (lw_file w) = (n, f)" by fastforce
  note emit = assms [unfolded EmitPhysicalRecord_def Let_def, folded h_def, unfolded n]
  note f1 = fwrite_prefix [OF n]
  consider (short) "n \<noteq> kHeaderSize" | (nil) "n = kHeaderSize" "p = []" | (more) "n = kHeaderSize" "p \<noteq> []"
    by blast
  then show ?thesis
  proof cases
    case short
    then have "\<not> never_short os" using n h fwrite_never_short by fastforce
    then show ?thesis
      using emit short f1 h by (intro exI [of _ n]) (auto simp: e simp del: length_enc_phys)
  next
    case nil
    then show ?thesis
      using emit nil f1 h e by (intro exI [of _ n]) auto
  next
    case more
    obtain m g where m: "fwrite os p f = (m, g)" by fastforce
    have "never_short os \<Longrightarrow> m = length p" using m by (simp add: fwrite_never_short)
    then show ?thesis
      using emit f1 h m more fwrite_prefix [OF m]
      by (intro exI [of _ "kHeaderSize + m"]) (auto simp: e simp del: length_enc_phys split: if_splits)
  qed
qed

lemma pad_block_spec:
  assumes "pad_block os w = (b, w')" "block_offset w \<le> kBlockSize"
  shows "\<exists>k. content (lw_file w') = content (lw_file w) @ take k (replicate (pad_len (block_offset w)) 0) \<and>
    flushed (lw_file w') = flushed (lw_file w) \<and>
    (b \<longrightarrow> pad_len (block_offset w) \<le> k \<and> block_offset w' = pad_off (block_offset w)) \<and>
    (never_short os \<longrightarrow> b)"
proof (cases "0 < kBlockSize - block_offset w \<and> kBlockSize - block_offset w < kHeaderSize")
  case True
  obtain n f where n: "fwrite os (replicate (kBlockSize - block_offset w) 0) (lw_file w) = (n, f)" by fastforce
  have "never_short os \<Longrightarrow> n = kBlockSize - block_offset w" using n by (simp add: fwrite_never_short)
  then show ?thesis
    using assms n fwrite_prefix [OF n] True
    by (intro exI [of _ n]) (auto simp: pad_block_def pad_len_def pad_off_def Let_def split: if_splits)
next
  case False
  then show ?thesis
    using assms by (intro exI [of _ 0]) (auto simp: pad_block_def pad_len_def pad_off_def Let_def split: if_splits)
qed

text \<open>One round of the loop: the padding and the fragment, or what the file took of them.\<close>

lemma AddRecord_loop_step:
  assumes "block_offset w \<le> kBlockSize"
    and n: "n = min (length data) (kBlockSize - pad_off (block_offset w) - kHeaderSize)"
    and f: "f = (record_type first (n = length data), take n data)"
    and chunk: "chunk = replicate (pad_len (block_offset w)) (0 :: byte) @ enc_phys f"
  obtains s2 w2 k where
    "AddRecord_loop os data first w =
      (if ok s2 \<and> drop n data \<noteq> [] then AddRecord_loop os (drop n data) False w2 else (s2, w2))"
    "content (lw_file w2) = content (lw_file w) @ take k chunk" "flushed (lw_file w2) = flushed (lw_file w)"
    "ok s2 \<Longrightarrow> length chunk \<le> k \<and> block_offset w2 = next_off (block_offset w) f"
    "never_short os \<Longrightarrow> ok s2" "\<not> ok s2 \<Longrightarrow> k < length chunk"
proof -
  let ?off = "block_offset w"
  let ?pad = "replicate (pad_len ?off) (0 :: byte)"
  obtain b w1 where pad: "pad_block os w = (b, w1)" by fastforce
  from pad_block_spec [OF pad assms(1)] obtain k0 where k0:
    "content (lw_file w1) = content (lw_file w) @ take k0 ?pad" "flushed (lw_file w1) = flushed (lw_file w)"
    "b \<Longrightarrow> pad_len ?off \<le> k0 \<and> block_offset w1 = pad_off ?off" "never_short os \<Longrightarrow> b" by blast
  show ?thesis
  proof (cases b)
    case False
    then have run: "AddRecord_loop os data first w = (IOError (str ''write log padding failed''), w1)"
      using pad by (subst AddRecord_loop.simps) simp
    show ?thesis
      by (rule that [of "IOError (str ''write log padding failed'')" w1 "min k0 (pad_len ?off)"])
        (use run k0 False in \<open>simp_all add: chunk kHeaderSize_def\<close>)
  next
    case True
    have w1: "content (lw_file w1) = content (lw_file w) @ ?pad" "block_offset w1 = pad_off ?off"
      using k0 True by simp_all
    obtain s2 w2 where em: "EmitPhysicalRecord os (fst f) (snd f) w1 = (s2, w2)" by fastforce
    have nx: "block_offset w1 + (kHeaderSize + length (snd f)) = next_off ?off f"
      by (simp add: next_off_def w1(2))
    from Emit_spec [OF em] obtain k1 where k1:
      "content (lw_file w2) = content (lw_file w1) @ take k1 (enc_phys f)"
      "flushed (lw_file w2) = flushed (lw_file w1)"
      "ok s2 \<Longrightarrow> length (enc_phys f) \<le> k1 \<and> block_offset w2 = next_off ?off f" "never_short os \<Longrightarrow> ok s2"
      "\<not> ok s2 \<Longrightarrow> k1 < length (enc_phys f)"
      unfolding prod.collapse nx by blast
    have run: "AddRecord_loop os data first w =
        (if ok s2 \<and> drop n data \<noteq> [] then AddRecord_loop os (drop n data) False w2 else (s2, w2))"
      using em unfolding f n
      by (subst AddRecord_loop.simps) (simp only: pad True w1(2) Let_def fst_conv snd_conv prod.case simp_thms split: bool.split)
    show ?thesis
      by (rule that [OF run, of "pad_len ?off + k1"]) (use w1 k0(2) k1 in \<open>auto simp: chunk\<close>)
  qed
qed

text \<open>
  The loop appends a prefix of the layout of the fragments; all of it if it reports
  success, and it does report success when nothing is cut short.
\<close>

lemma AddRecord_loop_spec:
  assumes "AddRecord_loop os data first w = (s, w')" "block_offset w \<le> kBlockSize"
  shows "\<exists>k. content (lw_file w') =
      content (lw_file w) @ take k (layout (block_offset w) (frags_of (block_offset w) data first)) \<and>
    flushed (lw_file w') = flushed (lw_file w) \<and>
    (ok s \<longrightarrow> length (layout (block_offset w) (frags_of (block_offset w) data first)) \<le> k \<and>
      block_offset w' = end_off (block_offset w) (frags_of (block_offset w) data first)) \<and>
    (never_short os \<longrightarrow> ok s) \<and>
    (\<not> ok s \<longrightarrow> k < length (layout (block_offset w) (frags_of (block_offset w) data first)))"
  using assms
proof (induction "block_offset w" data first arbitrary: w s w' rule: frags_of.induct)
  case (1 data first w)
  let ?off = "block_offset w"
  define n where "n = min (length data) (kBlockSize - pad_off ?off - kHeaderSize)"
  define f where "f = (record_type first (n = length data), take n data)"
  define chunk where "chunk = replicate (pad_len ?off) (0 :: byte) @ enc_phys f"
  define fs where "fs = frags_of ?off data first"
  define rest where "rest = (if drop n data \<noteq> [] then frags_of (next_off ?off f) (drop n data) False else [])"
  have fs: "fs = f # rest"
    unfolding fs_def rest_def f_def n_def by (subst frags_of.simps) (simp only: Let_def split: if_split, blast)
  have lay: "layout ?off fs = chunk @ layout (next_off ?off f) rest"
    by (simp only: fs layout.simps chunk_def append_assoc)
  have last_off: "end_off ?off fs = end_off (next_off ?off f) rest" by (simp add: fs)
  obtain s2 w2 k1 where step: "AddRecord_loop os data first w =
      (if ok s2 \<and> drop n data \<noteq> [] then AddRecord_loop os (drop n data) False w2 else (s2, w2))"
    and k1: "content (lw_file w2) = content (lw_file w) @ take k1 chunk" "flushed (lw_file w2) = flushed (lw_file w)"
      "ok s2 \<Longrightarrow> length chunk \<le> k1 \<and> block_offset w2 = next_off ?off f"
      "never_short os \<Longrightarrow> ok s2" "\<not> ok s2 \<Longrightarrow> k1 < length chunk"
    by (rule AddRecord_loop_step [OF 1(3) n_def f_def chunk_def, of os]) blast
  show ?case
  proof (cases "ok s2 \<and> drop n data \<noteq> []")
    case False
    then have s: "s = s2" "w' = w2" using step 1(2) by auto
    have "take (min k1 (length chunk)) (layout ?off fs) = take k1 chunk" by (simp add: lay)
    moreover have "rest = []" if "ok s2" using False that by (simp only: rest_def simp_thms if_False)
    ultimately show ?thesis
      using s k1 unfolding fs_def [symmetric]
      by (intro exI [of _ "min k1 (length chunk)"]) (auto simp: lay last_off)
  next
    case True
    have off2: "next_off ?off f = block_offset w2" using k1(3) True by simp
    have "frag_fits ?off f" using frags_of_fits [OF 1(3), of data first, folded fs_def] by (simp add: fs)
    then have le: "block_offset w2 \<le> kBlockSize" using frag_fits_next [of ?off f] off2 by simp
    have loop: "AddRecord_loop os (drop n data) False w2 = (s, w')" using step 1(2) True by simp
    have rest: "rest = frags_of (block_offset w2) (drop n data) False"
      using True by (simp only: rest_def off2 if_True simp_thms)
    obtain k where k: "content (lw_file w') = content (lw_file w2) @ take k (layout (block_offset w2) rest)"
      "flushed (lw_file w') = flushed (lw_file w2)"
      "ok s \<Longrightarrow> length (layout (block_offset w2) rest) \<le> k \<and> block_offset w' = end_off (block_offset w2) rest"
      "never_short os \<Longrightarrow> ok s" "\<not> ok s \<Longrightarrow> k < length (layout (block_offset w2) rest)"
      using 1(1) [OF n_def f_def _ off2 loop le] True unfolding rest by blast
    have "content (lw_file w2) = content (lw_file w) @ chunk" using k1(1,3) True by simp
    then show ?thesis
      using k k1(2) off2 unfolding fs_def [symmetric]
      by (intro exI [of _ "length chunk + k"]) (auto simp: lay last_off)
  qed
qed

lemma AddRecord_spec:
  assumes run: "LogWriter_AddRecord os data w = (s, w')" and off: "block_offset w \<le> kBlockSize"
  defines "fs \<equiv> frags_of (block_offset w) data True"
  shows "\<exists>k. content (lw_file w') = content (lw_file w) @ take k (layout (block_offset w) fs) \<and>
    (flushed (lw_file w') = flushed (lw_file w) \<or> flushed (lw_file w') = length (content (lw_file w'))) \<and>
    (ok s \<longrightarrow> length (layout (block_offset w) fs) \<le> k \<and> block_offset w' = end_off (block_offset w) fs) \<and>
    (never_short os \<longrightarrow> ok s) \<and>
    (flushes os \<longrightarrow> ok s \<longrightarrow> flushed (lw_file w') = length (content (lw_file w'))) \<and>
    (\<not> ok s \<longrightarrow> k < length (layout (block_offset w) fs) \<and> flushed (lw_file w') = flushed (lw_file w))"
proof -
  obtain s1 w1 where l: "AddRecord_loop os data True w = (s1, w1)" by fastforce
  from AddRecord_loop_spec [OF this off, folded fs_def] obtain k where
    "content (lw_file w1) = content (lw_file w) @ take k (layout (block_offset w) fs)"
    "flushed (lw_file w1) = flushed (lw_file w)"
    "ok s1 \<Longrightarrow> length (layout (block_offset w) fs) \<le> k \<and> block_offset w1 = end_off (block_offset w) fs"
    "never_short os \<Longrightarrow> ok s1" "\<not> ok s1 \<Longrightarrow> k < length (layout (block_offset w) fs)" by blast
  moreover have "flushed (snd (fflush os (lw_file w1))) = flushed (lw_file w1) \<or>
      flushed (snd (fflush os (lw_file w1))) = length (content (lw_file w1))"
    using fflush_cases(2,3) [of os "lw_file w1"] by blast
  ultimately show ?thesis
    using run l fflush_cases(1,4) [of os "lw_file w1"]
    by (intro exI [of _ k]) (auto simp: LogWriter_AddRecord_def split: if_splits)
qed

lemma AddRecord_offset:
  assumes "LogWriter_AddRecord os data w = (s, w')" "ok s" "block_offset w \<le> kBlockSize"
  shows "block_offset w' \<le> kBlockSize"
  using AddRecord_spec [OF assms(1,3)] assms(2) fits_end [OF frags_of_fits [OF assms(3)]] by auto

lemma AddRecord_loop_ok:
  "AddRecord_loop os data first w = (s, w') \<Longrightarrow> ok s \<Longrightarrow> s = Status_OK"
proof (induction os data first w arbitrary: s w' rule: AddRecord_loop.induct)
  case (1 os data first w)
  have e: "EmitPhysicalRecord os t p v = (s1, v') \<Longrightarrow> ok s1 \<Longrightarrow> s1 = Status_OK" for t p v s1 v'
    by (auto simp: EmitPhysicalRecord_def Let_def split: prod.splits if_splits)
  obtain b w1 where p: "pad_block os w = (b, w1)" by fastforce
  show ?case
    using 1(2,3) 1(1) [OF p [symmetric]] e
    by (subst (asm) AddRecord_loop.simps) (auto simp: p Let_def simp del: drop_eq_Nil split: bool.splits prod.splits if_splits)
qed

end
