(* ===== verification/LogReader.thy ===== *)
theory LogReader
  imports LogFormat
begin

text \<open>
  \<open>src/db/log_reader.h\<close> and \<open>src/db/log_reader.cc\<close>: reading the write-ahead log back.
  The state of the reader is the file with the position \<open>fread\<close> has reached, the block
  in \<open>buffer_\<close>, of which the model keeps the valid bytes (\<open>limit_\<close> is their number),
  and the other members.  Both loops are total: the measure of the termination proofs
  counts the bytes not yet consumed.  The lemmas show that on a file laid out by the
  writer, cut anywhere, the reader returns the records that are complete.
\<close>

section \<open>The reader\<close>

record LogReader =
  lr_file :: bytes
  lr_read :: Reads
  lr_fpos :: nat
  buffer :: bytes
  lr_base :: nat
  lr_pos :: nat
  lr_eof :: bool
  lr_valid_end :: nat
  lr_res :: bytes

abbreviation lr_limit :: "LogReader \<Rightarrow> nat" where "lr_limit r \<equiv> length (buffer r)"

datatype ReadResult = kOk RecordType bytes | kBad | kEof

definition Refill :: "LogReader \<Rightarrow> bool \<times> LogReader" where
  "Refill r =
     (if lr_eof r then (False, r)
      else
        let base = lr_base r + lr_limit r;
            buf = fread (lr_read r) kBlockSize (lr_fpos r) (lr_file r);
            r = r\<lparr>lr_base := base, buffer := buf, lr_fpos := lr_fpos r + length buf, lr_pos := 0\<rparr>;
            r = (if lr_limit r < kBlockSize then r\<lparr>lr_eof := True\<rparr> else r)
        in (lr_limit r > 0, r))"

definition LogReader_new :: "Reads \<Rightarrow> bytes \<Rightarrow> LogReader" where
  "LogReader_new rd f = snd (Refill \<lparr>lr_file = f, lr_read = rd, lr_fpos = 0, buffer = [], lr_base = 0, lr_pos = 0,
     lr_eof = False, lr_valid_end = 0, lr_res = []\<rparr>)"

text \<open>The bytes still to come: not read from the file, or read and not consumed.\<close>

definition lr_left :: "LogReader \<Rightarrow> nat" where
  "lr_left r = (length (lr_file r) - lr_fpos r) + (if lr_eof r then 0 else 1) + (lr_limit r - lr_pos r)"

definition unread :: "LogReader \<Rightarrow> nat" where
  "unread r = (length (lr_file r) - lr_fpos r) + (if lr_eof r then 0 else 1)"

lemma Refill_unread: "Refill r = (b, r') \<Longrightarrow> \<not> lr_eof r \<Longrightarrow> unread r' < unread r"
  by (auto simp: Refill_def unread_def Let_def fread_def kBlockSize_def split: if_splits)

lemma Refill_left: "Refill r = (b, r') \<Longrightarrow> \<not> lr_eof r \<Longrightarrow> lr_left r' \<le> lr_left r"
  by (auto simp: Refill_def lr_left_def Let_def fread_def split: if_splits)

function ReadPhysicalRecord :: "LogReader \<Rightarrow> ReadResult \<times> LogReader" where
  "ReadPhysicalRecord r =
     (if lr_pos r + kHeaderSize > lr_limit r then
        if lr_eof r then (kEof, r)
        else
          let r = r\<lparr>lr_pos := lr_limit r\<rparr>;
              (b, r) = Refill r
          in if \<not> b then (kEof, r) else ReadPhysicalRecord r
      else
        let h = drop (lr_pos r) (buffer r);
            len = unat ((ucast (h ! 4) :: u32) OR push_bit 8 (ucast (h ! 5)))
        in if lr_pos r + kHeaderSize + len > lr_limit r then
             if lr_eof r then (kEof, r) else (kBad, r)
           else
             let t = h ! 6 in
             if t = kZeroType \<or> t > kLastType then (kBad, r)
             else
               let expect = MaskCrc32c (Extend (Value [t]) (take len (drop kHeaderSize h))) in
               if expect \<noteq> DecodeFixed32 h then (kBad, r)
               else
                 let r = r\<lparr>lr_pos := lr_pos r + (kHeaderSize + len)\<rparr>;
                     r = r\<lparr>lr_valid_end := lr_base r + lr_pos r\<rparr>
                 in (kOk t (take len (drop kHeaderSize h)), r))"
  by pat_completeness auto
termination
proof (relation "measure unread", goal_cases)
  case (2 r r1 p b r2)
  then show ?case using Refill_unread [of r1 b r2] by (simp add: unread_def)
qed simp

declare ReadPhysicalRecord.simps [simp del]

partial_function (option) ReadRecord_loop :: "bool \<Rightarrow> LogReader \<Rightarrow> (bytes option \<times> LogReader) option" where
  "ReadRecord_loop in_frag r =
     (case ReadPhysicalRecord r of
        (kOk t frag, r) \<Rightarrow>
          if t = kFullType then Some (Some frag, if in_frag then r\<lparr>lr_res := []\<rparr> else r)
          else if t = kFirstType then ReadRecord_loop True (r\<lparr>lr_res := frag\<rparr>)
          else if \<not> in_frag then ReadRecord_loop in_frag r
          else
            let r = r\<lparr>lr_res := lr_res r @ frag\<rparr> in
            if t = kLastType then Some (Some (lr_res r), r) else ReadRecord_loop in_frag r
      | (kBad, r) \<Rightarrow> ReadRecord_loop False (r\<lparr>lr_res := [], lr_pos := kBlockSize\<rparr>)
      | (kEof, r) \<Rightarrow> Some (None, r))"

definition ReadRecord :: "LogReader \<Rightarrow> (bytes option \<times> LogReader) option" where
  "ReadRecord r = ReadRecord_loop False (r\<lparr>lr_res := []\<rparr>)"

section \<open>Positions of the reader\<close>

text \<open>
  The state of a reader that has consumed the file up to \<open>pos\<close> in the block at \<open>base\<close>.
\<close>

definition lr_at :: "bytes \<Rightarrow> nat \<Rightarrow> nat \<Rightarrow> nat \<Rightarrow> bytes \<Rightarrow> LogReader" where
  "lr_at f base pos ve res =
     (let buf = take kBlockSize (drop base f) in
      \<lparr>lr_file = f, lr_read = all_read, lr_fpos = base + length buf, buffer = buf, lr_base = base, lr_pos = pos,
       lr_eof = (length buf < kBlockSize), lr_valid_end = ve, lr_res = res\<rparr>)"

lemma lr_at_simps [simp]:
  "lr_pos (lr_at f base pos ve res) = pos" "lr_valid_end (lr_at f base pos ve res) = ve"
  "lr_res (lr_at f base pos ve res) = res" "lr_base (lr_at f base pos ve res) = base"
  "buffer (lr_at f base pos ve res) = take kBlockSize (drop base f)"
  "lr_eof (lr_at f base pos ve res) \<longleftrightarrow> length (take kBlockSize (drop base f)) < kBlockSize"
  "lr_at f base pos ve res\<lparr>lr_res := res'\<rparr> = lr_at f base pos ve res'"
  "lr_at f base pos ve res\<lparr>lr_pos := pos'\<rparr> = lr_at f base pos' ve res"
  "lr_at f base pos ve res\<lparr>lr_valid_end := ve'\<rparr> = lr_at f base pos ve' res"
  by (simp_all add: lr_at_def Let_def)

lemma lr_at_new: "LogReader_new all_read f = lr_at f 0 0 0 []"
  by (auto simp: LogReader_new_def Refill_def lr_at_def Let_def)

lemma Refill_at:
  assumes "length (take kBlockSize (drop base f)) = kBlockSize"
  shows "Refill (lr_at f base pos ve res) =
    (drop (base + kBlockSize) f \<noteq> [], lr_at f (base + kBlockSize) 0 ve res)"
  using assms by (auto simp: Refill_def lr_at_def Let_def kBlockSize_def)

text \<open>What the header of a physical record tells the reader.\<close>

lemma header_len:
  assumes "n < 65536"
  shows "unat ((ucast (word_of_nat n :: byte) :: u32) OR push_bit 8 (ucast (word_of_nat (n div 256) :: byte))) = n"
proof -
  have "(ucast (word_of_nat n :: byte) :: u32) OR push_bit 8 (ucast (word_of_nat (n div 256) :: byte)) =
      word_of_nat n"
  proof (rule bit_word_eqI)
    fix i assume "i < LENGTH(32)"
    have "n < 2 ^ 16" using assms by simp
    then have hi: "\<not> bit n i" if "16 \<le> i" for i
      using that by (metis bit_take_bit_iff not_le take_bit_nat_eq_self)
    have d: "bit (n div 256) j \<longleftrightarrow> bit n (8 + j)" for j
      by (simp add: bit_iff_odd power_add div_mult2_eq)
    show "bit ((ucast (word_of_nat n :: byte) :: u32) OR push_bit 8 (ucast (word_of_nat (n div 256) :: byte))) i =
        bit (word_of_nat n :: u32) i"
      using \<open>i < LENGTH(32)\<close> hi [of i]
      by (cases "16 \<le> i") (auto simp: bit_simps d)
  qed
  then show ?thesis using assms by (simp add: unat_word_of_nat_less)
qed

lemma header_fields:
  fixes rest :: bytes
  assumes "length (snd fr) < 65536"
  defines "h \<equiv> enc_phys fr @ rest"
  shows "unat ((ucast (h ! 4) :: u32) OR push_bit 8 (ucast (h ! 5))) = length (snd fr)"
    and "h ! 6 = fst fr" and "DecodeFixed32 h = MaskCrc32c (Extend (Value [fst fr]) (snd fr))"
    and "drop kHeaderSize h = snd fr @ rest"
  using header_len [OF assms(1)]
  by (simp_all add: h_def enc_phys_def nth_append Extend_Value kHeaderSize_def)

lemma frag_fits_len: "frag_fits off fr \<Longrightarrow> length (snd fr) < 65536"
  by (simp add: frag_fits_def kBlockSize_def)

text \<open>Only the first 7 bytes of a physical record are needed to know its length.\<close>

lemma header_fields_cut:
  assumes "length (snd fr) < 65536" "kHeaderSize \<le> n"
  defines "h \<equiv> take n (enc_phys fr)"
  shows "unat ((ucast (h ! 4) :: u32) OR push_bit 8 (ucast (h ! 5))) = length (snd fr)"
  using header_fields(1) [OF assms(1), of "[]"] assms(2) by (simp add: h_def kHeaderSize_def)

section \<open>Reading a physical record\<close>

lemma read_phys_here:
  assumes fits: "frag_fits pos fr" and here: "kHeaderSize \<le> kBlockSize - pos"
    and f: "drop (base + pos) f = enc_phys fr @ rest"
  shows "ReadPhysicalRecord (lr_at f base pos ve res) =
    (kOk (fst fr) (snd fr), lr_at f base (next_off pos fr) (base + next_off pos fr) res)"
proof -
  let ?b = "take kBlockSize (drop base f)"
  have po: "pad_off pos = pos" "next_off pos fr = pos + (kHeaderSize + length (snd fr))"
    using here by (auto simp: pad_off_def next_off_def)
  have room: "pos + kHeaderSize + length (snd fr) \<le> kBlockSize" using fits by (simp add: frag_fits_def po)
  have dp: "drop pos ?b = enc_phys fr @ take (kBlockSize - pos - length (enc_phys fr)) rest"
    using f room by (simp add: drop_take add.commute)
  then have "length (enc_phys fr) \<le> length (drop pos ?b)" by simp
  then have "kHeaderSize + length (snd fr) \<le> length ?b - pos" by (simp only: length_drop length_enc_phys)
  then have lim: "pos + kHeaderSize + length (snd fr) \<le> length ?b" unfolding kHeaderSize_def by linarith
  note h = header_fields [OF frag_fits_len [OF fits], of "take (kBlockSize - pos - length (enc_phys fr)) rest",
      folded dp]
  have t: "fst fr \<noteq> kZeroType" "\<not> kLastType < fst fr"
    using fits by (auto simp: frag_fits_def record_types)
  show ?thesis
    using lim t h po by (subst ReadPhysicalRecord.simps) (simp add: Let_def not_less)
qed

lemma read_phys_refill:
  assumes "pos \<le> kBlockSize" "kBlockSize - pos < kHeaderSize"
    and "length (take kBlockSize (drop base f)) = kBlockSize"
  shows "ReadPhysicalRecord (lr_at f base pos ve res) =
    (if drop (base + kBlockSize) f = [] then (kEof, lr_at f (base + kBlockSize) 0 ve res)
     else ReadPhysicalRecord (lr_at f (base + kBlockSize) 0 ve res))"
proof -
  have "kBlockSize < pos + kHeaderSize" using assms(1,2) by linarith
  then show ?thesis
    using Refill_at [OF assms(3), of kBlockSize ve res] assms(3)
    by (subst ReadPhysicalRecord.simps) (simp add: Let_def del: length_take length_drop)
qed

lemma block_full: "drop (base + pos) f = bs \<Longrightarrow> pos \<le> kBlockSize \<Longrightarrow> base + pos \<le> length f \<Longrightarrow>
    kBlockSize - pos \<le> length bs \<Longrightarrow> length (take kBlockSize (drop base f)) = kBlockSize"
  by auto

text \<open>A whole fragment, behind the padding of its block if there is any.\<close>

lemma read_phys_ok:
  assumes fits: "frag_fits pos fr" and f: "drop (base + pos) f = replicate (pad_len pos) 0 @ enc_phys fr @ rest"
  shows "\<exists>base'. ReadPhysicalRecord (lr_at f base pos ve res) =
      (kOk (fst fr) (snd fr), lr_at f base' (next_off pos fr) (base' + next_off pos fr) res) \<and>
    base' + next_off pos fr = base + pos + pad_len pos + length (enc_phys fr) \<and>
    drop (base' + next_off pos fr) f = rest"
proof -
  have e: "drop (base + pos + pad_len pos + length (enc_phys fr)) f = rest"
  proof -
    have "drop (pad_len pos + length (enc_phys fr)) (drop (base + pos) f) = rest" unfolding f by simp
    then show ?thesis by (simp only: drop_drop ac_simps)
  qed
  show ?thesis
  proof (cases "kHeaderSize \<le> kBlockSize - pos")
    case True
    then have "pad_len pos = 0" "next_off pos fr = pos + length (enc_phys fr)"
      by (auto simp: pad_len_def pad_off_def next_off_def)
    then show ?thesis using read_phys_here [OF fits True, of base f rest] f e
      by (intro exI [of _ base]) (simp add: add.assoc del: length_enc_phys)
  next
    case False
    have pos: "pos \<le> kBlockSize" using fits by (simp add: frag_fits_def)
    have pl: "pad_len pos = kBlockSize - pos" "pad_off pos = 0" using False by (auto simp: pad_len_def pad_off_def)
    have fits0: "frag_fits 0 fr" and n0: "next_off 0 fr = next_off pos fr"
      using fits pl by (auto simp: frag_fits_def next_off_def pad_block_end)
    have full: "length (take kBlockSize (drop base f)) = kBlockSize"
    proof (rule block_full [OF f pos])
      have "drop (base + pos) f \<noteq> []" unfolding f by (simp add: enc_phys_def)
      then show "base + pos \<le> length f" by simp
    qed (simp add: pl)
    have d0: "drop (base + kBlockSize + 0) f = enc_phys fr @ rest"
    proof -
      have "drop (kBlockSize - pos) (drop (base + pos) f) = enc_phys fr @ rest" unfolding f pl by simp
      then show ?thesis using pos by (simp add: add.commute [of base])
    qed
    have ne: "drop (base + kBlockSize) f \<noteq> []" using d0 by (simp add: enc_phys_def)
    have "kHeaderSize \<le> kBlockSize - 0" by (simp add: kBlockSize_def kHeaderSize_def)
    from read_phys_here [OF fits0 this d0]
    have "ReadPhysicalRecord (lr_at f base pos ve res) =
        (kOk (fst fr) (snd fr), lr_at f (base + kBlockSize) (next_off pos fr) (base + kBlockSize + next_off pos fr) res)"
      using read_phys_refill [OF pos _ full] False ne n0 by simp
    moreover have "base + kBlockSize + next_off pos fr = base + pos + pad_len pos + length (enc_phys fr)"
      using pos pl by (simp add: next_off_def)
    ultimately show ?thesis using e by metis
  qed
qed

text \<open>What a cut leaves of the next fragment, if it is not whole, is the end for the reader.\<close>

lemma read_phys_cut_here:
  assumes fits: "frag_fits pos fr" and here: "kHeaderSize \<le> kBlockSize - pos"
    and f: "drop (base + pos) f = take n (enc_phys fr)" "n < length (enc_phys fr)" "base + pos \<le> length f"
  shows "fst (ReadPhysicalRecord (lr_at f base pos ve res)) = kEof \<and>
    lr_valid_end (snd (ReadPhysicalRecord (lr_at f base pos ve res))) = ve"
proof -
  let ?b = "take kBlockSize (drop base f)"
  have room: "pos + kHeaderSize + length (snd fr) \<le> kBlockSize"
    using fits here by (auto simp: frag_fits_def pad_off_def)
  have lf: "length f = base + pos + n"
  proof -
    have "length (drop (base + pos) f) = n" using f by simp
    then show ?thesis using f(3) by simp
  qed
  then have lb: "length ?b = pos + n" "length ?b < kBlockSize" using f(2) room by auto
  have dp: "drop pos ?b = take n (enc_phys fr)" using f lf room by (simp add: drop_take add.commute)
  show ?thesis
  proof (cases "n < kHeaderSize")
    case True
    then show ?thesis using lb lf by (subst (1 2) ReadPhysicalRecord.simps) simp
  next
    case False
    then show ?thesis
      using lb lf f(2) header_fields_cut [OF frag_fits_len [OF fits], of n, folded dp]
      by (subst (1 2) ReadPhysicalRecord.simps) (simp add: Let_def)
  qed
qed

lemma read_phys_eof:
  assumes fits: "frag_fits pos fr"
    and f: "drop (base + pos) f = take n (replicate (pad_len pos) 0 @ enc_phys fr)"
      "n < pad_len pos + length (enc_phys fr)" "base + pos \<le> length f"
  shows "fst (ReadPhysicalRecord (lr_at f base pos ve res)) = kEof \<and>
    lr_valid_end (snd (ReadPhysicalRecord (lr_at f base pos ve res))) = ve"
proof (cases "kHeaderSize \<le> kBlockSize - pos")
  case True
  then have "pad_len pos = 0" by (simp add: pad_len_def)
  then show ?thesis using read_phys_cut_here [OF fits True, of base f n] f by simp
next
  case False
  have pos: "pos \<le> kBlockSize" using fits by (simp add: frag_fits_def)
  have pl: "pad_len pos = kBlockSize - pos" "pad_off pos = 0" using False by (auto simp: pad_len_def pad_off_def)
  have lf: "length f = base + pos + n"
  proof -
    have "length (drop (base + pos) f) = n" using f by simp
    then show ?thesis using f(3) by simp
  qed
  show ?thesis
  proof (cases "n < pad_len pos")
    case True
    then have "length (take kBlockSize (drop base f)) < kBlockSize" using lf pl pos by simp
    moreover have "length (take kBlockSize (drop base f)) < pos + kHeaderSize"
      using lf pl pos True False by simp
    ultimately show ?thesis
      by (subst (1 2) ReadPhysicalRecord.simps) (simp del: length_take length_drop)
  next
    case cut: False
    have full: "length (take kBlockSize (drop base f)) = kBlockSize" using cut lf pl pos by simp
    have fits0: "frag_fits 0 fr" using fits pl by (auto simp: frag_fits_def pad_block_end)
    have d0: "drop (base + kBlockSize + 0) f = take (n - pad_len pos) (enc_phys fr)"
    proof -
      have "drop (kBlockSize - pos) (drop (base + pos) f) = take (n - pad_len pos) (enc_phys fr)"
        unfolding f(1) using cut by (simp add: pl drop_take)
      then show ?thesis using pos by (simp add: add.commute [of base])
    qed
    have h0: "kHeaderSize \<le> kBlockSize - 0" by (simp add: kBlockSize_def kHeaderSize_def)
    have "base + kBlockSize + 0 \<le> length f" using lf cut pl pos by simp
    from read_phys_cut_here [OF fits0 h0 d0 _ this] f(2) cut
    show ?thesis using read_phys_refill [OF pos _ full] False by simp
  qed
qed

section \<open>Reading logical records\<close>

text \<open>
  \<open>survives pos bs fs\<close>: \<open>bs\<close> is what a cut has left of a layout that starts at offset
  \<open>pos\<close> of a block, and \<open>fs\<close> are the fragments that are whole.
\<close>

fun survives :: "nat \<Rightarrow> bytes \<Rightarrow> frag list \<Rightarrow> bool" where
  "survives pos bs [] \<longleftrightarrow> (\<exists>fr n. frag_fits pos fr \<and> n < pad_len pos + length (enc_phys fr) \<and>
     bs = take n (replicate (pad_len pos) 0 @ enc_phys fr))"
| "survives pos bs (fr # fs) \<longleftrightarrow> frag_fits pos fr \<and>
     (\<exists>rest. bs = replicate (pad_len pos) 0 @ enc_phys fr @ rest \<and> survives (next_off pos fr) rest fs)"

text \<open>The first logical record among some fragments, and the fragments after it.\<close>

fun next_record :: "bytes option \<Rightarrow> frag list \<Rightarrow> (bytes \<times> frag list) option" where
  "next_record st [] = None"
| "next_record st ((t, p) # fs) =
     (if t = kFullType then Some (p, fs)
      else if t = kFirstType then next_record (Some p) fs
      else case st of
             None \<Rightarrow> next_record None fs
           | Some r \<Rightarrow> if t = kLastType then Some (r @ p, fs) else next_record (Some (r @ p)) fs)"

lemma assemble_next:
  "assemble st fs = (case next_record st fs of None \<Rightarrow> [] | Some (r, fs') \<Rightarrow> r # assemble None fs')"
  by (induction st fs rule: next_record.induct) (auto split: option.splits)

definition lr_stands :: "LogReader \<Rightarrow> frag list \<Rightarrow> bool" where
  "lr_stands r fs \<longleftrightarrow> (\<exists>f base pos res. r = lr_at f base pos (base + pos) res \<and>
     base + pos \<le> length f \<and> survives pos (drop (base + pos) f) fs)"

definition lr_end :: "LogReader \<Rightarrow> frag list \<Rightarrow> nat" where
  "lr_end r fs = lr_valid_end r + length (layout (lr_pos r) fs)"

lemma read_phys_stands_Cons:
  assumes "lr_stands r (fr # fs)"
  shows "\<exists>r'. ReadPhysicalRecord r = (kOk (fst fr) (snd fr), r') \<and> lr_stands r' fs \<and>
    lr_end r' fs = lr_end r (fr # fs) \<and> lr_res r' = lr_res r"
proof -
  obtain f base pos res rest where r: "r = lr_at f base pos (base + pos) res" "base + pos \<le> length f"
    and fits: "frag_fits pos fr"
    and f: "drop (base + pos) f = replicate (pad_len pos) 0 @ enc_phys fr @ rest"
    and s: "survives (next_off pos fr) rest fs"
    using assms by (auto simp: lr_stands_def)
  from read_phys_ok [OF fits f, of "base + pos" res] obtain base' where b:
    "ReadPhysicalRecord r = (kOk (fst fr) (snd fr), lr_at f base' (next_off pos fr) (base' + next_off pos fr) res)"
    "base' + next_off pos fr = base + pos + pad_len pos + length (enc_phys fr)"
    "drop (base' + next_off pos fr) f = rest" unfolding r by blast
  have "length (drop (base + pos) f) \<ge> pad_len pos + length (enc_phys fr)" unfolding f by simp
  then have "base' + next_off pos fr \<le> length f" using b(2) r(2) by simp
  then have "lr_stands (lr_at f base' (next_off pos fr) (base' + next_off pos fr) res) fs"
    unfolding lr_stands_def using s b(3) by blast
  then show ?thesis
    using b r by (simp add: lr_end_def)
qed

lemma read_phys_stands_Nil:
  assumes "lr_stands r []"
  shows "\<exists>r'. ReadPhysicalRecord r = (kEof, r') \<and> lr_valid_end r' = lr_end r []"
proof -
  obtain f base pos res fr n where r: "r = lr_at f base pos (base + pos) res" "base + pos \<le> length f"
    and fits: "frag_fits pos fr" and n: "n < pad_len pos + length (enc_phys fr)"
    and f: "drop (base + pos) f = take n (replicate (pad_len pos) 0 @ enc_phys fr)"
    using assms unfolding lr_stands_def by (auto simp del: length_enc_phys)
  from read_phys_eof [OF fits f n r(2), of "base + pos" res] show ?thesis
    unfolding r lr_end_def by (metis add.right_neutral layout.simps(1) list.size(3) lr_at_simps(2) prod.collapse)
qed

lemma lr_stands_res: "lr_stands r fs \<Longrightarrow> lr_stands (r\<lparr>lr_res := x\<rparr>) fs"
proof -
  assume "lr_stands r fs"
  then obtain f base pos res where "r = lr_at f base pos (base + pos) res"
    "base + pos \<le> length f" "survives pos (drop (base + pos) f) fs" by (auto simp: lr_stands_def)
  then show ?thesis
    unfolding lr_stands_def by (intro exI [of _ f] exI [of _ base] exI [of _ pos] exI [of _ x]) simp
qed

lemma lr_end_res [simp]: "lr_end (r\<lparr>lr_res := x\<rparr>) fs = lr_end r fs"
  by (simp add: lr_end_def)

text \<open>
  The loop of \<open>ReadRecord\<close> returns; it delivers the next logical record and leaves the
  reader at the fragments behind it, or, at the end, with \<open>valid_end\<close> at the end of
  the last whole fragment.
\<close>

lemma ReadRecord_loop_stands:
  assumes "lr_stands r fs"
  shows "case next_record (if in_frag then Some (lr_res r) else None) fs of
      None \<Rightarrow> \<exists>r'. ReadRecord_loop in_frag r = Some (None, r') \<and> lr_valid_end r' = lr_end r fs
    | Some (x, fs') \<Rightarrow> \<exists>r'. ReadRecord_loop in_frag r = Some (Some x, r') \<and> lr_stands r' fs' \<and>
        lr_end r' fs' = lr_end r fs"
  using assms
proof (induction fs arbitrary: r in_frag)
  case Nil
  then show ?case
    using read_phys_stands_Nil [OF Nil] by (subst ReadRecord_loop.simps) auto
next
  case (Cons fr fs)
  obtain t p where fr: "fr = (t, p)" by fastforce
  obtain r' where r': "ReadPhysicalRecord r = (kOk t p, r')" "lr_stands r' fs"
    "lr_end r' fs = lr_end r (fr # fs)" "lr_res r' = lr_res r"
    using read_phys_stands_Cons [OF Cons.prems] by (auto simp: fr)
  note st = lr_stands_res [OF r'(2)]
  consider (full) "t = kFullType" | (first) "t = kFirstType" "t \<noteq> kFullType"
    | (orphan) "t \<noteq> kFullType" "t \<noteq> kFirstType" "\<not> in_frag"
    | (last) "t \<noteq> kFullType" "t \<noteq> kFirstType" "in_frag" "t = kLastType"
    | (middle) "t \<noteq> kFullType" "t \<noteq> kFirstType" "in_frag" "t \<noteq> kLastType" by blast
  then show ?case
  proof cases
    case full
    then have "ReadRecord_loop in_frag r = Some (Some p, if in_frag then r'\<lparr>lr_res := []\<rparr> else r')"
      using r' by (subst ReadRecord_loop.simps) simp
    then show ?thesis using full r' st by (simp add: fr)
  next
    case first
    then have "ReadRecord_loop in_frag r = ReadRecord_loop True (r'\<lparr>lr_res := p\<rparr>)"
      using r' by (subst ReadRecord_loop.simps) simp
    then show ?thesis
      using Cons.IH [OF st, of True p] first r'(3) by (simp add: fr cong: option.case_cong)
  next
    case orphan
    then have "ReadRecord_loop in_frag r = ReadRecord_loop in_frag r'"
      using r' by (subst ReadRecord_loop.simps) simp
    then show ?thesis
      using Cons.IH [OF r'(2), of in_frag] orphan r'(3) by (simp add: fr cong: option.case_cong)
  next
    case last
    then have "ReadRecord_loop in_frag r = Some (Some (lr_res r @ p), r'\<lparr>lr_res := lr_res r @ p\<rparr>)"
      using r' by (subst ReadRecord_loop.simps) (simp add: Let_def)
    then show ?thesis using last r' st by (simp add: fr)
  next
    case middle
    then have "ReadRecord_loop in_frag r = ReadRecord_loop True (r'\<lparr>lr_res := lr_res r @ p\<rparr>)"
      using r' by (subst ReadRecord_loop.simps) (simp add: Let_def)
    then show ?thesis
      using Cons.IH [OF st, of True "lr_res r @ p"] middle r'(3)
      by (simp add: fr cong: option.case_cong)
  qed
qed

lemma ReadRecord_stands:
  assumes "lr_stands r fs"
  shows "case next_record None fs of
      None \<Rightarrow> \<exists>r'. ReadRecord r = Some (None, r') \<and> lr_valid_end r' = lr_end r fs
    | Some (x, fs') \<Rightarrow> \<exists>r'. ReadRecord r = Some (Some x, r') \<and> lr_stands r' fs' \<and>
        lr_end r' fs' = lr_end r fs"
  using ReadRecord_loop_stands [OF lr_stands_res [OF assms], of False "[]"]
  unfolding ReadRecord_def lr_end_res if_False .

text \<open>What survives a cut.\<close>

lemma survives_Nil: "pos \<le> kBlockSize \<Longrightarrow> survives pos [] []"
proof -
  assume "pos \<le> kBlockSize"
  then have "frag_fits pos (kFullType, [])" by (auto simp: frag_fits_def pad_off_def kBlockSize_def kHeaderSize_def kFullType_def kLastType_def)
  then show ?thesis
    by (simp only: survives.simps) (rule exI, rule exI [of _ 0], erule conjI, simp add: kHeaderSize_def)
qed

lemma survives_take:
  assumes "fits off fs"
  shows "\<exists>j \<le> length fs. survives off (take n (layout off fs)) (take j fs) \<and>
    length (layout off (take j fs)) \<le> n \<and>
    (\<forall>i \<le> length fs. length (layout off (take i fs)) \<le> n \<longrightarrow> i \<le> j)"
  using assms
proof (induction fs arbitrary: off n)
  case Nil
  then show ?case using survives_Nil by simp
next
  case (Cons fr fs)
  let ?l = "pad_len off + length (enc_phys fr)"
  show ?case
  proof (cases "n < ?l")
    case True
    then have "take n (layout off (fr # fs)) = take n (replicate (pad_len off) 0 @ enc_phys fr)"
      by simp
    then have "survives off (take n (layout off (fr # fs))) (take 0 (fr # fs))"
      using True Cons.prems unfolding take_0 survives.simps fits.simps by blast
    moreover have "i = 0" if "length (layout off (take i (fr # fs))) \<le> n" for i
      using that True by (cases i) auto
    ultimately show ?thesis by (intro exI [of _ 0]) auto
  next
    case False
    then obtain m where n: "n = ?l + m" using le_Suc_ex not_less by blast
    obtain j where j: "j \<le> length fs" "survives (next_off off fr) (take m (layout (next_off off fr) fs)) (take j fs)"
      "length (layout (next_off off fr) (take j fs)) \<le> m"
      "\<forall>i \<le> length fs. length (layout (next_off off fr) (take i fs)) \<le> m \<longrightarrow> i \<le> j"
      using Cons.IH [of "next_off off fr" m] Cons.prems by auto
    have "take n (layout off (fr # fs)) =
        replicate (pad_len off) 0 @ enc_phys fr @ take m (layout (next_off off fr) fs)"
      by (simp add: n)
    then have "survives off (take n (layout off (fr # fs))) (take (Suc j) (fr # fs))"
      using j(2) Cons.prems unfolding take_Suc_Cons survives.simps fits.simps by blast
    moreover have "i \<le> Suc j" if "i \<le> length (fr # fs)" "length (layout off (take i (fr # fs))) \<le> n" for i
      using that j(4) n by (cases i) auto
    ultimately show ?thesis using j(1,3) n by (intro exI [of _ "Suc j"]) auto
  qed
qed

section \<open>Arbitrary files\<close>

text \<open>
  On any file at all \<open>ReadRecord\<close> returns, and the physical records it accepts are,
  byte for byte, records with a valid checksum.
\<close>

lemma Refill_limit: "lr_limit r \<le> kBlockSize \<Longrightarrow> lr_limit (snd (Refill r)) \<le> kBlockSize"
  by (auto simp: Refill_def Let_def fread_def)

lemma ReadPhysicalRecord_left:
  assumes "ReadPhysicalRecord r = (x, r')" "lr_limit r \<le> kBlockSize"
  shows "lr_limit r' \<le> kBlockSize \<and>
    (case x of kOk t p \<Rightarrow> lr_left r' < lr_left r
     | kBad \<Rightarrow> lr_left (r'\<lparr>lr_pos := kBlockSize\<rparr>) < lr_left r | kEof \<Rightarrow> True)"
  using assms
proof (induction r arbitrary: x r' rule: ReadPhysicalRecord.induct)
  case (1 r)
  show ?case
  proof (cases "lr_pos r + kHeaderSize > lr_limit r \<and> \<not> lr_eof r")
    case True
    let ?r1 = "r\<lparr>lr_pos := lr_limit r\<rparr>"
    obtain b r2 where rf: "Refill ?r1 = (b, r2)" by fastforce
    have lim: "lr_limit r2 \<le> kBlockSize" using Refill_limit [of ?r1] 1(3) rf by simp
    have left: "lr_left r2 \<le> lr_left r"
      using Refill_left [OF rf] True by (simp add: lr_left_def)
    show ?thesis
    proof (cases b)
      case False
      then show ?thesis using 1(2) True rf lim by (subst (asm) ReadPhysicalRecord.simps) (auto simp: Let_def)
    next
      case b: True
      have "ReadPhysicalRecord r2 = (x, r')"
        using 1(2) True rf b by (subst (asm) ReadPhysicalRecord.simps) (simp add: Let_def)
      from 1(1) [OF conjunct1 [OF True] conjunct2 [OF True] refl refl rf [symmetric] _ this lim] b left show ?thesis
        by (auto split: ReadResult.splits)
    qed
  next
    case False
    then show ?thesis
      using 1(2,3)
      by (subst (asm) ReadPhysicalRecord.simps) (auto simp: Let_def lr_left_def kHeaderSize_def split: if_splits)
  qed
qed

lemma lr_left_res [simp]: "lr_left (r\<lparr>lr_res := x\<rparr>) = lr_left r"
  by (simp add: lr_left_def)

lemma ReadRecord_loop_total:
  assumes "lr_limit r \<le> kBlockSize"
  shows "\<exists>x r'. ReadRecord_loop in_frag r = Some (x, r') \<and> lr_limit r' \<le> kBlockSize \<and>
    (x \<noteq> None \<longrightarrow> lr_left r' < lr_left r)"
  using assms
proof (induction "lr_left r" arbitrary: r in_frag rule: less_induct)
  case less
  obtain y r1 where y: "ReadPhysicalRecord r = (y, r1)" by fastforce
  note l = ReadPhysicalRecord_left [OF y less.prems]
  have more: "\<exists>x r'. ReadRecord_loop b r2 = Some (x, r') \<and> lr_limit r' \<le> kBlockSize \<and>
      (x \<noteq> None \<longrightarrow> lr_left r' < lr_left r)"
    if "lr_left r2 < lr_left r" "lr_limit r2 \<le> kBlockSize" for b r2
    using less.hyps [OF that, of b] that by (metis order.strict_trans)
  show ?case
  proof (cases y)
    case (kOk t p)
    then show ?thesis
      using y l more [of r1 in_frag] more [of "r1\<lparr>lr_res := p\<rparr>" True] more [of "r1\<lparr>lr_res := lr_res r1 @ p\<rparr>" in_frag]
      by (subst ReadRecord_loop.simps) (auto simp: Let_def)
  next
    case kBad
    then show ?thesis
      using y l more [of "r1\<lparr>lr_res := [], lr_pos := kBlockSize\<rparr>" False]
      by (subst ReadRecord_loop.simps) (simp add: lr_left_def)
  next
    case kEof
    then show ?thesis using y l by (subst ReadRecord_loop.simps) simp
  qed
qed

text \<open>A header and payload that pass the checks are those of a physical record.\<close>

lemma header_len_bytes:
  fixes a b :: byte
  defines "n \<equiv> unat ((ucast a :: u32) OR push_bit 8 (ucast b))"
  shows "word_of_nat n = a" "word_of_nat (n div 256) = b"
proof -
  let ?w = "(ucast a :: u32) OR push_bit 8 (ucast b)"
  have "word_of_nat n = (ucast ?w :: byte)" by (simp only: n_def of_nat_unat)
  also have "\<dots> = a" by (rule bit_word_eqI) (auto simp: bit_simps)
  finally show "word_of_nat n = a" .
  have "n div 256 = unat (drop_bit 8 ?w)" by (simp only: n_def) (simp add: drop_bit_eq_div unat_div)
  then have "word_of_nat (n div 256) = (ucast (drop_bit 8 ?w) :: byte)"
    by (simp only: of_nat_unat)
  also have "\<dots> = b" by (rule bit_word_eqI) (auto simp: bit_simps dest: bit_imp_le_length)
  finally show "word_of_nat (n div 256) = b" .
qed

lemma accepted_bytes:
  fixes h :: bytes
  defines "len \<equiv> unat ((ucast (h ! 4) :: u32) OR push_bit 8 (ucast (h ! 5)))"
  assumes "kHeaderSize + len \<le> length h"
    and "MaskCrc32c (Extend (Value [h ! 6]) (take len (drop kHeaderSize h))) = DecodeFixed32 h"
  shows "h = enc_phys (h ! 6, take len (drop kHeaderSize h)) @ drop (kHeaderSize + len) h"
proof -
  let ?p = "take len (drop kHeaderSize h)"
  have l: "length ?p = len" using assms(2) by simp
  have "EncodeFixed32 (DecodeFixed32 h) = take 4 h"
    using EncodeFixed32_Decode [of "take 4 h"] assms(2) by (simp add: DecodeFixed32_take kHeaderSize_def)
  then have crc: "EncodeFixed32 (MaskCrc32c (Value (h ! 6 # ?p))) = take 4 h"
    using assms(3) by (simp add: Extend_Value)
  have lb: "word_of_nat len = h ! 4" "word_of_nat (len div 256) = h ! 5"
    unfolding len_def by (rule header_len_bytes)+
  have "h = take 4 h @ drop 4 h" by simp
  also have "drop 4 h = h ! 4 # h ! 5 # h ! 6 # drop 7 h"
    using assms(2) by (simp add: Cons_nth_drop_Suc kHeaderSize_def numeral_eq_Suc)
  also have "drop 7 h = ?p @ drop (kHeaderSize + len) h"
    by (metis append_take_drop_id drop_drop add.commute kHeaderSize_def numeral_plus_numeral
        semiring_norm(2,4,5,6,8,10) numeral_One)
  finally show ?thesis
    unfolding enc_phys_def fst_conv snd_conv crc l lb by simp
qed

definition in_file :: "bytes \<Rightarrow> frag \<Rightarrow> bool" where
  "in_file f fr \<longleftrightarrow> (\<exists>pre post. f = pre @ enc_phys fr @ post)"

lemma record_type_cases:
  assumes "t \<noteq> kZeroType" "\<not> kLastType < t"
  shows "t = kFullType \<or> t = kFirstType \<or> t = kMiddleType \<or> t = kLastType"
proof -
  have "unat t \<le> 4" using assms(2) by (simp add: kLastType_def word_less_nat_alt)
  moreover have "unat t \<noteq> 0" using assms(1) by (simp add: kZeroType_def unat_eq_0)
  ultimately have "unat t = 1 \<or> unat t = 2 \<or> unat t = 3 \<or> unat t = 4" by linarith
  then have "unat t = unat (1 :: byte) \<or> unat t = unat (2 :: byte) \<or> unat t = unat (3 :: byte) \<or>
      unat t = unat (4 :: byte)" by simp
  then show ?thesis by (simp only: word_unat_eq_iff [symmetric] record_types)
qed

lemma read_phys_accepts:
  assumes "ReadPhysicalRecord (lr_at f base pos ve res) = (x, r')"
  shows "(\<exists>base' pos' ve'. r' = lr_at f base' pos' ve' res) \<and>
    (\<forall>t p. x = kOk t p \<longrightarrow> t \<noteq> kZeroType \<and> \<not> kLastType < t \<and> in_file f (t, p))"
  using assms
proof (induction "unread (lr_at f base pos ve res)" arbitrary: base pos rule: less_induct)
  case less
  let ?r = "lr_at f base pos ve res" and ?b = "take kBlockSize (drop base f)"
  let ?h = "drop pos ?b"
  let ?len = "unat ((ucast (?h ! 4) :: u32) OR push_bit 8 (ucast (?h ! 5)))"
  let ?p = "take ?len (drop kHeaderSize ?h)"
  consider (eof) "length ?b < pos + kHeaderSize" "length ?b < kBlockSize"
    | (refill) "length ?b < pos + kHeaderSize" "length ?b = kBlockSize"
    | (here) "pos + kHeaderSize \<le> length ?b" by fastforce
  then show ?case
  proof cases
    case eof
    then have "ReadPhysicalRecord ?r = (kEof, ?r)"
      by (subst ReadPhysicalRecord.simps) (simp del: length_take length_drop)
    then show ?thesis using less.prems by auto
  next
    case refill
    let ?r2 = "lr_at f (base + kBlockSize) 0 ve res"
    have "ReadPhysicalRecord ?r =
        (if drop (base + kBlockSize) f = [] then (kEof, ?r2) else ReadPhysicalRecord ?r2)"
      using refill Refill_at [OF refill(2), of kBlockSize ve res]
      by (subst ReadPhysicalRecord.simps) (simp add: Let_def del: length_take length_drop)
    moreover have "unread ?r2 < unread ?r"
      using refill Refill_unread [of ?r _ ?r2] Refill_at [OF refill(2), of pos ve res] by simp
    ultimately show ?thesis using less.prems less.hyps [of "base + kBlockSize" 0] by (auto split: if_splits)
  next
    case here
    show ?thesis
    proof (cases "pos + kHeaderSize + ?len \<le> length ?b \<and> ?h ! 6 \<noteq> kZeroType \<and> \<not> kLastType < ?h ! 6 \<and>
        MaskCrc32c (Extend (Value [?h ! 6]) ?p) = DecodeFixed32 ?h")
      case True
      have run: "ReadPhysicalRecord ?r = (kOk (?h ! 6) ?p,
          lr_at f base (pos + (kHeaderSize + ?len)) (base + (pos + (kHeaderSize + ?len))) res)"
        using here True
        by (subst ReadPhysicalRecord.simps) (simp add: Let_def not_less del: length_take length_drop nth_drop drop_drop)
      have "kHeaderSize + ?len \<le> length ?h"
        using conjunct1 [OF True] unfolding length_drop by linarith
      from accepted_bytes [OF this] True
      have "?h = enc_phys (?h ! 6, ?p) @ drop (kHeaderSize + ?len) ?h" by blast
      moreover have "\<exists>pre post. f = pre @ ?h @ post"
        by (metis append_take_drop_id append_assoc)
      ultimately have "in_file f (?h ! 6, ?p)"
        unfolding in_file_def by (metis append_assoc)
      then show ?thesis using True run less.prems by auto
    next
      case False
      then have "ReadPhysicalRecord ?r = (kEof, ?r) \<or> ReadPhysicalRecord ?r = (kBad, ?r)"
        using here by (subst (1 2) ReadPhysicalRecord.simps) (auto simp: Let_def not_less simp del: length_take length_drop nth_drop drop_drop)
      then show ?thesis using less.prems by auto
    qed
  qed
qed

lemma lr_left_at: "lr_left (lr_at f base pos ve res) = lr_left (lr_at f base pos ve' res')"
  by (simp add: lr_left_def lr_at_def Let_def)

text \<open>A whole logical record is the payload of one chain of such physical records.\<close>

definition genuine :: "bytes \<Rightarrow> bytes \<Rightarrow> bool" where
  "genuine f x \<longleftrightarrow> (\<exists>fs. chain fs \<and> payload fs = x \<and> list_all (in_file f) fs)"

definition pending :: "bytes \<Rightarrow> bytes \<Rightarrow> bool" where
  "pending f res \<longleftrightarrow> (\<exists>p ms. res = p @ concat ms \<and> in_file f (kFirstType, p) \<and>
     list_all (\<lambda>m. in_file f (kMiddleType, m)) ms)"

lemma pending_step:
  assumes "pending f res"
  shows "in_file f (kMiddleType, m) \<Longrightarrow> pending f (res @ m)"
    and "in_file f (kLastType, m) \<Longrightarrow> genuine f (res @ m)"
proof -
  obtain p ms where r: "res = p @ concat ms" "in_file f (kFirstType, p)"
    "list_all (\<lambda>m. in_file f (kMiddleType, m)) ms" using assms by (auto simp: pending_def)
  show "pending f (res @ m)" if "in_file f (kMiddleType, m)"
    unfolding pending_def using r that by (intro exI [of _ p] exI [of _ "ms @ [m]"]) simp
  show "genuine f (res @ m)" if "in_file f (kLastType, m)"
    unfolding genuine_def using r that
    by (intro exI [of _ "(kFirstType, p) # map (Pair kMiddleType) ms @ [(kLastType, m)]"])
      (auto simp: chain_def payload_def list_all_iff comp_def)
qed

lemma ReadRecord_loop_genuine:
  assumes "ReadRecord_loop in_frag (lr_at f base pos ve res) = Some (x, r')" "in_frag \<longrightarrow> pending f res"
  shows "(\<exists>base' pos' ve' res'. r' = lr_at f base' pos' ve' res') \<and> (\<forall>y. x = Some y \<longrightarrow> genuine f y)"
  using assms
proof (induction "lr_left (lr_at f base pos ve res)" arbitrary: base pos ve res in_frag rule: less_induct)
  case less
  obtain y r1 where y: "ReadPhysicalRecord (lr_at f base pos ve res) = (y, r1)" by fastforce
  from read_phys_accepts [OF y] obtain base1 pos1 ve1 where r1: "r1 = lr_at f base1 pos1 ve1 res" by blast
  note l = ReadPhysicalRecord_left [OF y, simplified]
  note run = less.prems(1) [unfolded ReadRecord_loop.simps [of in_frag "lr_at f base pos ve res"] y r1]
  show ?case
  proof (cases y)
    case (kOk t p)
    have t: "t \<noteq> kZeroType" "\<not> kLastType < t" and p: "in_file f (t, p)"
      using read_phys_accepts [OF y] kOk by auto
    have dec: "lr_left (lr_at f base1 pos1 ve1 z) < lr_left (lr_at f base pos ve res)" for z
      using l kOk r1 lr_left_at [of f base1 pos1 ve1 z ve1 res] by simp
    note IH = less.hyps [OF dec]
    consider (full) "t = kFullType" | (first) "t = kFirstType" | (orphan) "t \<noteq> kFullType" "t \<noteq> kFirstType" "\<not> in_frag"
      | (last) "t = kLastType" in_frag | (middle) "t = kMiddleType" in_frag
      using record_type_cases [OF t] by blast
    then show ?thesis
    proof cases
      case full
      then have "x = Some p" "\<exists>z. r' = lr_at f base1 pos1 ve1 z"
        using run kOk by (auto split: if_splits)
      moreover have "genuine f p" using p full unfolding genuine_def
        by (intro exI [of _ "[(kFullType, p)]"]) (simp add: chain_def payload_def)
      ultimately show ?thesis by blast
    next
      case first
      then have "pending f p" using p unfolding pending_def by (intro exI [of _ p] exI [of _ "[]"]) simp
      then show ?thesis using run kOk first IH [of True p] by simp
    next
      case orphan
      then show ?thesis using run kOk IH [of in_frag res] by simp
    next
      case last
      then show ?thesis
        using run kOk less.prems(2) p pending_step(2) [of f res p] by (auto simp: Let_def)
    next
      case middle
      then show ?thesis
        using run kOk less.prems(2) p pending_step(1) [of f res p] IH [of True "res @ p"] by (auto simp: Let_def)
    qed
  next
    case kBad
    then have "lr_left (lr_at f base1 kBlockSize ve1 []) < lr_left (lr_at f base pos ve res)"
      using l r1 lr_left_at [of f base1 kBlockSize ve1 "[]" ve1 res] by simp
    then show ?thesis using run kBad less.hyps [of base1 kBlockSize ve1 "[]" False] by simp
  next
    case kEof
    then show ?thesis using run by auto
  qed
qed

section \<open>Reads that fail\<close>

text \<open>
  A read that comes back short, for whatever reason, is the end of the file for the reader:
  it returns what it would return of the file cut at that point.
\<close>

function read_cut :: "Reads \<Rightarrow> bytes \<Rightarrow> nat \<Rightarrow> nat" where
  "read_cut rd f pos =
     (let n = length (fread rd kBlockSize pos f)
      in if n < kBlockSize then pos + n else read_cut rd f (pos + n))"
  by pat_completeness auto
termination
  by (relation "measure (\<lambda>(rd, f, pos). length f - pos)") (auto simp: fread_def kBlockSize_def)

declare read_cut.simps [simp del]

lemma read_cut_ge: "pos \<le> read_cut rd f pos"
proof (induction rd f pos rule: read_cut.induct)
  case (1 rd f pos)
  then show ?case by (subst read_cut.simps) (fastforce simp: Let_def)
qed

lemma fread_cut:
  assumes "k = read_cut rd f pos"
  shows "fread all_read kBlockSize pos (take k f) = fread rd kBlockSize pos f"
proof -
  let ?b = "fread rd kBlockSize pos f"
  have b: "?b = take (length ?b) (drop pos f)" by (simp add: fread_def min_def)
  have l: "length ?b \<le> kBlockSize" by (simp add: fread_def)
  show ?thesis
  proof (cases "length ?b < kBlockSize")
    case True
    then have "k = pos + length ?b" using assms by (subst (asm) read_cut.simps) (simp add: Let_def)
    then show ?thesis using b True by (simp add: drop_take min_absorb2)
  next
    case False
    then have "length ?b = kBlockSize" using l by simp
    moreover from this have "pos + kBlockSize \<le> k"
      using assms read_cut_ge [of "pos + kBlockSize" rd f] by (subst (asm) read_cut.simps) (simp add: Let_def)
    ultimately show ?thesis using b by (simp add: drop_take)
  qed
qed

definition with_reads :: "Reads \<Rightarrow> bytes \<Rightarrow> LogReader \<Rightarrow> LogReader" where
  "with_reads rd f r = r\<lparr>lr_file := f, lr_read := rd\<rparr>"

definition reads_cut :: "Reads \<Rightarrow> bytes \<Rightarrow> nat \<Rightarrow> LogReader \<Rightarrow> bool" where
  "reads_cut rd f k r \<longleftrightarrow> lr_read r = all_read \<and> lr_file r = take k f \<and>
     (\<not> lr_eof r \<longrightarrow> k = read_cut rd f (lr_fpos r))"

lemma with_reads_simps [simp]:
  "lr_pos (with_reads rd f r) = lr_pos r" "lr_eof (with_reads rd f r) = lr_eof r" "lr_base (with_reads rd f r) = lr_base r"
  "lr_res (with_reads rd f r) = lr_res r" "buffer (with_reads rd f r) = buffer r"
  "lr_valid_end (with_reads rd f r) = lr_valid_end r"
  "with_reads rd f r\<lparr>lr_pos := pos\<rparr> = with_reads rd f (r\<lparr>lr_pos := pos\<rparr>)"
  "with_reads rd f r\<lparr>lr_res := res\<rparr> = with_reads rd f (r\<lparr>lr_res := res\<rparr>)"
  "with_reads rd f r\<lparr>lr_valid_end := ve\<rparr> = with_reads rd f (r\<lparr>lr_valid_end := ve\<rparr>)"
  by (simp_all add: with_reads_def)

lemma reads_cut_simps [simp]:
  "reads_cut rd f k (r\<lparr>lr_pos := pos\<rparr>) = reads_cut rd f k r"
  "reads_cut rd f k (r\<lparr>lr_res := res\<rparr>) = reads_cut rd f k r"
  "reads_cut rd f k (r\<lparr>lr_valid_end := ve\<rparr>) = reads_cut rd f k r"
  by (simp_all add: reads_cut_def)

lemma Refill_with_reads:
  assumes "reads_cut rd f k r"
  shows "Refill (with_reads rd f r) = apsnd (with_reads rd f) (Refill r) \<and> reads_cut rd f k (snd (Refill r))"
proof (cases "lr_eof r")
  case True
  then show ?thesis using assms by (simp add: Refill_def)
next
  case False
  then have k: "k = read_cut rd f (lr_fpos r)" using assms by (simp add: reads_cut_def)
  let ?b = "fread rd kBlockSize (lr_fpos r) f"
  have b: "fread (lr_read r) kBlockSize (lr_fpos r) (lr_file r) = ?b"
    using assms fread_cut [OF k] by (simp add: reads_cut_def)
  have next_k: "k = read_cut rd f (lr_fpos r + length ?b)" if "\<not> length ?b < kBlockSize"
    using k that by (subst (asm) read_cut.simps) (simp add: Let_def)
  let ?r = "r\<lparr>lr_base := lr_base r + lr_limit r, buffer := ?b, lr_fpos := lr_fpos r + length ?b, lr_pos := 0,
    lr_eof := length ?b < kBlockSize\<rparr>"
  have run: "Refill r = (length ?b > 0, ?r)"
    using False unfolding Refill_def Let_def b by (cases r) simp
  have "Refill (with_reads rd f r) = (length ?b > 0, with_reads rd f ?r)"
    using False unfolding Refill_def Let_def by (cases r) (simp add: with_reads_def)
  moreover have "reads_cut rd f k ?r"
    unfolding reads_cut_def
  proof (intro conjI impI)
    show "lr_read ?r = all_read" "lr_file ?r = take k f" using assms by (simp_all add: reads_cut_def)
    assume "\<not> lr_eof ?r"
    then have "k = read_cut rd f (lr_fpos r + length ?b)" using next_k by simp
    then show "k = read_cut rd f (lr_fpos ?r)" by simp
  qed
  ultimately show ?thesis using run by simp
qed

lemma ReadPhysicalRecord_with_reads:
  assumes "reads_cut rd f k r"
  shows "ReadPhysicalRecord (with_reads rd f r) = apsnd (with_reads rd f) (ReadPhysicalRecord r) \<and>
    reads_cut rd f k (snd (ReadPhysicalRecord r))"
  using assms
proof (induction r rule: ReadPhysicalRecord.induct)
  case (1 r)
  show ?case
  proof (cases "lr_pos r + kHeaderSize > lr_limit r \<and> \<not> lr_eof r")
    case True
    let ?r1 = "r\<lparr>lr_pos := lr_limit r\<rparr>"
    obtain b r2 where rf: "Refill ?r1 = (b, r2)" by fastforce
    have rf': "Refill (with_reads rd f ?r1) = (b, with_reads rd f r2)" "reads_cut rd f k r2"
      using Refill_with_reads [of rd f k ?r1] 1(2) rf by simp_all
    have s: "ReadPhysicalRecord r = (if \<not> b then (kEof, r2) else ReadPhysicalRecord r2)"
      "ReadPhysicalRecord (with_reads rd f r) =
        (if \<not> b then (kEof, with_reads rd f r2) else ReadPhysicalRecord (with_reads rd f r2))"
      using True rf rf' by (subst ReadPhysicalRecord.simps, simp add: Let_def)+
    show ?thesis
    proof (cases b)
      case b: True
      from 1(1) [OF conjunct1 [OF True] conjunct2 [OF True] refl refl rf [symmetric] _ rf'(2)] b show ?thesis
        by (simp add: s)
    qed (simp add: s rf'(2))
  next
    case False
    then show ?thesis
      unfolding ReadPhysicalRecord.simps [of "with_reads rd f r"] ReadPhysicalRecord.simps [of r]
      using 1(2) by (simp add: Let_def)
  qed
qed

lemma ReadRecord_with_reads:
  assumes "reads_cut rd f k r" "ReadRecord r = Some (x, r')" "lr_limit r \<le> kBlockSize"
  shows "ReadRecord (with_reads rd f r) = Some (x, with_reads rd f r') \<and> reads_cut rd f k r'"
proof -
  have "ReadRecord_loop in_frag (with_reads rd f r) = Some (x, with_reads rd f r') \<and> reads_cut rd f k r'"
    if "reads_cut rd f k r" "ReadRecord_loop in_frag r = Some (x, r')" "lr_limit r \<le> kBlockSize" for in_frag r
    using that
  proof (induction "lr_left r" arbitrary: r in_frag rule: less_induct)
    case less
    obtain y r1 where y: "ReadPhysicalRecord r = (y, r1)" by fastforce
    have y': "ReadPhysicalRecord (with_reads rd f r) = (y, with_reads rd f r1)" "reads_cut rd f k r1"
      using ReadPhysicalRecord_with_reads [OF less.prems(1)] y by simp_all
    note l = ReadPhysicalRecord_left [OF y less.prems(3)]
    show ?case
    proof (cases y)
      case (kOk t p)
      have left: "lr_left r1 < lr_left r" "lr_limit r1 \<le> kBlockSize" using l kOk by simp_all
      show ?thesis
        using less.prems(2) y y' kOk left less.hyps [of r1 in_frag] less.hyps [of "r1\<lparr>lr_res := p\<rparr>" True]
          less.hyps [of "r1\<lparr>lr_res := lr_res r1 @ p\<rparr>" in_frag]
        by (subst ReadRecord_loop.simps, subst (asm) ReadRecord_loop.simps) (auto simp: Let_def split: if_splits)
    next
      case kBad
      then show ?thesis
        using less.prems(2) y y' l less.hyps [of "r1\<lparr>lr_res := [], lr_pos := kBlockSize\<rparr>" False]
        by (subst ReadRecord_loop.simps, subst (asm) ReadRecord_loop.simps) (simp add: lr_left_def)
    next
      case kEof
      then show ?thesis
        using less.prems(2) y y' by (subst ReadRecord_loop.simps, subst (asm) ReadRecord_loop.simps) auto
    qed
  qed
  from this [of "r\<lparr>lr_res := []\<rparr>" False] show ?thesis using assms by (simp add: ReadRecord_def)
qed

lemma LogReader_new_with_reads:
  "LogReader_new rd f = with_reads rd f (LogReader_new all_read (take (read_cut rd f 0) f)) \<and>
   reads_cut rd f (read_cut rd f 0) (LogReader_new all_read (take (read_cut rd f 0) f))"
proof -
  let ?r = "\<lparr>lr_file = take (read_cut rd f 0) f, lr_read = all_read, lr_fpos = 0, buffer = [], lr_base = 0, lr_pos = 0,
     lr_eof = False, lr_valid_end = 0, lr_res = []\<rparr>"
  have "reads_cut rd f (read_cut rd f 0) ?r" by (simp add: reads_cut_def)
  from Refill_with_reads [OF this] show ?thesis by (simp add: LogReader_new_def with_reads_def)
qed

lemma LogReader_new_limit: "lr_limit (LogReader_new rd f) \<le> kBlockSize"
  unfolding LogReader_new_def by (rule Refill_limit) simp

end
