(* ===== verification/Wal.thy ===== *)
theory Wal
  imports LogWriter LogReader
begin

text \<open>
  The write-ahead log as a whole: what the reader of \<open>src/db/log_reader.cc\<close> returns of
  files the writer of \<open>src/db/log_writer.cc\<close> has written, after a crash, after a
  recovery that cuts the tail at \<open>valid_end\<close> and goes on, and of arbitrary files.  The
  interface \<open>record_source\<close> is what the recovery of the database uses of the reader.
\<close>

section \<open>The reader as a source of records\<close>

text \<open>
  \<open>stands r xs e\<close>: the records \<open>xs\<close> are still to come, and \<open>e\<close> will be \<open>valid_end\<close>.
\<close>

locale record_source =
  fixes stands :: "'r \<Rightarrow> bytes list \<Rightarrow> nat \<Rightarrow> bool"
    and read :: "'r \<Rightarrow> (bytes option \<times> 'r) option"
    and vend :: "'r \<Rightarrow> nat"
  assumes read_end: "stands r [] e \<Longrightarrow> \<exists>r'. read r = Some (None, r') \<and> vend r' = e"
    and read_next: "stands r (x # xs) e \<Longrightarrow> \<exists>r'. read r = Some (Some x, r') \<and> stands r' xs e"
begin

text \<open>\<open>n\<close> calls in a row.\<close>

fun reads :: "nat \<Rightarrow> 'r \<Rightarrow> (bytes list \<times> 'r) option" where
  "reads 0 r = Some ([], r)"
| "reads (Suc n) r =
     (case read r of
        Some (Some x, r) \<Rightarrow> map_option (\<lambda>(xs, r). (x # xs, r)) (reads n r)
      | Some (None, r) \<Rightarrow> Some ([], r)
      | None \<Rightarrow> None)"

lemma reads_stands:
  "stands r xs e \<Longrightarrow> length xs < n \<Longrightarrow> \<exists>r'. reads n r = Some (xs, r') \<and> vend r' = e"
proof (induction xs arbitrary: r n)
  case Nil
  then show ?case using read_end by (cases n) fastforce+
next
  case (Cons x xs)
  then obtain m where n: "n = Suc m" "length xs < m" by (cases n) auto
  obtain r1 where "read r = Some (Some x, r1)" "stands r1 xs e" using read_next [OF Cons.prems(1)] by blast
  then show ?case using Cons.IH [of r1 m] n by fastforce
qed

end

definition reader_stands :: "LogReader \<Rightarrow> bytes list \<Rightarrow> nat \<Rightarrow> bool" where
  "reader_stands r xs e \<longleftrightarrow> (\<exists>fs. lr_stands r fs \<and> xs = assemble None fs \<and> e = lr_end r fs)"

interpretation log: record_source reader_stands ReadRecord lr_valid_end
proof unfold_locales
  fix r e assume "reader_stands r [] e"
  then obtain fs where fs: "lr_stands r fs" "assemble None fs = []" "e = lr_end r fs"
    by (auto simp: reader_stands_def)
  then have "next_record None fs = None"
    by (auto simp: assemble_next [of None fs] split: option.splits)
  then show "\<exists>r'. ReadRecord r = Some (None, r') \<and> lr_valid_end r' = e"
    using ReadRecord_stands [OF fs(1)] fs(3) by simp
next
  fix r x xs e assume "reader_stands r (x # xs) e"
  then obtain fs where fs: "lr_stands r fs" "assemble None fs = x # xs" "e = lr_end r fs"
    by (auto simp: reader_stands_def)
  then obtain fs' where n: "next_record None fs = Some (x, fs')" "xs = assemble None fs'"
    by (auto simp: assemble_next [of None fs] split: option.splits)
  obtain r' where "ReadRecord r = Some (Some x, r')" "lr_stands r' fs'" "lr_end r' fs' = lr_end r fs"
    using ReadRecord_stands [OF fs(1)] n(1) by auto
  then show "\<exists>r'. ReadRecord r = Some (Some x, r') \<and> reader_stands r' xs e"
    unfolding reader_stands_def using n(2) fs(3) by metis
qed

text \<open>All records of a file, and the \<open>valid_end\<close> at its end.\<close>

partial_function (option) read_all :: "LogReader \<Rightarrow> bytes list \<Rightarrow> (bytes list \<times> nat) option" where
  "read_all r acc =
     (case ReadRecord r of
        None \<Rightarrow> None
      | Some (None, r) \<Rightarrow> Some (acc, lr_valid_end r)
      | Some (Some x, r) \<Rightarrow> read_all r (acc @ [x]))"

definition read_log :: "Reads \<Rightarrow> bytes \<Rightarrow> (bytes list \<times> nat) option" where
  "read_log rd f = read_all (LogReader_new rd f) []"

lemma read_all_stands: "reader_stands r xs e \<Longrightarrow> read_all r acc = Some (acc @ xs, e)"
proof (induction xs arbitrary: r acc)
  case Nil
  then obtain r' where "ReadRecord r = Some (None, r')" "lr_valid_end r' = e" using log.read_end by blast
  then show ?case by (subst read_all.simps) simp
next
  case (Cons x xs)
  then obtain r' where "ReadRecord r = Some (Some x, r')" "reader_stands r' xs e" using log.read_next by blast
  then show ?case using Cons.IH by (subst read_all.simps) simp
qed

text \<open>A file that holds a cut layout.\<close>

lemma reader_of_cut:
  assumes "fits 0 fs"
  shows "\<exists>j \<le> length fs. reader_stands (LogReader_new all_read (take n (layout 0 fs)))
      (assemble None (take j fs)) (length (layout 0 (take j fs))) \<and>
    length (layout 0 (take j fs)) \<le> n \<and>
    (\<forall>i \<le> length fs. length (layout 0 (take i fs)) \<le> n \<longrightarrow> i \<le> j)"
proof -
  obtain j where j: "j \<le> length fs" "survives 0 (take n (layout 0 fs)) (take j fs)"
    "length (layout 0 (take j fs)) \<le> n"
    "\<forall>i \<le> length fs. length (layout 0 (take i fs)) \<le> n \<longrightarrow> i \<le> j"
    using survives_take [OF assms] by blast
  let ?r = "LogReader_new all_read (take n (layout 0 fs))"
  have "lr_stands ?r (take j fs)"
    unfolding lr_stands_def lr_at_new using j(2)
    by (intro exI [of _ "take n (layout 0 fs)"] exI [of _ 0] exI [of _ "[]"]) simp
  moreover have "lr_end ?r (take j fs) = length (layout 0 (take j fs))"
    by (simp add: lr_end_def lr_at_new)
  ultimately show ?thesis using j unfolding reader_stands_def by metis
qed

lemma reader_of_layout:
  assumes "fits 0 fs"
  shows "reader_stands (LogReader_new all_read (layout 0 fs)) (assemble None fs) (length (layout 0 fs))"
proof -
  obtain j where j: "j \<le> length fs" "reader_stands (LogReader_new all_read (layout 0 fs))
      (assemble None (take j fs)) (length (layout 0 (take j fs)))"
    "\<forall>i \<le> length fs. length (layout 0 (take i fs)) \<le> length (layout 0 fs) \<longrightarrow> i \<le> j"
    using reader_of_cut [OF assms, of "length (layout 0 fs)"] by auto
  have "length fs \<le> j" using j(3) by simp
  then show ?thesis using j(2) by simp
qed

section \<open>Writing records\<close>

text \<open>The writer at the end of a file that holds exactly the fragments \<open>fs\<close>.\<close>

definition writer_at :: "LogWriter \<Rightarrow> frag list \<Rightarrow> bool" where
  "writer_at w fs \<longleftrightarrow> fits 0 fs \<and> content (lw_file w) = layout 0 fs \<and> block_offset w \<le> kBlockSize \<and>
     block_offset w mod kBlockSize = end_off 0 fs mod kBlockSize"

lemma writer_at_new: "writer_at (LogWriter_new fopen_new 0) []"
  by (simp add: writer_at_def LogWriter_new_def fopen_new_def)

text \<open>Reopening a file after a cut at a fragment.\<close>

lemma writer_at_reopen:
  assumes "fits 0 fs"
  shows "writer_at (LogWriter_new (fopen_append (layout 0 fs)) (length (layout 0 fs))) fs"
  using assms end_off_position [OF assms]
  by (simp add: writer_at_def LogWriter_new_def fopen_append_def mod_le_divisor kBlockSize_def)

lemma writer_at_frags:
  fixes data :: bytes
  assumes "writer_at w fs"
  defines "new \<equiv> frags_of (block_offset w) data True"
  shows "layout (block_offset w) new = layout (end_off 0 fs) new" "fits 0 (fs @ new)"
    "end_off (block_offset w) new = end_off (end_off 0 fs) new \<or> new = []" "chain new" "payload new = data"
proof -
  have off: "block_offset w \<le> kBlockSize" "end_off 0 fs \<le> kBlockSize" "fits 0 fs"
    "block_offset w mod kBlockSize = end_off 0 fs mod kBlockSize"
    using assms(1) fits_end by (auto simp: writer_at_def)
  show "layout (block_offset w) new = layout (end_off 0 fs) new"
    using layout_mod [OF off(1), of new] layout_mod [OF off(2), of new] off(4) by simp
  have "fits (block_offset w) new" unfolding new_def by (rule frags_of_fits [OF off(1)])
  then have "fits (end_off 0 fs) new"
    using fits_mod [OF off(1), of new] fits_mod [OF off(2), of new] off(4) by simp
  then show "fits 0 (fs @ new)" using off(3) by (simp add: fits_append)
  show "chain new" "payload new = data" by (simp_all add: new_def frags_of_chain frags_of_payload)
  have "next_off (block_offset w) f = next_off (end_off 0 fs) f" for f
  proof -
    have "pad_off (x mod kBlockSize) = pad_off x" if "x \<le> kBlockSize" for x
      using that by (cases "x = kBlockSize") (simp_all add: pad_block_end)
    then show ?thesis using off by (metis next_off_def)
  qed
  then show "end_off (block_offset w) new = end_off (end_off 0 fs) new \<or> new = []"
    by (cases new) simp_all
qed

text \<open>One \<open>AddRecord\<close>, successful or not.\<close>

lemma AddRecord_writer:
  assumes w: "writer_at w fs" and run: "LogWriter_AddRecord os data w = (s, w')"
  shows "\<exists>new k. chain new \<and> payload new = data \<and> fits 0 (fs @ new) \<and>
    content (lw_file w') = take k (layout 0 (fs @ new)) \<and> length (layout 0 fs) \<le> k \<and>
    content (lw_file w) = layout 0 fs \<and>
    (ok s \<longrightarrow> writer_at w' (fs @ new)) \<and>
    (flushed (lw_file w') = flushed (lw_file w) \<or> flushed (lw_file w') = length (content (lw_file w'))) \<and>
    (never_short os \<longrightarrow> ok s) \<and>
    (flushes os \<longrightarrow> ok s \<longrightarrow> flushed (lw_file w') = length (content (lw_file w'))) \<and>
    (\<not> ok s \<longrightarrow> k < length (layout 0 (fs @ new)) \<and> flushed (lw_file w') = flushed (lw_file w))"
proof -
  let ?new = "frags_of (block_offset w) data True"
  note new = writer_at_frags [OF w, of data]
  have ne: "?new \<noteq> []" using new(4) by (auto simp: chain_def)
  have off: "block_offset w \<le> kBlockSize" and c: "content (lw_file w) = layout 0 fs"
    using w by (auto simp: writer_at_def)
  obtain k where k: "content (lw_file w') = content (lw_file w) @ take k (layout (block_offset w) ?new)"
    "flushed (lw_file w') = flushed (lw_file w) \<or> flushed (lw_file w') = length (content (lw_file w'))"
    "ok s \<Longrightarrow> length (layout (block_offset w) ?new) \<le> k \<and> block_offset w' = end_off (block_offset w) ?new"
    "never_short os \<Longrightarrow> ok s"
    "flushes os \<Longrightarrow> ok s \<Longrightarrow> flushed (lw_file w') = length (content (lw_file w'))"
    "\<not> ok s \<Longrightarrow> k < length (layout (block_offset w) ?new) \<and> flushed (lw_file w') = flushed (lw_file w)"
    using AddRecord_spec [OF run off] by blast
  have lay: "layout 0 (fs @ ?new) = layout 0 fs @ layout (block_offset w) ?new"
    by (simp add: layout_append new(1))
  have "content (lw_file w') = take (length (layout 0 fs) + k) (layout 0 (fs @ ?new))"
    by (simp add: lay k(1) c)
  moreover have "writer_at w' (fs @ ?new)" if "ok s"
    using k(1,3) that new(2,3) ne lay c fits_end [OF new(2)]
    by (simp add: writer_at_def end_off_append)
  ultimately show ?thesis
    using new(2,4,5) k(2,4,5,6) c lay by (intro exI [of _ ?new] exI [of _ "length (layout 0 fs) + k"]) auto
qed

text \<open>Several records in a row, all reported successful.\<close>

fun write_all :: "Os \<Rightarrow> bytes list \<Rightarrow> LogWriter \<Rightarrow> LogWriter option" where
  "write_all os [] w = Some w"
| "write_all os (d # ds) w =
     (case LogWriter_AddRecord os d w of (s, w) \<Rightarrow> if ok s then write_all os ds w else None)"

lemma write_all_append:
  "write_all os (xs @ ys) w = Option.bind (write_all os xs w) (write_all os ys)"
  by (induction xs arbitrary: w) (auto split: prod.splits)

lemma write_all_writer:
  assumes "writer_at w fs" "write_all os ds w = Some w'"
  shows "\<exists>css. list_all chain css \<and> map payload css = ds \<and> writer_at w' (fs @ concat css) \<and>
    (\<forall>i \<le> length ds. \<exists>wi. write_all os (take i ds) w = Some wi \<and> writer_at wi (fs @ concat (take i css)))"
  using assms
proof (induction ds arbitrary: w fs)
  case Nil
  then show ?case by (intro exI [of _ "[]"]) simp
next
  case (Cons d ds)
  obtain s w1 where a: "LogWriter_AddRecord os d w = (s, w1)" by fastforce
  then have s: "ok s" "write_all os ds w1 = Some w'" using Cons.prems(2) by (auto split: if_splits)
  obtain new where new: "chain new" "payload new = d" "writer_at w1 (fs @ new)"
    using AddRecord_writer [OF Cons.prems(1) a] s(1) by blast
  from Cons.IH [OF new(3) s(2)] obtain css where css: "list_all chain css" "map payload css = ds"
    "writer_at w' ((fs @ new) @ concat css)"
    "\<And>i. i \<le> length ds \<Longrightarrow> \<exists>wi. write_all os (take i ds) w1 = Some wi \<and> writer_at wi ((fs @ new) @ concat (take i css))"
    by blast
  have "\<exists>wi. write_all os (take i (d # ds)) w = Some wi \<and> writer_at wi (fs @ concat (take i (new # css)))"
    if "i \<le> length (d # ds)" for i
    using that css(4) [of "i - 1"] a s(1) Cons.prems(1) by (cases i) auto
  then show ?case using new css(1-3) by (intro exI [of _ "new # css"]) simp
qed

lemma write_all_succeeds:
  assumes "never_short os" "writer_at w fs"
  shows "\<exists>w'. write_all os ds w = Some w'"
  using assms(2)
proof (induction ds arbitrary: w fs)
  case (Cons d ds)
  obtain s w1 where a: "LogWriter_AddRecord os d w = (s, w1)" by fastforce
  from AddRecord_writer [OF Cons.prems a] assms(1) obtain new where "ok s" "writer_at w1 (fs @ new)" by blast
  then show ?case using Cons.IH a by simp
qed simp

lemma write_all_flushed:
  assumes "flushes os" "writer_at w fs" "write_all os ds w = Some w'" "ds \<noteq> []"
  shows "flushed (lw_file w') = length (content (lw_file w'))"
  using assms(2-4)
proof (induction ds arbitrary: w fs)
  case (Cons d ds)
  obtain s w1 where a: "LogWriter_AddRecord os d w = (s, w1)" by fastforce
  then have s: "ok s" "write_all os ds w1 = Some w'" using Cons.prems(2) by (auto split: if_splits)
  from AddRecord_writer [OF Cons.prems(1) a] assms(1) s(1) obtain new where "writer_at w1 (fs @ new)"
    "flushed (lw_file w1) = length (content (lw_file w1))" by blast
  then show ?case using Cons.IH s by (cases ds) auto
qed simp

text \<open>A complete record is read whatever unfinished one is before it.\<close>

lemma assemble_append_chain:
  "chain cs \<Longrightarrow> assemble st (fs @ cs @ gs) = assemble st fs @ payload cs # assemble None gs"
  by (induction st fs rule: assemble.induct) (auto simp: assemble_chain split: option.splits)

lemma assemble_append_chains:
  "list_all chain css \<Longrightarrow> assemble None (fs @ concat css) = assemble None fs @ map payload css"
proof (induction css rule: rev_induct)
  case (snoc cs css)
  then show ?case using assemble_append_chain [of cs None "fs @ concat css" "[]"] by simp
qed simp

section \<open>Logs that were cut\<close>

definition new_log :: LogWriter where
  "new_log = LogWriter_new fopen_new 0"

lemma layout_take:
  "layout off fs = layout off (take j fs) @ layout (end_off off (take j fs)) (drop j fs)"
  by (metis append_take_drop_id layout_append)

lemma layout_concat_take:
  "layout off (concat css) = layout off (concat (take i css)) @
     layout (end_off off (concat (take i css))) (concat (drop i css))"
  by (metis append_take_drop_id concat_append layout_append)

lemma read_log_of_chains:
  assumes "list_all chain css" "fits 0 (concat css)"
  shows "\<exists>k fs. k \<le> length css \<and> fits 0 fs \<and> assemble None fs = map payload (take k css) \<and>
    read_log all_read (take m (layout 0 (concat css))) = Some (map payload (take k css), length (layout 0 fs)) \<and>
    take (length (layout 0 fs)) (take m (layout 0 (concat css))) = layout 0 fs \<and>
    (\<forall>i \<le> length css. length (layout 0 (concat (take i css))) \<le> m \<longrightarrow> i \<le> k)"
proof -
  let ?l = "\<lambda>x. length (layout 0 x)"
  obtain j where j: "j \<le> length (concat css)"
    "reader_stands (LogReader_new all_read (take m (layout 0 (concat css)))) (assemble None (take j (concat css)))
      (?l (take j (concat css)))" "?l (take j (concat css)) \<le> m"
    "\<And>i. i \<le> length (concat css) \<Longrightarrow> ?l (take i (concat css)) \<le> m \<Longrightarrow> i \<le> j"
    using reader_of_cut [OF assms(2)] by blast
  obtain k where k: "k \<le> length css" "assemble None (take j (concat css)) = map payload (take k css)"
    "\<And>i. i \<le> length css \<Longrightarrow> length (concat (take i css)) \<le> j \<Longrightarrow> i \<le> k"
    using assemble_take_chains [OF assms(1)] by blast
  have "i \<le> k" if i: "i \<le> length css" "?l (concat (take i css)) \<le> m" for i
  proof -
    have "concat css = concat (take i css) @ concat (drop i css)" by (metis append_take_drop_id concat_append)
    then have "take (length (concat (take i css))) (concat css) = concat (take i css)"
      "length (concat (take i css)) \<le> length (concat css)" by (simp_all del: length_concat)
    then show ?thesis using j(4) k(3) i by metis
  qed
  moreover have "fits 0 (take j (concat css))"
    using assms(2) by (metis append_take_drop_id fits_append)
  moreover have "take (?l (take j (concat css))) (take m (layout 0 (concat css))) = layout 0 (take j (concat css))"
    using j(3) arg_cong [OF layout_take [of 0 "concat css" j], of "take (?l (take j (concat css)))"]
    by (simp add: min_absorb1)
  ultimately show ?thesis
    using k(1,2) read_all_stands [OF j(2), of "[]"] unfolding read_log_def by auto
qed

lemma cut_log:
  assumes w: "write_all os ds new_log = Some w" and a: "LogWriter_AddRecord os d w = (s, w')"
  obtains css k0 where "list_all chain css" "map payload css = ds @ [d]" "fits 0 (concat css)"
    "content (lw_file w') = take k0 (layout 0 (concat css))" "ok s \<Longrightarrow> length (layout 0 (concat css)) \<le> k0"
    "\<And>i wi. i \<le> length ds \<Longrightarrow> write_all os (take i ds) new_log = Some wi \<Longrightarrow>
      content (lw_file wi) = layout 0 (concat (take i css)) \<and> length (content (lw_file wi)) \<le> k0"
proof -
  obtain css where css: "list_all chain css" "map payload css = ds" "writer_at w (concat css)"
    "\<And>i. i \<le> length ds \<Longrightarrow> \<exists>wi. write_all os (take i ds) new_log = Some wi \<and> writer_at wi (concat (take i css))"
    using write_all_writer [OF writer_at_new, of os ds w] w unfolding new_log_def by auto
  obtain new k where new: "chain new" "payload new = d" "fits 0 (concat css @ new)"
    "content (lw_file w') = take k (layout 0 (concat css @ new))" "ok s \<Longrightarrow> writer_at w' (concat css @ new)"
    "length (layout 0 (concat css)) \<le> k"
    using AddRecord_writer [OF css(3) a] by blast
  have len: "length ds = length css" using css(2) by (metis length_map)
  have "length (layout 0 (concat css @ new)) \<le> k" if "ok s"
  proof -
    have "take k (layout 0 (concat css @ new)) = layout 0 (concat css @ new)"
      using new(4) new(5) [OF that] by (simp add: writer_at_def)
    then have "length (take k (layout 0 (concat css @ new))) = length (layout 0 (concat css @ new))" by simp
    then show ?thesis by (simp only: length_take)
  qed
  moreover have "content (lw_file wi) = layout 0 (concat (take i (css @ [new]))) \<and> length (content (lw_file wi)) \<le> k"
    if "i \<le> length ds" "write_all os (take i ds) new_log = Some wi" for i wi
  proof -
    have "length (layout 0 (concat (take i css))) \<le> length (layout 0 (concat css))"
      by (metis layout_concat_take length_append le_add1)
    then show ?thesis using css(4) [OF that(1)] that len new(6) by (auto simp: writer_at_def)
  qed
  moreover have "list_all chain (css @ [new])" "map payload (css @ [new]) = ds @ [d]"
    "concat (css @ [new]) = concat css @ new" using css(1,2) new(1,2) by simp_all
  ultimately show ?thesis using new(3,4) that [of "css @ [new]" k] by metis
qed

lemma cut_log_layout:
  assumes "write_all os ds new_log = Some w" "LogWriter_AddRecord os d w = (s, w')"
  shows "\<exists>css k0. list_all chain css \<and> fits 0 (concat css) \<and>
    content (lw_file w') = take k0 (layout 0 (concat css))"
  by (rule cut_log [OF assms]) blast

section \<open>Properties\<close>

text \<open>
  C22. The log survives being cut: after any records written successfully to a new log and
  one more whose writing may have failed part-way, any prefix of the file reads back as
  a prefix of the records; a record whose bytes are all in the prefix is among them, and
  \<open>valid_end\<close> lies in the file.
\<close>

theorem log_cut_reads_prefix:
  assumes "write_all os ds new_log = Some w" "LogWriter_AddRecord os d w = (s, w')"
  shows "\<exists>k e. read_log all_read (take n (content (lw_file w'))) = Some (take k (ds @ [d]), e) \<and>
    e \<le> length (take n (content (lw_file w'))) \<and>
    (\<forall>i wi. i \<le> length ds \<longrightarrow> write_all os (take i ds) new_log = Some wi \<longrightarrow>
      length (content (lw_file wi)) \<le> n \<longrightarrow> i \<le> k) \<and>
    (ok s \<longrightarrow> length (content (lw_file w')) \<le> n \<longrightarrow> length ds < k)"
proof -
  obtain css k0 where css: "list_all chain css" "map payload css = ds @ [d]" "fits 0 (concat css)"
    and c: "content (lw_file w') = take k0 (layout 0 (concat css))" "ok s \<Longrightarrow> length (layout 0 (concat css)) \<le> k0"
    and ci: "\<And>i wi. i \<le> length ds \<Longrightarrow> write_all os (take i ds) new_log = Some wi \<Longrightarrow>
      content (lw_file wi) = layout 0 (concat (take i css)) \<and> length (content (lw_file wi)) \<le> k0"
    using cut_log [OF assms] by blast
  have bs: "take n (content (lw_file w')) = take (min n k0) (layout 0 (concat css))" by (simp add: c)
  have len: "length css = Suc (length ds)" using css(2) by (metis length_append_singleton length_map)
  obtain k fs where k: "read_log all_read (take n (content (lw_file w'))) = Some (map payload (take k css), length (layout 0 fs))"
    "take (length (layout 0 fs)) (take n (content (lw_file w'))) = layout 0 fs"
    "\<And>i. i \<le> length css \<Longrightarrow> length (layout 0 (concat (take i css))) \<le> min n k0 \<Longrightarrow> i \<le> k"
    using read_log_of_chains [OF css(1,3), of "min n k0"] unfolding bs by blast
  have "length (layout 0 fs) \<le> length (take n (content (lw_file w')))"
    using k(2) by (metis length_take min.cobounded1 min.commute)
  moreover have "i \<le> k" if "i \<le> length ds" "write_all os (take i ds) new_log = Some wi"
    "length (content (lw_file wi)) \<le> n" for i wi
    using ci [OF that(1,2)] k(3) [of i] that len by auto
  moreover have "length ds < k" if "ok s" "length (content (lw_file w')) \<le> n"
    using k(3) [of "length css"] that c len by simp
  ultimately show ?thesis using k(1) unfolding css(2) [symmetric] take_map by blast
qed

lemma new_log_writes: "\<exists>w. write_all good_os ds new_log = Some w"
  using write_all_succeeds [OF good_os(1) writer_at_new] unfolding new_log_def by blast

theorem log_cut_reads_prefix_witness:
  "\<exists>w k e. write_all good_os [[1], [2, 3]] new_log = Some w \<and>
    read_log all_read (take 9 (content (lw_file (snd (LogWriter_AddRecord good_os [4] w))))) =
      Some (take k [[1], [2, 3], [4]], e) \<and> e \<le> 9"
proof -
  obtain w where w: "write_all good_os [[1], [2, 3]] new_log = Some w" using new_log_writes by blast
  let ?bs = "take 9 (content (lw_file (snd (LogWriter_AddRecord good_os [4] w))))"
  obtain k e where "read_log all_read ?bs = Some (take k ([[1], [2, 3]] @ [[4]]), e)" "e \<le> length ?bs"
    using log_cut_reads_prefix [OF w prod.collapse [symmetric], where d = "[4]" and n = 9] by metis
  then have "read_log all_read ?bs = Some (take k [[1], [2, 3], [4]], e)" "e \<le> 9" by simp_all
  then show ?thesis using w by blast
qed

text \<open>
  A record the log has acknowledged survives a crash of the process as long as no
  \<open>fflush\<close> fails: whatever prefix of the stream the crash leaves, beyond what was
  flushed, reads back as exactly the records acknowledged.
\<close>

theorem log_acknowledged_durable:
  assumes "flushes os" "write_all os (ds @ [d]) new_log = Some w" "crash_image (lw_file w) bs"
  shows "read_log all_read bs = Some (ds @ [d], length bs)"
proof -
  have wa: "writer_at new_log []" using writer_at_new by (simp add: new_log_def)
  obtain css where css: "list_all chain css" "map payload css = ds @ [d]" "writer_at w (concat css)"
    using write_all_writer [OF wa assms(2)] by auto
  have "flushed (lw_file w) = length (content (lw_file w))"
    using write_all_flushed [OF assms(1) wa assms(2)] by simp
  then have bs: "bs = layout 0 (concat css)" "fits 0 (concat css)"
    using assms(3) crash_image_flushed css(3) by (auto simp: writer_at_def)
  show ?thesis
    using read_all_stands [OF reader_of_layout [OF bs(2)], of "[]"] assemble_append_chains [OF css(1), of "[]"]
    by (simp add: read_log_def bs(1) css(2))
qed

theorem log_acknowledged_durable_witness:
  "\<exists>w. write_all good_os ([] @ [[7, 8]]) new_log = Some w \<and>
    read_log all_read (content (lw_file w)) = Some ([[7, 8]], length (content (lw_file w)))"
proof -
  obtain w where w: "write_all good_os ([] @ [[7, 8]]) new_log = Some w" using new_log_writes by blast
  have "writer_at new_log []" using writer_at_new by (simp add: new_log_def)
  from write_all_flushed [OF good_os(2) this w]
  have "crash_image (lw_file w) (content (lw_file w))" by (auto simp: crash_image_def)
  from log_acknowledged_durable [OF good_os(2) w this] w show ?thesis by simp
qed

text \<open>
  C21. Appending after a recovery is safe: if a cut log is truncated at \<open>valid_end\<close> and
  reopened, and more records are written, then the whole file reads back as the records
  that survived followed by the new ones, although an unfinished record may lie between.
\<close>

theorem log_append_after_recovery:
  assumes "write_all os ds new_log = Some w" "LogWriter_AddRecord os d w = (s, w')"
    and "read_log all_read (take n (content (lw_file w'))) = Some (xs, e)"
    and "write_all os' ds' (LogWriter_new (fopen_append (take e (take n (content (lw_file w'))))) e) = Some w2"
  shows "read_log all_read (content (lw_file w2)) = Some (xs @ ds', length (content (lw_file w2)))"
proof -
  obtain css k0 where css: "list_all chain css" "fits 0 (concat css)"
    and c: "content (lw_file w') = take k0 (layout 0 (concat css))"
    using cut_log_layout [OF assms(1,2)] by blast
  have bs: "take n (content (lw_file w')) = take (min n k0) (layout 0 (concat css))" by (simp add: c)
  obtain fs where fs: "fits 0 fs" "assemble None fs = xs" "e = length (layout 0 fs)"
    "take e (take n (content (lw_file w'))) = layout 0 fs"
    using read_log_of_chains [OF css(1,2), of "min n k0"] assms(3) unfolding bs by auto
  have reopened: "write_all os' ds' (LogWriter_new (fopen_append (layout 0 fs)) (length (layout 0 fs))) = Some w2"
    using assms(4) unfolding fs(4) by (simp only: fs(3))
  obtain css' where css': "list_all chain css'" "map payload css' = ds'" "writer_at w2 (fs @ concat css')"
    using write_all_writer [OF writer_at_reopen [OF fs(1)] reopened] by blast
  show ?thesis
    using read_all_stands [OF reader_of_layout [of "fs @ concat css'"], of "[]"]
      assemble_append_chains [OF css'(1), of fs] css'(2,3) fs(2)
    by (simp add: read_log_def writer_at_def)
qed

theorem log_append_after_recovery_witness:
  "\<exists>w xs e (w2 :: LogWriter). write_all good_os [[1]] new_log = Some w \<and>
    read_log all_read (take 10 (content (lw_file (snd (LogWriter_AddRecord good_os [2, 3] w))))) = Some (xs, e) \<and>
    read_log all_read (content (lw_file w2)) = Some (xs @ [[5]], length (content (lw_file w2)))"
proof -
  obtain w where w: "write_all good_os [[1]] new_log = Some w" using new_log_writes by blast
  let ?a = "LogWriter_AddRecord good_os [2, 3] w"
  let ?bs = "take 10 (content (lw_file (snd ?a)))"
  obtain css k0 where css: "list_all chain css" "fits 0 (concat css)"
    "content (lw_file (snd ?a)) = take k0 (layout 0 (concat css))"
    using cut_log_layout [OF w prod.collapse [symmetric]] by blast
  then obtain xs fs where r: "read_log all_read ?bs = Some (xs, length (layout 0 fs))" "fits 0 fs"
    "take (length (layout 0 fs)) ?bs = layout 0 fs"
    using read_log_of_chains [OF css(1,2), of "min 10 k0"] by auto
  obtain w2 where "write_all good_os [[5]] (LogWriter_new (fopen_append (take (length (layout 0 fs)) ?bs))
      (length (layout 0 fs))) = Some w2"
    using write_all_succeeds [OF good_os(1) writer_at_reopen [OF r(2)]] r(3) by metis
  from log_append_after_recovery [OF w prod.collapse [symmetric] r(1) this] w r(1) show ?thesis
    by (intro exI conjI)
qed

lemma read_log_total_genuine:
  "\<exists>xs e. read_log all_read f = Some (xs, e) \<and> (\<forall>x \<in> set xs. genuine f x)"
proof -
  have "\<exists>xs e. read_all (lr_at f base pos ve res) acc = Some (acc @ xs, e) \<and> (\<forall>x \<in> set xs. genuine f x)"
    for base pos ve res acc
  proof (induction "lr_left (lr_at f base pos ve res)" arbitrary: base pos ve res acc rule: less_induct)
    case less
    obtain x r where x: "ReadRecord_loop False (lr_at f base pos ve []) = Some (x, r)"
      "x \<noteq> None \<longrightarrow> lr_left r < lr_left (lr_at f base pos ve [])"
      using ReadRecord_loop_total [of "lr_at f base pos ve []" False] by auto
    obtain base' pos' ve' res' where r: "r = lr_at f base' pos' ve' res'" and g: "\<And>y. x = Some y \<Longrightarrow> genuine f y"
      using ReadRecord_loop_genuine [OF x(1)] by auto
    have run: "read_all (lr_at f base pos ve res) acc =
        (case x of None \<Rightarrow> Some (acc, lr_valid_end r) | Some y \<Rightarrow> read_all r (acc @ [y]))"
      by (subst read_all.simps) (simp add: ReadRecord_def x(1) split: option.split)
    show ?case
    proof (cases x)
      case None
      then show ?thesis using run by simp
    next
      case (Some y)
      then have "lr_left (lr_at f base' pos' ve' res') < lr_left (lr_at f base pos ve res)"
        using x(2) r lr_left_at [of f base pos ve res ve "[]"] by simp
      from less.hyps [OF this, of "acc @ [y]"] obtain xs e where
        "read_all r (acc @ [y]) = Some ((acc @ [y]) @ xs, e)" "\<forall>x \<in> set xs. genuine f x" unfolding r by blast
      then show ?thesis
        using run Some g [OF Some] by (intro exI [of _ "y # xs"] exI [of _ e]) simp
    qed
  qed
  from this [of 0 0 0 "[]" "[]"] show ?thesis by (simp add: read_log_def lr_at_new)
qed

text \<open>The reader stands before the records, whatever it reads them from.\<close>

fun reader_gives :: "LogReader \<Rightarrow> bytes list \<Rightarrow> nat \<Rightarrow> bool" where
  "reader_gives r [] e \<longleftrightarrow> (\<exists>r'. ReadRecord r = Some (None, r') \<and> lr_valid_end r' = e)"
| "reader_gives r (x # xs) e \<longleftrightarrow> (\<exists>r'. ReadRecord r = Some (Some x, r') \<and> reader_gives r' xs e)"

interpretation gives: record_source reader_gives ReadRecord lr_valid_end
  by unfold_locales simp_all

lemma reader_stands_gives: "reader_stands r xs e \<Longrightarrow> reader_gives r xs e"
  by (induction xs arbitrary: r) (auto dest: log.read_end log.read_next)

lemma read_all_gives: "reader_gives r xs e \<Longrightarrow> read_all r acc = Some (acc @ xs, e)"
proof (induction xs arbitrary: r acc)
  case Nil
  then obtain r' where "ReadRecord r = Some (None, r')" "lr_valid_end r' = e" by auto
  then show ?case by (subst read_all.simps) simp
next
  case (Cons x xs)
  then obtain r' where "ReadRecord r = Some (Some x, r')" "reader_gives r' xs e" by auto
  then show ?case using Cons.IH by (subst read_all.simps) simp
qed

lemma reader_gives_total:
  assumes "lr_limit r \<le> kBlockSize"
  shows "\<exists>xs e. reader_gives r xs e"
  using assms
proof (induction "lr_left r" arbitrary: r rule: less_induct)
  case less
  obtain x r' where r: "ReadRecord r = Some (x, r')" "lr_limit r' \<le> kBlockSize" "x \<noteq> None \<longrightarrow> lr_left r' < lr_left r"
    using ReadRecord_loop_total [of "r\<lparr>lr_res := []\<rparr>" False] less.prems by (auto simp: ReadRecord_def)
  show ?case
  proof (cases x)
    case None
    then have "reader_gives r [] (lr_valid_end r')" using r(1) by simp
    then show ?thesis by blast
  next
    case (Some y)
    then obtain xs e where "reader_gives r' xs e" using less.hyps [OF _ r(2)] r(3) by auto
    then have "reader_gives r (y # xs) e" using r(1) Some by auto
    then show ?thesis by blast
  qed
qed

lemma reader_gives_with_reads:
  "reader_gives r xs e \<Longrightarrow> reads_cut rd f k r \<Longrightarrow> lr_limit r \<le> kBlockSize \<Longrightarrow> reader_gives (with_reads rd f r) xs e"
proof (induction xs arbitrary: r)
  case Nil
  then show ?case using ReadRecord_with_reads by fastforce
next
  case (Cons x xs)
  then obtain r' where r': "ReadRecord r = Some (Some x, r')" "reader_gives r' xs e" by auto
  moreover have "lr_limit r' \<le> kBlockSize"
    using ReadRecord_loop_total [of "r\<lparr>lr_res := []\<rparr>" False] Cons.prems(3) r'(1) by (auto simp: ReadRecord_def)
  ultimately show ?case using Cons.IH [OF r'(2)] ReadRecord_with_reads [OF Cons.prems(2) r'(1) Cons.prems(3)] by auto
qed

lemma reader_gives_cut:
  "reader_gives (LogReader_new rd f) xs e \<longleftrightarrow> reader_gives (LogReader_new all_read (take (read_cut rd f 0) f)) xs e"
    (is "?l xs e \<longleftrightarrow> ?r xs e")
proof -
  have imp: "?r xs e \<Longrightarrow> ?l xs e" for xs e
    using reader_gives_with_reads [OF _ conjunct2 [OF LogReader_new_with_reads] LogReader_new_limit]
      conjunct1 [OF LogReader_new_with_reads, of rd f] by simp
  obtain ys e' where y: "?r ys e'" using reader_gives_total [OF LogReader_new_limit] by blast
  show ?thesis
  proof
    assume "?l xs e"
    then have "xs = ys \<and> e = e'" using read_all_gives [OF imp [OF y], of "[]"] read_all_gives [of _ xs e "[]"] by simp
    then show "?r xs e" using y by simp
  qed (rule imp)
qed

lemma read_log_cut: "read_log rd f = read_log all_read (take (read_cut rd f 0) f)"
proof -
  obtain xs e where "reader_gives (LogReader_new rd f) xs e" using reader_gives_total [OF LogReader_new_limit] by blast
  moreover from this have "reader_gives (LogReader_new all_read (take (read_cut rd f 0) f)) xs e"
    by (rule reader_gives_cut [THEN iffD1])
  ultimately show ?thesis by (simp add: read_log_def read_all_gives)
qed

text \<open>
  C26. Whatever a file holds and however its reads go, reading it terminates, and no record is
  made up: each record returned is put together from the payloads of physical records that
  stand in the file, byte for byte with their checksums, a full one or a first, middles and
  a last.  A read that comes back short is taken for the end of the file: the records are
  those of the file cut there.
\<close>

theorem log_reading_total_and_genuine:
  "\<exists>xs e. read_log rd f = Some (xs, e) \<and>
    (\<forall>x \<in> set xs. \<exists>fs. chain fs \<and> payload fs = x \<and> (\<forall>fr \<in> set fs. \<exists>pre post. f = pre @ enc_phys fr @ post)) \<and>
    read_log all_read (take (read_cut rd f 0) f) = Some (xs, e)"
proof -
  let ?f = "take (read_cut rd f 0) f"
  obtain xs e where r: "read_log all_read ?f = Some (xs, e)" "\<forall>x \<in> set xs. genuine ?f x"
    using read_log_total_genuine by blast
  have "\<exists>pre post. f = pre @ enc_phys fr @ post" if i: "in_file ?f fr" for fr
  proof -
    obtain pre post where "?f = pre @ enc_phys fr @ post" using i by (auto simp: in_file_def)
    then have "f = pre @ enc_phys fr @ post @ drop (read_cut rd f 0) f"
      by (metis append_take_drop_id append_assoc)
    then show ?thesis by blast
  qed
  then have "\<exists>fs. chain fs \<and> payload fs = x \<and> (\<forall>fr \<in> set fs. \<exists>pre post. f = pre @ enc_phys fr @ post)"
    if "x \<in> set xs" for x
    using r(2) that unfolding genuine_def list_all_iff by meson
  then show ?thesis using r(1) read_log_cut [of rd f] by simp
qed

theorem log_reading_total_and_genuine_witness:
  "\<exists>xs e. read_log none_read [1, 2, 3] = Some (xs, e) \<and>
    (\<forall>x \<in> set xs. \<exists>fs. chain fs \<and> payload fs = x)"
  using log_reading_total_and_genuine [of none_read "[1, 2, 3]"] by blast

text \<open>A burst of damage in type and payload.\<close>

lemma read_phys_damaged:
  assumes "frag_fits pos fr" "kHeaderSize \<le> kBlockSize - pos"
    and "fst fr # snd fr = pre @ as @ post" "t' # p' = pre @ bs @ post"
    and "length as = length bs" "length as \<le> 4" "as \<noteq> bs"
    and "drop (base + pos) f = take 6 (enc_phys fr) @ (t' # p') @ rest"
  shows "ReadPhysicalRecord (lr_at f base pos ve res) = (kBad, lr_at f base pos ve res)"
proof -
  let ?b = "take kBlockSize (drop base f)" and ?m = "kBlockSize - pos - (kHeaderSize + length p')"
  have len: "length p' = length (snd fr)"
    using arg_cong [OF assms(3), of length] arg_cong [OF assms(4), of length] assms(5) by simp
  have room: "pos + (kHeaderSize + length p') \<le> kBlockSize"
    using assms(1,2) len by (auto simp: frag_fits_def pad_off_def)
  have h: "drop pos ?b = take 6 (enc_phys fr) @ (t' # p') @ take ?m rest"
  proof -
    define x where "x = take 6 (enc_phys fr) @ (t' # p')"
    have "drop pos ?b = take (kBlockSize - pos) (x @ rest)"
      using assms(8) by (simp add: drop_take add.commute x_def)
    moreover have "length x = kHeaderSize + length p'" by (simp add: kHeaderSize_def x_def)
    ultimately have "drop pos ?b = x @ take ?m rest" using room by simp
    then show ?thesis by (simp add: x_def)
  qed
  have lim: "pos + (kHeaderSize + length p') \<le> length ?b"
  proof -
    have "length (drop pos ?b) \<ge> kHeaderSize + length p'" unfolding h by (simp add: kHeaderSize_def)
    then show ?thesis unfolding length_drop kHeaderSize_def by linarith
  qed
  have six: "take 6 (enc_phys fr) = EncodeFixed32 (MaskCrc32c (Value (fst fr # snd fr))) @
      [word_of_nat (length p'), word_of_nat (length p' div 256)]"
    by (simp add: enc_phys_def len)
  have "length p' < 65536" using frag_fits_len [OF assms(1)] len by simp
  from header_len [OF this]
  have fields: "unat ((ucast (drop pos ?b ! 4) :: u32) OR push_bit 8 (ucast (drop pos ?b ! 5))) = length p'"
    unfolding h six by (simp add: nth_append)
  have field_t: "drop pos ?b ! 6 = t'" unfolding h six by (simp add: nth_append)
  have field_p: "take (length p') (drop kHeaderSize (drop pos ?b)) = p'"
    unfolding h six by (simp add: kHeaderSize_def)
  have field_crc: "DecodeFixed32 (drop pos ?b) = MaskCrc32c (Value (fst fr # snd fr))"
    unfolding h six append_assoc by (rule DecodeFixed32_Encode)
  have "MaskCrc32c (Extend (Value [t']) p') \<noteq> MaskCrc32c (Value (fst fr # snd fr))"
    using masked_crc.burst [OF assms(5-7), of pre post] assms(3,4) by (simp add: Extend_Value)
  then show ?thesis
    using lim fields field_t field_p field_crc by (subst ReadPhysicalRecord.simps)
      (simp add: Let_def not_less del: length_take length_drop nth_drop drop_drop)
qed

text \<open>
  C33. The writer ignores the result of \<open>fflush\<close>: a record can be acknowledged although
  nothing has left the process, so that a crash loses it.
\<close>

theorem log_flush_failure_ignored:
  "\<exists>os w. LogWriter_AddRecord os d new_log = (Status_OK, w) \<and>
    \<not> fst (fflush os (lw_file w)) \<and> crash_image (lw_file w) [] \<and> read_log all_read [] = Some ([], 0)"
proof -
  let ?os = "\<lparr>os_write = \<lambda>_ n. n, os_flush = \<lambda>_. False, os_tell = \<lambda>_. True, os_close = \<lambda>_. 0\<rparr>"
  have wa: "writer_at new_log []" using writer_at_new by (simp add: new_log_def)
  obtain s w where a: "LogWriter_AddRecord ?os d new_log = (s, w)" by fastforce
  obtain s1 w1 where l: "AddRecord_loop ?os d True new_log = (s1, w1)" by fastforce
  have ns: "never_short ?os" by (simp add: never_short_def)
  have off: "block_offset new_log \<le> kBlockSize" by (simp add: new_log_def LogWriter_new_def)
  have ok: "ok s1" and fl: "flushed (lw_file w1) = 0"
    using AddRecord_loop_spec [OF l off] ns by (auto simp: new_log_def LogWriter_new_def fopen_new_def)
  then have "s1 = Status_OK" using AddRecord_loop_ok [OF l] by simp
  moreover have "s = s1" "flushed (lw_file w) = 0"
    using a l ok fl by (auto simp: LogWriter_AddRecord_def fflush_def)
  moreover have "crash_image (lw_file w) []"
    unfolding crash_image_def using \<open>flushed (lw_file w) = 0\<close> by (intro exI [of _ 0]) simp
  moreover have "read_log all_read [] = Some ([], 0)"
    using read_all_stands [OF reader_of_layout [of "[]"], of "[]"] by (simp add: read_log_def)
  moreover have "\<not> fst (fflush ?os (lw_file w))" by (simp add: fflush_def)
  ultimately show ?thesis using a by metis
qed

text \<open>
  C20. A record acknowledged after a failed one can be lost: a write cut short leaves a part
  of a record in the file, which the writer does not count; whatever is written next to
  it in the same block is then unreadable, although \<open>AddRecord\<close> has reported success and
  everything is on disk.
\<close>

theorem log_record_after_short_write_lost:
  assumes "length d + 2 * kHeaderSize < kBlockSize"
  shows "\<exists>os b s1 w1 s2 w2. LogWriter_AddRecord os [b] new_log = (s1, w1) \<and> \<not> ok s1 \<and>
    LogWriter_AddRecord good_os d w1 = (s2, w2) \<and> ok s2 \<and>
    flushed (lw_file w2) = length (content (lw_file w2)) \<and> read_log all_read (content (lw_file w2)) = Some ([], 0)"
proof -
  let ?os = "\<lparr>os_write = \<lambda>k n. if k = 0 then n else 0, os_flush = \<lambda>_. True, os_tell = \<lambda>_. True, os_close = \<lambda>_. 0\<rparr>"
  let ?p2 = "enc_phys (kFullType, d)"
  obtain c rest where p2: "?p2 = c # rest" by (cases ?p2) (auto simp: enc_phys_def EncodeFixed32_def upt_rec)
  let ?b = "c + 1"
  let ?head = "take 6 (enc_phys (kFullType, [?b])) @ [kFullType]"
  let ?w1 = "\<lparr>lw_file = \<lparr>content = ?head, flushed = 0, calls = 2\<rparr>, block_offset = 0\<rparr>"
  have a1: "LogWriter_AddRecord ?os [?b] new_log = (IOError (str ''write log record failed''), ?w1)"
    by (simp add: LogWriter_AddRecord_def AddRecord_loop.simps pad_block_def new_log_def LogWriter_new_def fopen_new_def
        EmitPhysicalRecord_def fwrite_def enc_phys_def Extend_Value record_type_def kBlockSize_def kHeaderSize_def Let_def)
  obtain s2 w2 where a2: "LogWriter_AddRecord good_os d ?w1 = (s2, w2)" by fastforce
  have fr: "frags_of 0 d True = [(kFullType, d)]"
    using assms by (subst frags_of.simps) (simp add: pad_off_def record_type_def kBlockSize_def kHeaderSize_def)
  have lay: "layout 0 [(kFullType, d)] = ?p2" by (simp add: pad_len_def kBlockSize_def kHeaderSize_def)
  obtain k where k: "content (lw_file w2) = ?head @ take k ?p2" "ok s2" "ok s2 \<longrightarrow> length ?p2 \<le> k"
    "flushed (lw_file w2) = length (content (lw_file w2))"
    using AddRecord_spec [OF a2] fr lay by auto
  then have f: "content (lw_file w2) = take 6 (enc_phys (kFullType, [?b])) @ [kFullType, c] @ rest" by (simp add: p2)
  have "length (enc_phys (kFullType, d)) = length (c # rest)" by (simp only: p2)
  then have short: "length (content (lw_file w2)) < kBlockSize"
    using assms unfolding f by (simp add: kHeaderSize_def enc_phys_def)
  let ?f = "content (lw_file w2)"
  have bad: "ReadPhysicalRecord (lr_at ?f 0 0 0 []) = (kBad, lr_at ?f 0 0 0 [])"
  proof (rule read_phys_damaged [where fr = "(kFullType, [?b])" and pre = "[kFullType]" and as = "[?b]" and bs = "[c]"
        and post = "[]" and rest = rest and t' = kFullType and p' = "[c]"])
    show "frag_fits 0 (kFullType, [?b])"
      by (simp add: frag_fits_def pad_off_def kBlockSize_def kHeaderSize_def kFullType_def kLastType_def)
  qed (simp_all add: f kBlockSize_def kHeaderSize_def)
  have eof: "ReadPhysicalRecord (lr_at ?f 0 kBlockSize 0 []) = (kEof, lr_at ?f 0 kBlockSize 0 [])"
  proof -
    have l: "length (take kBlockSize (drop 0 ?f)) < kBlockSize + kHeaderSize" "length (take kBlockSize (drop 0 ?f)) < kBlockSize"
      using short by simp_all
    show ?thesis using l by (subst ReadPhysicalRecord.simps) (simp del: length_take length_drop)
  qed
  have "ReadRecord (LogReader_new all_read ?f) = Some (None, lr_at ?f 0 kBlockSize 0 [])"
    by (simp add: ReadRecord_def lr_at_new ReadRecord_loop.simps bad eof)
  then have "read_log all_read ?f = Some ([], 0)"
    unfolding read_log_def by (subst read_all.simps) simp
  then show ?thesis using a1 a2 k(2,4) by (metis ok_simps(6))
qed

theorem log_record_after_short_write_lost_witness:
  "\<exists>os b s1 w1 s2 w2. LogWriter_AddRecord os [b] new_log = (s1, w1) \<and> \<not> ok s1 \<and>
    LogWriter_AddRecord good_os [1, 2, 3] w1 = (s2, w2) \<and> ok s2 \<and> read_log all_read (content (lw_file w2)) = Some ([], 0)"
proof -
  have "length ([1, 2, 3] :: bytes) + 2 * kHeaderSize < kBlockSize" by (simp add: kBlockSize_def kHeaderSize_def)
  from log_record_after_short_write_lost [OF this] show ?thesis by blast
qed

end
