(* ===== verification/BlockBuilder.thy ===== *)
theory BlockBuilder
  imports Coding
begin

text \<open>
  \<open>src/table/block_builder.h\<close> and \<open>src/table/block_builder.cc\<close>: a block of sorted
  entries with prefix-compressed keys, a restart point every 16 entries where the key
  is stored whole, and the array of the restart offsets behind the entries.  The lemmas
  relate the builder to \<open>enc_entries\<close>, the encoding of a list of pairs.
\<close>

section \<open>The builder\<close>

definition kRestartInterval :: nat where "kRestartInterval = 16"

record BlockBuilder =
  bb_buffer :: bytes
  bb_last_key :: bytes
  bb_restarts :: "u32 list"
  bb_counter :: nat
  bb_finished :: bool

definition BlockBuilder_Reset :: BlockBuilder where
  "BlockBuilder_Reset =
     \<lparr>bb_buffer = [], bb_last_key = [], bb_restarts = [], bb_counter = 0, bb_finished = False\<rparr>"

text \<open>The loop that counts the bytes two keys share at the front.\<close>

fun shared_prefix :: "bytes \<Rightarrow> bytes \<Rightarrow> nat" where
  "shared_prefix (a # as) (b # bs) = (if a = b then Suc (shared_prefix as bs) else 0)"
| "shared_prefix _ _ = 0"

definition BlockBuilder_Add :: "bytes \<Rightarrow> bytes \<Rightarrow> BlockBuilder \<Rightarrow> BlockBuilder" where
  "BlockBuilder_Add key value bb =
     (let restarts = (if bb_counter bb = 0
            then bb_restarts bb @ [word_of_nat (length (bb_buffer bb))] else bb_restarts bb);
          shared = (if bb_counter bb > 0 then shared_prefix key (bb_last_key bb) else 0);
          unshared = length key - shared;
          buffer = bb_buffer bb;
          buffer = PutVarint32 buffer (word_of_nat shared);
          buffer = PutVarint32 buffer (word_of_nat unshared);
          buffer = PutVarint32 buffer (word_of_nat (length value));
          buffer = buffer @ drop shared key;
          buffer = buffer @ value;
          counter = bb_counter bb + 1
      in bb\<lparr>bb_restarts := restarts, bb_buffer := buffer, bb_last_key := key,
            bb_counter := (if counter \<ge> kRestartInterval then 0 else counter)\<rparr>)"

definition BlockBuilder_Finish :: "BlockBuilder \<Rightarrow> bytes \<times> BlockBuilder" where
  "BlockBuilder_Finish bb =
     (let buffer = foldl (\<lambda>buf offset. buf @ EncodeFixed32 offset) (bb_buffer bb) (bb_restarts bb);
          buffer = buffer @ EncodeFixed32 (word_of_nat (length (bb_restarts bb)))
      in (buffer, bb\<lparr>bb_buffer := buffer, bb_finished := True\<rparr>))"

definition CurrentSizeEstimate :: "BlockBuilder \<Rightarrow> nat" where
  "CurrentSizeEstimate bb = length (bb_buffer bb) + 4 + length (bb_restarts bb) * 4"

definition BlockBuilder_empty :: "BlockBuilder \<Rightarrow> bool" where
  "BlockBuilder_empty bb \<longleftrightarrow> bb_buffer bb = []"

section \<open>The encoding of a list of entries\<close>

type_synonym kv = "bytes \<times> bytes"

text \<open>One entry behind a key of which it shares \<open>sh\<close> bytes.\<close>

definition enc_entry :: "nat \<Rightarrow> kv \<Rightarrow> bytes" where
  "enc_entry sh e = PutVarint32 [] (word_of_nat sh) @ PutVarint32 [] (word_of_nat (length (fst e) - sh)) @
     PutVarint32 [] (word_of_nat (length (snd e))) @ drop sh (fst e) @ snd e"

definition entry_shared :: "bytes \<Rightarrow> nat \<Rightarrow> kv \<Rightarrow> nat" where
  "entry_shared lk c e = (if c = 0 then 0 else shared_prefix (fst e) lk)"

fun enc_entries :: "bytes \<Rightarrow> nat \<Rightarrow> kv list \<Rightarrow> bytes" where
  "enc_entries lk c [] = []"
| "enc_entries lk c (e # es) =
     enc_entry (entry_shared lk c e) e @ enc_entries (fst e) (Suc c mod kRestartInterval) es"

text \<open>The last key and the counter behind some entries.\<close>

definition last_key_of :: "bytes \<Rightarrow> kv list \<Rightarrow> bytes" where
  "last_key_of lk es = foldl (\<lambda>_ e. fst e) lk es"

lemma last_key_of_simps [simp]:
  "last_key_of l [] = l" "last_key_of l (e # es) = last_key_of (fst e) es"
  "last_key_of l (es @ [e]) = fst e"
  by (simp_all add: last_key_of_def)

lemma shared_prefix_le [simp]: "shared_prefix a b \<le> length a" "shared_prefix a b \<le> length b"
  by (induction a b rule: shared_prefix.induct) auto

lemma shared_prefix_take: "take (shared_prefix a b) b = take (shared_prefix a b) a"
  by (induction a b rule: shared_prefix.induct) auto

lemma enc_entries_append:
  assumes "c < kRestartInterval"
  shows "enc_entries lk c (es @ fs) =
    enc_entries lk c es @ enc_entries (last_key_of lk es) ((c + length es) mod kRestartInterval) fs"
  using assms
proof (induction es arbitrary: lk c)
  case (Cons e es)
  have "Suc c mod kRestartInterval < kRestartInterval" by (simp add: kRestartInterval_def)
  then show ?case using Cons.IH by (simp add: mod_simps)
qed simp

lemma enc_entry_nonempty [simp]: "enc_entry sh e \<noteq> []"
  by (simp add: enc_entry_def PutVarint32_def)

lemma enc_entries_eq_Nil [simp]: "enc_entries l c es = [] \<longleftrightarrow> es = []"
  by (cases es) simp_all

text \<open>The number of restart points of \<open>n\<close> entries, and their offsets.\<close>

definition num_restarts :: "nat \<Rightarrow> nat" where
  "num_restarts n = (n + kRestartInterval - 1) div kRestartInterval"

definition entry_offset :: "kv list \<Rightarrow> nat \<Rightarrow> nat" where
  "entry_offset es i = length (enc_entries [] 0 (take i es))"

definition restart_offsets :: "kv list \<Rightarrow> nat list" where
  "restart_offsets es = map (\<lambda>j. entry_offset es (kRestartInterval * j)) [0..<num_restarts (length es)]"

lemma length_restart_offsets [simp]: "length (restart_offsets es) = num_restarts (length es)"
  by (simp add: restart_offsets_def)

lemma num_restarts_Suc:
  "num_restarts (Suc n) = (if n mod kRestartInterval = 0 then Suc (num_restarts n) else num_restarts n)"
proof -
  define q r where "q = n div 16" and "r = n mod 16"
  have n: "n = 16 * q + r" "r < 16" by (simp_all add: q_def r_def)
  have s: "num_restarts (Suc n) = Suc q"
    using n by (simp add: num_restarts_def kRestartInterval_def div_nat_eqI)
  have "num_restarts n = (if r = 0 then q else Suc q)"
  proof (cases "r = 0")
    case False
    then show ?thesis using n
      by (simp add: num_restarts_def kRestartInterval_def div_nat_eqI)
  qed (use n in \<open>simp add: num_restarts_def kRestartInterval_def\<close>)
  then show ?thesis using s by (simp add: kRestartInterval_def r_def)
qed

lemma num_restarts_bounds: "j < num_restarts n \<longleftrightarrow> kRestartInterval * j < n"
proof -
  have "j < num_restarts n \<longleftrightarrow> Suc j \<le> (n + 15) div 16"
    by (simp add: num_restarts_def kRestartInterval_def Suc_le_eq add.commute)
  also have "\<dots> \<longleftrightarrow> Suc j * 16 \<le> n + 15" by (rule less_eq_div_iff_mult_less_eq) simp
  also have "\<dots> \<longleftrightarrow> 16 * j < n" by simp linarith
  finally show ?thesis by (simp add: kRestartInterval_def)
qed

lemma restart_offsets_snoc:
  "restart_offsets (es @ [e]) =
    (if length es mod kRestartInterval = 0 then restart_offsets es @ [length (enc_entries [] 0 es)]
     else restart_offsets es)"
proof -
  have old: "map (\<lambda>j. entry_offset (es @ [e]) (kRestartInterval * j)) [0..<num_restarts (length es)] = restart_offsets es"
    unfolding restart_offsets_def by (rule map_cong) (simp_all add: entry_offset_def num_restarts_bounds)
  show ?thesis
  proof (cases "length es mod kRestartInterval = 0")
    case True
    then obtain q where q: "length es = kRestartInterval * q" by auto
    then have "num_restarts (length es) = q"
      unfolding num_restarts_def kRestartInterval_def by simp
    then show ?thesis
      using True old q by (simp add: restart_offsets_def num_restarts_Suc entry_offset_def)
  next
    case False
    then show ?thesis using old by (simp add: restart_offsets_def num_restarts_Suc)
  qed
qed

section \<open>The builder encodes its entries\<close>

definition bb_holds :: "BlockBuilder \<Rightarrow> kv list \<Rightarrow> bool" where
  "bb_holds bb es \<longleftrightarrow> bb_buffer bb = enc_entries [] 0 es \<and> bb_last_key bb = last_key_of [] es \<and>
     bb_restarts bb = map word_of_nat (restart_offsets es) \<and>
     bb_counter bb = length es mod kRestartInterval \<and> \<not> bb_finished bb"

definition enc_block :: "kv list \<Rightarrow> bytes" where
  "enc_block es = enc_entries [] 0 es @ concat (map (\<lambda>o'. EncodeFixed32 (word_of_nat o')) (restart_offsets es)) @
     EncodeFixed32 (word_of_nat (num_restarts (length es)))"

lemma bb_holds_Reset: "bb_holds BlockBuilder_Reset []"
  by (simp add: bb_holds_def BlockBuilder_Reset_def restart_offsets_def num_restarts_def kRestartInterval_def)

lemma bb_holds_Add:
  assumes "bb_holds bb es"
  shows "bb_holds (BlockBuilder_Add (fst e) (snd e) bb) (es @ [e])"
proof -
  have r: "0 < kRestartInterval" by (simp add: kRestartInterval_def)
  have c: "(if kRestartInterval \<le> length es mod kRestartInterval + 1 then 0
      else length es mod kRestartInterval + 1) = Suc (length es) mod kRestartInterval"
    using mod_less_divisor [OF r, of "length es"] by (simp add: mod_Suc)
  have "enc_entries [] 0 (es @ [e]) = enc_entries [] 0 es @
      enc_entry (entry_shared (last_key_of [] es) (length es mod kRestartInterval) e) e"
    using enc_entries_append [OF r, of "[]" es "[e]"] by simp
  then show ?thesis
    using assms c
    by (auto simp: bb_holds_def BlockBuilder_Add_def Let_def PutVarint32_def enc_entry_def entry_shared_def
        restart_offsets_snoc)
qed

lemma foldl_append_concat: "foldl (\<lambda>buf x. buf @ f x) b xs = b @ concat (map f xs)"
  by (induction xs arbitrary: b) simp_all

lemma bb_holds_Finish: "bb_holds bb es \<Longrightarrow> fst (BlockBuilder_Finish bb) = enc_block es"
  by (simp add: bb_holds_def BlockBuilder_Finish_def Let_def foldl_append_concat enc_block_def comp_def)

lemma bb_holds_empty: "bb_holds bb es \<Longrightarrow> BlockBuilder_empty bb \<longleftrightarrow> es = []"
  by (simp add: bb_holds_def BlockBuilder_empty_def)

lemma length_concat_fixed: "length (concat (map (\<lambda>o'. EncodeFixed32 (f o')) xs)) = 4 * length xs"
  by (induction xs) simp_all

lemma length_enc_block: "length (enc_block es) = length (enc_entries [] 0 es) + 4 * num_restarts (length es) + 4"
  by (simp add: enc_block_def length_concat_fixed)

lemma CurrentSizeEstimate_exact:
  "bb_holds bb es \<Longrightarrow> CurrentSizeEstimate bb = length (enc_block es)"
  by (simp add: CurrentSizeEstimate_def bb_holds_def length_enc_block)

end
