(* ===== verification/Block.thy ===== *)
theory Block
  imports BlockBuilder
begin

text \<open>
  \<open>src/table/block.h\<close> and \<open>src/table/block.cc\<close>: reading a block, by binary search over
  the restart points and a scan from there.  An access outside the block is undefined
  behaviour of the code, here \<open>None\<close>.  Indices into the restart array are natural
  numbers; the byte offset \<open>current_\<close> has its 32 bits.  The lemmas show that on a block
  of the builder the iterator finds the first entry that is not below the target.
\<close>

section \<open>The reader\<close>

text \<open>
  Slices into a block are pointers: \<open>blk_tail\<close> is what stands behind \<open>data_\<close> in the memory of the
  block, the restart array and its length, where a damaged length of a value may still lead.
\<close>

record Block =
  blk_data :: bytes
  blk_tail :: bytes
  blk_restarts :: "u32 list"

text \<open>
  The size check multiplies in 32 bits.  If that wraps, the loop that copies the restart
  array reads behind the block.
\<close>

definition Block_new :: "bytes \<Rightarrow> Block option" where
  "Block_new contents =
     (let size = length contents; none = \<lparr>blk_data = [], blk_tail = [], blk_restarts = []\<rparr> in
      if size < 4 then Some none
      else
        let count = DecodeFixed32 (drop (size - 4) contents);
            restart_array_size = unat (count * 4)
        in if size < 4 + restart_array_size then Some none
           else
             let restart_ptr = size - 4 - restart_array_size in
             if restart_ptr + 4 * unat count > size then None
             else Some \<lparr>blk_data = take restart_ptr contents, blk_tail = drop restart_ptr contents,
               blk_restarts = map (\<lambda>i. DecodeFixed32 (drop (restart_ptr + i * 4) contents)) [0..<unat count]\<rparr>)"

record BlockIter =
  it_current :: u32
  it_restart_index :: nat
  it_key :: bytes
  it_value :: bytes
  it_valid :: bool

definition NewIterator :: BlockIter where
  "NewIterator = \<lparr>it_current = 0, it_restart_index = 0, it_key = [], it_value = [], it_valid = False\<rparr>"

definition resize :: "nat \<Rightarrow> bytes \<Rightarrow> bytes" where
  "resize n s = take n s @ replicate (n - length s) 0"

definition DecodeEntry :: "Block \<Rightarrow> BlockIter \<Rightarrow> BlockIter option" where
  "DecodeEntry b it =
     (let data = blk_data b; invalid = it\<lparr>it_valid := False\<rparr> in
      if unat (it_current it) \<ge> length data then Some invalid
      else
        case GetVarint32 (drop (unat (it_current it)) data) of
          None \<Rightarrow> Some invalid
        | Some (shared, input) \<Rightarrow>
        (case GetVarint32 input of
          None \<Rightarrow> Some invalid
        | Some (unshared, input) \<Rightarrow>
        (case GetVarint32 input of
          None \<Rightarrow> Some invalid
        | Some (value_len, input) \<Rightarrow>
            if unat unshared > length input then None
            else
              let key = resize (unat shared) (it_key it) @ take (unat unshared) input;
                  input = drop (unat unshared) input
              in if unat value_len > length (input @ blk_tail b) then None
                 else
                   let entry_size = (length data - length input - unat (it_current it)) + unat value_len
                   in Some (it\<lparr>it_key := key, it_value := take (unat value_len) (input @ blk_tail b),
                        it_current := it_current it + word_of_nat entry_size, it_valid := True\<rparr>))))"

function sync_restart :: "u32 list \<Rightarrow> u32 \<Rightarrow> nat \<Rightarrow> nat" where
  "sync_restart restarts cur i =
     (if i + 1 < length restarts \<and> cur \<ge> restarts ! (i + 1) then sync_restart restarts cur (i + 1) else i)"
  by pat_completeness auto
termination by (relation "measure (\<lambda>(rs, _, i). length rs - i)") auto

declare sync_restart.simps [simp del]

definition BlockIter_Next :: "Block \<Rightarrow> BlockIter \<Rightarrow> BlockIter option" where
  "BlockIter_Next b it =
     (if \<not> it_valid it then Some it
      else map_option (\<lambda>it. it\<lparr>it_restart_index :=
             sync_restart (blk_restarts b) (it_current it) (it_restart_index it)\<rparr>) (DecodeEntry b it))"

definition BlockIter_SeekToFirst :: "Block \<Rightarrow> BlockIter \<Rightarrow> BlockIter option" where
  "BlockIter_SeekToFirst b it =
     (if blk_restarts b = [] then Some (it\<lparr>it_valid := False\<rparr>)
      else DecodeEntry b (it\<lparr>it_restart_index := 0, it_current := blk_restarts b ! 0\<rparr>))"

text \<open>The two loops of \<open>Seek\<close>.\<close>

function Seek_restart :: "Block \<Rightarrow> bytes \<Rightarrow> nat \<Rightarrow> nat \<Rightarrow> BlockIter \<Rightarrow> (nat \<times> BlockIter) option" where
  "Seek_restart b target left right it =
     (if left < right then
        let mid = (left + right + 1) div 2 in
        case DecodeEntry b (it\<lparr>it_current := blk_restarts b ! mid\<rparr>) of
          None \<Rightarrow> None
        | Some it \<Rightarrow>
            if Slice_compare (it_key it) target < 0 then Seek_restart b target mid right it
            else Seek_restart b target left (mid - 1) it
      else Some (left, it))"
  by pat_completeness auto
termination by (relation "measure (\<lambda>(_, _, left, right, _). right - left)") auto

declare Seek_restart.simps [simp del]

partial_function (option) Seek_scan :: "Block \<Rightarrow> bytes \<Rightarrow> BlockIter \<Rightarrow> BlockIter option" where
  "Seek_scan b target it =
     (if it_valid it \<and> Slice_compare (it_key it) target < 0 then
        Option.bind (BlockIter_Next b it) (\<lambda>it. Seek_scan b target it)
      else Some it)"

definition BlockIter_Seek :: "Block \<Rightarrow> bytes \<Rightarrow> BlockIter \<Rightarrow> BlockIter option" where
  "BlockIter_Seek b target it =
     (if blk_restarts b = [] then Some (it\<lparr>it_valid := False\<rparr>)
      else
        case Seek_restart b target 0 (length (blk_restarts b) - 1) it of
          None \<Rightarrow> None
        | Some (left, it) \<Rightarrow>
            Option.bind (DecodeEntry b (it\<lparr>it_restart_index := left, it_current := blk_restarts b ! left\<rparr>))
              (Seek_scan b target))"

section \<open>Blocks of the builder\<close>

definition kv_ok :: "kv \<Rightarrow> bool" where
  "kv_ok e \<longleftrightarrow> length (fst e) < 2 ^ 32 \<and> length (snd e) < 2 ^ 32"

definition block_holds :: "Block \<Rightarrow> kv list \<Rightarrow> bool" where
  "block_holds b es \<longleftrightarrow> blk_data b = enc_entries [] 0 es \<and> blk_restarts b = map word_of_nat (restart_offsets es) \<and>
     length (enc_entries [] 0 es) < 2 ^ 32 \<and> list_all kv_ok es"

lemma length_le_enc_entries: "length es \<le> length (enc_entries l c es)"
proof (induction es arbitrary: l c)
  case (Cons e es)
  have "1 \<le> length (enc_entry (entry_shared l c e) e)" by (simp add: Suc_le_eq)
  then show ?case using Cons.IH [of "fst e" "Suc c mod kRestartInterval"] by simp
qed simp

lemma Block_new_enc:
  assumes "length (enc_block es) < 2 ^ 32" "list_all kv_ok es"
  shows "\<exists>b. Block_new (enc_block es) = Some b \<and> block_holds b es"
proof -
  let ?n = "num_restarts (length es)" and ?d = "enc_entries [] 0 es"
  let ?rs = "concat (map (\<lambda>o'. EncodeFixed32 (word_of_nat o')) (restart_offsets es))"
  have len: "length (enc_block es) = length ?d + 4 * ?n + 4" by (rule length_enc_block)
  have count: "DecodeFixed32 (drop (length (enc_block es) - 4) (enc_block es)) = word_of_nat ?n"
    by (simp add: enc_block_def length_concat_fixed)
  have n: "4 * ?n < 2 ^ 32" "unat (word_of_nat ?n :: u32) = ?n"
    using assms(1) len by (auto intro!: unat_word_of_nat_less)
  have "unat ((word_of_nat ?n :: u32) * 4) = 4 * ?n"
    using n by (simp add: unat_word_ariths mult.commute)
  then have ras: "unat (DecodeFixed32 (drop (length (enc_block es) - 4) (enc_block es)) * 4) = 4 * ?n"
    by (simp only: count)
  have nth: "DecodeFixed32 (drop (length ?d + i * 4) (enc_block es)) = word_of_nat (restart_offsets es ! i)"
    if "i < ?n" for i
  proof -
    have "drop (i * 4) (concat (map (\<lambda>o'. EncodeFixed32 (word_of_nat o')) xs) @ r) =
        EncodeFixed32 (word_of_nat (xs ! i)) @
          concat (map (\<lambda>o'. EncodeFixed32 (word_of_nat o')) (drop (Suc i) xs)) @ r" if "i < length xs" for xs r
      using that by (induction xs arbitrary: i) (auto simp: less_Suc_eq_0_disj)
    then have "drop (length ?d + i * 4) (enc_block es) = EncodeFixed32 (word_of_nat (restart_offsets es ! i)) @
        concat (map (\<lambda>o'. EncodeFixed32 (word_of_nat o')) (drop (Suc i) (restart_offsets es))) @
        EncodeFixed32 (word_of_nat ?n)"
      using \<open>i < ?n\<close> by (simp add: enc_block_def)
    then show ?thesis by simp
  qed
  have "Block_new (enc_block es) =
      Some \<lparr>blk_data = ?d, blk_tail = drop (length ?d) (enc_block es), blk_restarts = map word_of_nat (restart_offsets es)\<rparr>"
    unfolding Block_new_def Let_def ras unfolding count n(2)
    using len nth by (auto simp: enc_block_def intro!: nth_equalityI)
  then show ?thesis using assms len by (simp add: block_holds_def)
qed

section \<open>Decoding one entry\<close>

lemma DecodeEntry_enc:
  assumes d: "blk_data b = pre @ enc_entry sh e @ post" and cur: "unat (it_current it) = length pre"
    and ok: "kv_ok e" and sh: "sh \<le> length (fst e)" "sh \<le> length (it_key it)" "take sh (it_key it) = take sh (fst e)"
  shows "DecodeEntry b it = Some (it\<lparr>it_key := fst e, it_value := snd e,
    it_current := it_current it + word_of_nat (length (enc_entry sh e)), it_valid := True\<rparr>)"
proof -
  let ?v = "\<lambda>n. PutVarint32 [] (word_of_nat n)"
  have u: "unat (word_of_nat n :: u32) = n" if "n < 2 ^ 32" for n using that by (simp add: unat_word_of_nat_less)
  have lens: "sh < 2 ^ 32" "length (fst e) - sh < 2 ^ 32" "length (snd e) < 2 ^ 32"
    using ok sh(1) by (auto simp: kv_ok_def)
  have dr: "drop (unat (it_current it)) (blk_data b) = enc_entry sh e @ post" by (simp add: d cur)
  have in_data: "\<not> unat (it_current it) \<ge> length (blk_data b)"
    using enc_entry_nonempty [of sh e] by (simp add: d cur del: enc_entry_nonempty)
  have g: "GetVarint32 (enc_entry sh e @ post) = Some (word_of_nat sh,
      ?v (length (fst e) - sh) @ ?v (length (snd e)) @ drop sh (fst e) @ snd e @ post)"
    "GetVarint32 (?v (length (fst e) - sh) @ ?v (length (snd e)) @ drop sh (fst e) @ snd e @ post) =
      Some (word_of_nat (length (fst e) - sh), ?v (length (snd e)) @ drop sh (fst e) @ snd e @ post)"
    "GetVarint32 (?v (length (snd e)) @ drop sh (fst e) @ snd e @ post) =
      Some (word_of_nat (length (snd e)), drop sh (fst e) @ snd e @ post)"
    by (simp_all add: enc_entry_def PutVarint32_def)
  have key: "resize sh (it_key it) @ drop sh (fst e) = fst e"
    using sh by (simp add: resize_def)
  have size: "length (blk_data b) - length (snd e @ post) - length pre + length (snd e) = length (enc_entry sh e)"
    by (simp add: d enc_entry_def)
  show ?thesis
    using in_data key size unfolding DecodeEntry_def Let_def dr g option.case prod.case u [OF lens(1)] u [OF lens(2)] u [OF lens(3)]
    by (simp add: cur)
qed

lemma DecodeEntry_end: "unat (it_current it) \<ge> length (blk_data b) \<Longrightarrow> DecodeEntry b it = Some (it\<lparr>it_valid := False\<rparr>)"
  by (simp add: DecodeEntry_def)

section \<open>Positions in a block\<close>

text \<open>The iterator stands on entry \<open>i\<close>, or behind the last one.\<close>

definition it_at :: "kv list \<Rightarrow> BlockIter \<Rightarrow> nat \<Rightarrow> bool" where
  "it_at es it i \<longleftrightarrow>
     (if i < length es then it_valid it \<and> it_key it = fst (es ! i) \<and> it_value it = snd (es ! i) \<and>
        unat (it_current it) = entry_offset es (Suc i)
      else \<not> it_valid it)"

lemma entries_split:
  assumes "i < length es"
  shows "enc_entries [] 0 es = enc_entries [] 0 (take i es) @
    enc_entry (entry_shared (last_key_of [] (take i es)) (i mod kRestartInterval) (es ! i)) (es ! i) @
    enc_entries (fst (es ! i)) (Suc i mod kRestartInterval) (drop (Suc i) es)"
proof -
  have "es = take i es @ es ! i # drop (Suc i) es" using assms by (rule id_take_nth_drop)
  then have "enc_entries [] 0 es = enc_entries [] 0 (take i es @ es ! i # drop (Suc i) es)" by simp
  also have "\<dots> = enc_entries [] 0 (take i es) @
      enc_entries (last_key_of [] (take i es)) (i mod kRestartInterval) (es ! i # drop (Suc i) es)"
    using assms by (subst enc_entries_append) (simp_all add: kRestartInterval_def min_absorb2)
  finally show ?thesis by (simp add: mod_simps)
qed

lemma entry_offset_Suc:
  "i < length es \<Longrightarrow> entry_offset es (Suc i) = entry_offset es i +
    length (enc_entry (entry_shared (last_key_of [] (take i es)) (i mod kRestartInterval) (es ! i)) (es ! i))"
proof -
  assume i: "i < length es"
  have "take (Suc i) es = take i es @ [es ! i]" using i by (rule take_Suc_conv_app_nth)
  then show ?thesis
    using i enc_entries_append [of 0 "[]" "take i es" "[es ! i]"]
    by (simp add: entry_offset_def kRestartInterval_def min_absorb2)
qed

lemma entry_offset_le: "entry_offset es i \<le> length (enc_entries [] 0 es)"
proof -
  have "enc_entries [] 0 es = enc_entries [] 0 (take i es) @
      enc_entries (last_key_of [] (take i es)) (length (take i es) mod kRestartInterval) (drop i es)"
    using enc_entries_append [of 0 "[]" "take i es" "drop i es"] by (simp add: kRestartInterval_def)
  then show ?thesis by (simp add: entry_offset_def)
qed

lemma last_key_of_take: "0 < i \<Longrightarrow> i \<le> length es \<Longrightarrow> last_key_of [] (take i es) = fst (es ! (i - 1))"
  by (cases i) (simp_all add: take_Suc_conv_app_nth)

text \<open>Decoding at the offset of entry \<open>i\<close>, with the key before it or at a restart point.\<close>

lemma DecodeEntry_at:
  assumes b: "block_holds b es" and cur: "unat (it_current it) = entry_offset es i" and i: "i \<le> length es"
    and key: "i mod kRestartInterval = 0 \<or> it_key it = last_key_of [] (take i es)"
  shows "\<exists>it'. DecodeEntry b it = Some it' \<and> it_at es it' i \<and> it_restart_index it' = it_restart_index it"
proof (cases "i < length es")
  case True
  let ?lk = "last_key_of [] (take i es)"
  let ?sh = "entry_shared ?lk (i mod kRestartInterval) (es ! i)"
  have ok: "kv_ok (es ! i)" and len: "length (enc_entries [] 0 es) < 2 ^ 32"
    using b True by (auto simp: block_holds_def list_all_length)
  have d: "blk_data b = enc_entries [] 0 (take i es) @ enc_entry ?sh (es ! i) @
      enc_entries (fst (es ! i)) (Suc i mod kRestartInterval) (drop (Suc i) es)"
    using b entries_split [OF True] by (simp add: block_holds_def)
  have sh: "?sh \<le> length (fst (es ! i))" "?sh \<le> length (it_key it)" "take ?sh (it_key it) = take ?sh (fst (es ! i))"
    using key shared_prefix_take [of "fst (es ! i)" ?lk] by (auto simp: entry_shared_def)
  have next_cur: "unat (it_current it + word_of_nat (length (enc_entry ?sh (es ! i)))) = entry_offset es (Suc i)"
  proof -
    have "entry_offset es (Suc i) < 2 ^ 32" using entry_offset_le [of es "Suc i"] len by simp
    then show ?thesis
      using cur entry_offset_Suc [OF True] by (simp add: unat_word_ariths unat_word_of_nat_less)
  qed
  show ?thesis
    using DecodeEntry_enc [OF d _ ok sh] cur next_cur True by (auto simp: it_at_def entry_offset_def)
next
  case False
  then have "unat (it_current it) \<ge> length (blk_data b)"
    using cur i b by (simp add: entry_offset_def block_holds_def)
  then show ?thesis using False by (auto simp: DecodeEntry_end it_at_def)
qed

lemma BlockIter_Next_at:
  assumes b: "block_holds b es" and it: "it_at es it i" and i: "i < length es"
  shows "\<exists>it'. BlockIter_Next b it = Some it' \<and> it_at es it' (Suc i)"
proof -
  have v: "it_valid it" "it_key it = fst (es ! i)" "unat (it_current it) = entry_offset es (Suc i)"
    using it i by (auto simp: it_at_def)
  have "it_key it = last_key_of [] (take (Suc i) es)" using v(2) i by (simp add: take_Suc_conv_app_nth)
  then obtain it' where "DecodeEntry b it = Some it'" "it_at es it' (Suc i)"
    using DecodeEntry_at [OF b v(3)] i by auto
  then show ?thesis using v(1) by (simp add: BlockIter_Next_def it_at_def)
qed

text \<open>The scan stops at the first entry from \<open>i\<close> on that is not below the target.\<close>

definition first_from :: "bytes \<Rightarrow> kv list \<Rightarrow> nat \<Rightarrow> nat" where
  "first_from target es i = i + length (takeWhile (\<lambda>e. fst e < target) (drop i es))"

lemma Seek_scan_at:
  assumes "block_holds b es" "it_at es it i" "i \<le> length es"
  shows "\<exists>it'. Seek_scan b target it = Some it' \<and> it_at es it' (first_from target es i)"
  using assms(2,3)
proof (induction "length es - i" arbitrary: i it)
  case 0
  then show ?case by (subst Seek_scan.simps) (simp add: it_at_def first_from_def)
next
  case (Suc n)
  have i: "i < length es" using Suc.hyps(2) by simp
  have v: "it_valid it" "it_key it = fst (es ! i)" using Suc.prems(1) i by (auto simp: it_at_def)
  have dr: "drop i es = es ! i # drop (Suc i) es" using i by (simp add: Cons_nth_drop_Suc)
  show ?case
  proof (cases "fst (es ! i) < target")
    case True
    obtain it1 where it1: "BlockIter_Next b it = Some it1" "it_at es it1 (Suc i)"
      using BlockIter_Next_at [OF assms(1) Suc.prems(1) i] by blast
    have "n = length es - Suc i" using Suc.hyps(2) by simp
    from Suc.hyps(1) [OF this it1(2)] i obtain it' where
      "Seek_scan b target it1 = Some it'" "it_at es it' (first_from target es (Suc i))" by auto
    moreover have "first_from target es i = first_from target es (Suc i)" using True by (simp add: first_from_def dr)
    ultimately show ?thesis using v True it1(1) by (subst Seek_scan.simps) simp
  next
    case False
    then have "first_from target es i = i" by (simp add: first_from_def dr)
    then show ?thesis using v False Suc.prems(1) by (subst Seek_scan.simps) simp
  qed
qed

section \<open>Seek\<close>

lemma restart_nth:
  assumes "block_holds b es" "j < length (blk_restarts b)"
  shows "unat (blk_restarts b ! j) = entry_offset es (kRestartInterval * j)" "kRestartInterval * j < length es"
proof -
  have j: "j < num_restarts (length es)" using assms by (simp add: block_holds_def)
  then show "kRestartInterval * j < length es" by (simp add: num_restarts_bounds)
  have "entry_offset es (kRestartInterval * j) < 2 ^ 32"
    using entry_offset_le [of es "kRestartInterval * j"] assms(1) by (simp add: block_holds_def)
  then show "unat (blk_restarts b ! j) = entry_offset es (kRestartInterval * j)"
    using assms(1) j by (simp add: block_holds_def restart_offsets_def unat_word_of_nat_less)
qed

lemma decode_restart:
  assumes "block_holds b es" "j < length (blk_restarts b)"
  shows "\<exists>it'. DecodeEntry b (it\<lparr>it_current := blk_restarts b ! j\<rparr>) = Some it' \<and>
    it_at es it' (kRestartInterval * j)"
  using DecodeEntry_at [OF assms(1), of "it\<lparr>it_current := blk_restarts b ! j\<rparr>" "kRestartInterval * j"]
    restart_nth [OF assms] by auto

text \<open>The binary search ends at a restart point whose key is below the target, or at the first one.\<close>

lemma Seek_restart_at:
  assumes "block_holds b es" "left \<le> right" "right < length (blk_restarts b)"
    and "left = 0 \<or> fst (es ! (kRestartInterval * left)) < target"
  shows "\<exists>j it'. Seek_restart b target left right it = Some (j, it') \<and> j < length (blk_restarts b) \<and>
    (j = 0 \<or> fst (es ! (kRestartInterval * j)) < target)"
  using assms(2-4)
proof (induction "right - left" arbitrary: left right it rule: less_induct)
  case less
  show ?case
  proof (cases "left < right")
    case False
    then show ?thesis using less.prems by (subst Seek_restart.simps) auto
  next
    case True
    let ?mid = "(left + right + 1) div 2"
    have mid: "left < ?mid" "?mid \<le> right" using True by auto
    obtain it1 where it1: "DecodeEntry b (it\<lparr>it_current := blk_restarts b ! ?mid\<rparr>) = Some it1"
      "it_at es it1 (kRestartInterval * ?mid)"
      using decode_restart [OF assms(1), of ?mid it] mid(2) less.prems(2) by auto
    have k: "it_key it1 = fst (es ! (kRestartInterval * ?mid))"
      using it1(2) restart_nth(2) [OF assms(1), of ?mid] mid(2) less.prems(2) by (auto simp: it_at_def)
    have run: "Seek_restart b target left right it =
        (if it_key it1 < target then Seek_restart b target ?mid right it1
         else Seek_restart b target left (?mid - 1) it1)"
      using True it1(1) by (subst Seek_restart.simps) (simp add: Let_def)
    show ?thesis
    proof (cases "it_key it1 < target")
      case lt: True
      have "right - ?mid < right - left" using mid by linarith
      then show ?thesis using less.hyps [of right ?mid it1] lt k run mid less.prems(2) by simp
    next
      case ge: False
      have "?mid - 1 - left < right - left" using mid by linarith
      then show ?thesis using less.hyps [of "?mid - 1" left it1] ge run mid less.prems(2,3) by simp
    qed
  qed
qed

text \<open>With the entries below the target in front, \<open>Seek\<close> finds the first one that is not.\<close>

lemma BlockIter_Seek_at:
  assumes b: "block_holds b es"
    and mono: "sorted_wrt (\<lambda>x y. fst y < target \<longrightarrow> fst x < target) es"
  shows "\<exists>it'. BlockIter_Seek b target it = Some it' \<and>
    it_at es it' (length (takeWhile (\<lambda>e. fst e < target) es))"
proof (cases "blk_restarts b = []")
  case True
  then have "num_restarts (length es) = 0" using b by (simp add: block_holds_def flip: length_0_conv)
  then have "es = []" using num_restarts_bounds [of 0 "length es"] by simp
  then show ?thesis using True by (simp add: BlockIter_Seek_def it_at_def)
next
  case False
  then have r: "length (blk_restarts b) - 1 < length (blk_restarts b)" by (simp add: Suc_le_eq)
  obtain j it1 where j: "Seek_restart b target 0 (length (blk_restarts b) - 1) it = Some (j, it1)"
    "j < length (blk_restarts b)" "j = 0 \<or> fst (es ! (kRestartInterval * j)) < target"
    using Seek_restart_at [OF b _ r] by blast
  let ?i = "kRestartInterval * j"
  obtain it2 where it2: "DecodeEntry b (it1\<lparr>it_restart_index := j, it_current := blk_restarts b ! j\<rparr>) = Some it2"
    "it_at es it2 ?i"
    using decode_restart [OF b j(2), of "it1\<lparr>it_restart_index := j\<rparr>"] by auto
  have i: "?i < length es" using restart_nth(2) [OF b j(2)] .
  obtain it3 where it3: "Seek_scan b target it2 = Some it3" "it_at es it3 (first_from target es ?i)"
    using Seek_scan_at [OF b it2(2)] i by (meson less_imp_le)
  have "fst (es ! m) < target" if "m < ?i" for m
  proof -
    have "fst (es ! ?i) < target" using j(3) that by auto
    then show ?thesis using sorted_wrt_nth_less [OF mono that i] by simp
  qed
  then have "fst (take ?i es ! m) < target" if "m < length (take ?i es)" for m using that by simp
  then have "fst x < target" if "x \<in> set (take ?i es)" for x
    using that unfolding in_set_conv_nth by blast
  then have "takeWhile (\<lambda>e. fst e < target) (take ?i es @ drop ?i es) =
      take ?i es @ takeWhile (\<lambda>e. fst e < target) (drop ?i es)"
    by (rule takeWhile_append2)
  then have tw: "takeWhile (\<lambda>e. fst e < target) es = take ?i es @ takeWhile (\<lambda>e. fst e < target) (drop ?i es)"
    by simp
  have "length (takeWhile (\<lambda>e. fst e < target) es) = first_from target es ?i"
    unfolding tw using i by (simp add: first_from_def)
  then show ?thesis using False j(1) it2(1) it3 by (simp add: BlockIter_Seek_def)
qed

lemma BlockIter_SeekToFirst_at:
  assumes "block_holds b es"
  shows "\<exists>it'. BlockIter_SeekToFirst b it = Some it' \<and> it_at es it' 0"
proof (cases "blk_restarts b = []")
  case True
  then have "num_restarts (length es) = 0" using assms by (simp add: block_holds_def flip: length_0_conv)
  then have "es = []" using num_restarts_bounds [of 0 "length es"] by simp
  then show ?thesis using True by (simp add: BlockIter_SeekToFirst_def it_at_def)
next
  case False
  then show ?thesis
    using decode_restart [OF assms, of 0 "it\<lparr>it_restart_index := 0\<rparr>"]
    by (auto simp: BlockIter_SeekToFirst_def)
qed

section \<open>What a block answers\<close>

text \<open>The block of the builder over some entries, and the loop of a client over a block.\<close>

definition build_block :: "kv list \<Rightarrow> bytes" where
  "build_block es = fst (BlockBuilder_Finish (fold (\<lambda>e. BlockBuilder_Add (fst e) (snd e)) es BlockBuilder_Reset))"

fun iter_entries :: "nat \<Rightarrow> Block \<Rightarrow> BlockIter \<Rightarrow> kv list option" where
  "iter_entries 0 b it = None"
| "iter_entries (Suc fuel) b it =
     (if it_valid it
      then Option.bind (BlockIter_Next b it) (\<lambda>it'. map_option ((#) (it_key it, it_value it)) (iter_entries fuel b it'))
      else Some [])"

definition block_entries :: "bytes \<Rightarrow> kv list option" where
  "block_entries bs = Option.bind (Block_new bs)
     (\<lambda>b. Option.bind (BlockIter_SeekToFirst b NewIterator) (iter_entries (Suc (length (blk_data b))) b))"

definition block_seek :: "bytes \<Rightarrow> bytes \<Rightarrow> kv option option" where
  "block_seek bs target = Option.bind (Block_new bs)
     (\<lambda>b. map_option (\<lambda>it. if it_valid it then Some (it_key it, it_value it) else None)
       (BlockIter_Seek b target NewIterator))"

lemma length_enc_entry: "length (enc_entry sh e) \<le> 15 + length (fst e) + length (snd e)"
proof -
  have "length (EncodeVarint (ucast (word_of_nat a :: u32))) \<le> 5" for a by (rule length_EncodeVarint32)
  from this [of sh] this [of "length (fst e) - sh"] this [of "length (snd e)"] show ?thesis
    by (simp add: enc_entry_def PutVarint32_def)
qed

lemma bb_holds_fold:
  "bb_holds bb fs \<Longrightarrow> bb_holds (fold (\<lambda>e. BlockBuilder_Add (fst e) (snd e)) es bb) (fs @ es)"
proof (induction es arbitrary: bb fs)
  case (Cons e es)
  show ?case using Cons.IH [OF bb_holds_Add [OF Cons.prems, of e]] by simp
qed simp

lemma build_block_enc: "build_block es = enc_block es"
  unfolding build_block_def using bb_holds_Finish [OF bb_holds_fold [OF bb_holds_Reset]] by simp

lemma length_enc_entries:
  "length (enc_entries l c es) \<le> (\<Sum>e\<leftarrow>es. 15 + length (fst e) + length (snd e))"
proof (induction es arbitrary: l c)
  case (Cons e es)
  show ?case
    using length_enc_entry [of "entry_shared l c e" e] Cons.IH [of "fst e" "Suc c mod kRestartInterval"] by simp
qed simp

lemma num_restarts_le: "num_restarts n \<le> n"
  using num_restarts_bounds [of "num_restarts n - 1" n] by (cases "num_restarts n") (auto simp: kRestartInterval_def)

lemma length_build_block:
  "length (build_block es) \<le> (\<Sum>e\<leftarrow>es. 19 + length (fst e) + length (snd e)) + 4"
proof -
  have "(\<Sum>e\<leftarrow>es. 19 + length (fst e) + length (snd e)) = (\<Sum>e\<leftarrow>es. 15 + length (fst e) + length (snd e)) + 4 * length es"
    by (induction es) simp_all
  then show ?thesis
    using length_enc_entries [of "[]" 0 es] num_restarts_le [of "length es"]
    by (simp add: build_block_enc length_enc_block)
qed

lemma iter_entries_at:
  assumes "block_holds b es" "it_at es it i" "i \<le> length es" "length es < fuel + i"
  shows "iter_entries fuel b it = Some (drop i es)"
  using assms(2-4)
proof (induction fuel arbitrary: i it)
  case (Suc fuel)
  show ?case
  proof (cases "i < length es")
    case True
    obtain it' where it': "BlockIter_Next b it = Some it'" "it_at es it' (Suc i)"
      using BlockIter_Next_at [OF assms(1) Suc.prems(1) True] by blast
    have "iter_entries fuel b it' = Some (drop (Suc i) es)"
      using Suc.IH [OF it'(2)] True Suc.prems(3) by simp
    moreover have "drop i es = es ! i # drop (Suc i) es" using True by (simp add: Cons_nth_drop_Suc)
    ultimately show ?thesis using it'(1) Suc.prems(1) True by (simp add: it_at_def)
  next
    case False
    then show ?thesis using Suc.prems(1,2) by (simp add: it_at_def)
  qed
qed simp

lemma it_at_takeWhile:
  "it_at es it (length (takeWhile P es)) \<Longrightarrow>
   (if it_valid it then Some (it_key it, it_value it) else None) = find (\<lambda>e. \<not> P e) es"
proof (induction es rule: rev_induct)
  case (snoc e es)
  have f: "find (\<lambda>e. \<not> P e) xs = (if length (takeWhile P xs) < length xs
      then Some (xs ! length (takeWhile P xs)) else None)" for xs
    by (induction xs) auto
  show ?case using snoc.prems unfolding f [of "es @ [e]"] it_at_def by (auto split: if_splits)
qed (simp add: it_at_def)

text \<open>
  C34. The block format works: a block built from any entries reads back as exactly
  these entries, by the loop over its iterator; and when the keys below the target come
  first, \<open>Seek\<close>, the binary search over the restart points with the scan behind it,
  stops on the first entry whose key is not below the target, or on none.
\<close>

theorem block_iterates_and_seeks:
  assumes "length (build_block es) < 2 ^ 32"
    and "\<forall>e \<in> set es. length (fst e) < 2 ^ 32 \<and> length (snd e) < 2 ^ 32"
    and "sorted_wrt (\<lambda>x y. fst y < target \<longrightarrow> fst x < target) es"
  shows "block_entries (build_block es) = Some es \<and>
    block_seek (build_block es) target = Some (find (\<lambda>e. \<not> fst e < target) es)"
proof
  have "list_all kv_ok es" using assms(2) by (simp add: list_all_iff kv_ok_def)
  then obtain b where b: "Block_new (build_block es) = Some b" "block_holds b es"
    using Block_new_enc assms(1) unfolding build_block_enc by blast
  obtain it where it: "BlockIter_SeekToFirst b NewIterator = Some it" "it_at es it 0"
    using BlockIter_SeekToFirst_at [OF b(2)] by blast
  have "length es < Suc (length (blk_data b)) + 0"
    using b(2) length_le_enc_entries [of es "[]" 0] by (simp add: block_holds_def)
  then show "block_entries (build_block es) = Some es"
    using b(1) it(1) iter_entries_at [OF b(2) it(2)] by (simp add: block_entries_def del: iter_entries.simps)
  obtain it' where it': "BlockIter_Seek b target NewIterator = Some it'"
    "it_at es it' (length (takeWhile (\<lambda>e. fst e < target) es))"
    using BlockIter_Seek_at [OF b(2) assms(3)] by blast
  then show "block_seek (build_block es) target = Some (find (\<lambda>e. \<not> fst e < target) es)"
    using b(1) it_at_takeWhile [OF it'(2)] by (simp add: block_seek_def)
qed

theorem block_iterates_and_seeks_witness:
  "block_entries (build_block [([1], [10]), ([1, 2], []), ([3], [30])]) = Some [([1], [10]), ([1, 2], []), ([3], [30])] \<and>
   block_seek (build_block [([1], [10]), ([1, 2], []), ([3], [30])]) [1, 5] = Some (Some ([3], [30]))"
proof -
  let ?es = "[([1], [10]), ([1, 2], []), ([3 :: byte], [30 :: byte])]"
  have "length (build_block ?es) < 2 ^ 32" using length_build_block [of ?es] by simp
  moreover have "\<forall>e \<in> set ?es. length (fst e) < 2 ^ 32 \<and> length (snd e) < 2 ^ 32" by simp
  moreover have "sorted_wrt (\<lambda>x y. fst y < [1, 5] \<longrightarrow> fst x < [1, 5]) ?es" by simp
  ultimately show ?thesis using block_iterates_and_seeks [of ?es "[1, 5]"] by simp
qed

text \<open>
  Reading the restart array stays inside the block unless four times the announced number of
  restart points wraps.
\<close>

lemma Block_new_undefined:
  fixes contents :: bytes
  defines "n \<equiv> unat (DecodeFixed32 (drop (length contents - 4) contents))"
  shows "Block_new contents = None \<longleftrightarrow> 4 \<le> length contents \<and> 2 ^ 30 \<le> n \<and> 4 * (n mod 2 ^ 30) + 4 \<le> length contents"
proof -
  let ?c = "DecodeFixed32 (drop (length contents - 4) contents)"
  have "unat (?c * 4) = n * 4 mod (2 ^ 30 * 4)" by (simp add: n_def unat_word_ariths)
  then have size: "unat (?c * 4) = 4 * (n mod 2 ^ 30)" by (simp only: mult_mod_left [symmetric] mult.commute [of 4])
  have "4 * (n mod 2 ^ 30) + 4 < 4 * n \<longleftrightarrow> 2 ^ 30 \<le> n"
  proof (cases "2 ^ 30 \<le> n")
    case True
    have "n mod 2 ^ 30 + 2 ^ 30 \<le> n" using True by (metis add_le_cancel_left le_mod_geq mod_less_eq_dividend ordered_cancel_comm_monoid_diff_class.le_diff_conv2)
    then show ?thesis using True by simp
  qed simp
  then show ?thesis unfolding Block_new_def Let_def size n_def [symmetric] by auto
qed

end
