(* ===== verification/TableFormat.thy ===== *)
theory TableFormat
  imports Coding Crc32c StdFile
begin

text \<open>
  \<open>src/table/format.h\<close> and \<open>src/table/format.cc\<close>: the handle that locates a block, the
  footer of 48 bytes at the end of a table, and the blocks in the file, each followed by
  a type byte and a masked checksum.  A handle or footer that is decoded in place is
  returned beside the status; \<open>None\<close> marks undefined behaviour of the code.
\<close>

section \<open>Handles\<close>

definition kTableMagicNumber :: u64 where "kTableMagicNumber = 0xdb4775248b80fb57"

record BlockHandle =
  bh_offset :: u64
  bh_size :: u64

definition BlockHandle_new :: BlockHandle where
  "BlockHandle_new = \<lparr>bh_offset = 0, bh_size = 0\<rparr>"

definition kMaxEncodedLength :: nat where "kMaxEncodedLength = 10 + 10"

definition BlockHandle_EncodeTo :: "BlockHandle \<Rightarrow> bytes \<Rightarrow> bytes" where
  "BlockHandle_EncodeTo h dst = PutVarint64 (PutVarint64 dst (bh_offset h)) (bh_size h)"

text \<open>A failing read leaves the input, and the field it was to fill, as they were.\<close>

definition BlockHandle_DecodeFrom :: "BlockHandle \<Rightarrow> bytes \<Rightarrow> Status \<times> BlockHandle \<times> bytes" where
  "BlockHandle_DecodeFrom h input =
     (case GetVarint64 input of
        None \<Rightarrow> (Corruption (str ''bad block handle''), h, input)
      | Some (off, input) \<Rightarrow>
      (case GetVarint64 input of
        None \<Rightarrow> (Corruption (str ''bad block handle''), h\<lparr>bh_offset := off\<rparr>, input)
      | Some (sz, input) \<Rightarrow> (Status_OK, h\<lparr>bh_offset := off, bh_size := sz\<rparr>, input)))"

section \<open>The footer\<close>

record Footer =
  metaindex_handle :: BlockHandle
  index_handle :: BlockHandle

definition Footer_new :: Footer where
  "Footer_new = \<lparr>metaindex_handle = BlockHandle_new, index_handle = BlockHandle_new\<rparr>"

definition kEncodedLength :: nat where "kEncodedLength = 2 * kMaxEncodedLength + 8"

definition Footer_EncodeTo :: "Footer \<Rightarrow> bytes \<Rightarrow> bytes" where
  "Footer_EncodeTo ft dst =
     (let original_size = length dst;
          dst = BlockHandle_EncodeTo (metaindex_handle ft) dst;
          dst = BlockHandle_EncodeTo (index_handle ft) dst;
          n = original_size + 2 * kMaxEncodedLength;
          dst = take n dst @ replicate (n - length dst) 0
      in dst @ EncodeFixed32 (ucast (kTableMagicNumber AND 0xffffffff)) @
         EncodeFixed32 (ucast (drop_bit 32 kTableMagicNumber)))"

text \<open>
  The handles are decoded from the input itself, which moves past them; after that the
  code removes \<open>kEncodedLength\<close> bytes more.  The third component is the input behind it,
  \<open>None\<close> when that is past its end.
\<close>

definition Footer_DecodeFrom :: "Footer \<Rightarrow> bytes \<Rightarrow> Status \<times> Footer \<times> bytes option" where
  "Footer_DecodeFrom ft input =
     (if length input < kEncodedLength then (Corruption (str ''not an sstable (too small)''), ft, Some input)
      else if DecodeFixed64 (drop (kEncodedLength - 8) input) \<noteq> kTableMagicNumber
      then (Corruption (str ''bad magic number''), ft, Some input)
      else
        let (s, mh, input) = BlockHandle_DecodeFrom (metaindex_handle ft) input;
            ft = ft\<lparr>metaindex_handle := mh\<rparr>
        in if \<not> ok s then (s, ft, Some input)
           else
             let (s, ih, input) = BlockHandle_DecodeFrom (index_handle ft) input;
                 ft = ft\<lparr>index_handle := ih\<rparr>
             in if ok s then (s, ft, Slice_remove_prefix kEncodedLength input) else (s, ft, Some input))"

section \<open>Blocks in a file\<close>

definition kBlockTrailerSize :: nat where "kBlockTrailerSize = 5"

definition kNoCompression :: byte where "kNoCompression = 0"

definition WriteBlock :: "Os \<Rightarrow> bytes \<Rightarrow> BlockHandle \<Rightarrow> FILE \<Rightarrow> Status \<times> BlockHandle \<times> FILE" where
  "WriteBlock os contents handle f =
     (case ftell os f of
        None \<Rightarrow> (IOError (str ''ftell failed''), handle, f)
      | Some off \<Rightarrow>
        let handle = handle\<lparr>bh_offset := word_of_nat off, bh_size := word_of_nat (length contents)\<rparr>;
            (n, f) = fwrite os contents f
        in if n \<noteq> length contents then (IOError (str ''while writing block''), handle, f)
           else
             let type = kNoCompression;
                 crc = Extend (Value [type]) contents;
                 trailer = [type] @ EncodeFixed32 (MaskCrc32c crc);
                 (n, f) = fwrite os trailer f
             in if n \<noteq> kBlockTrailerSize then (IOError (str ''while writing block trailer''), handle, f)
                else (Status_OK, handle, f))"

text \<open>
  Reading from the bytes of a file.  An offset that is negative as a \<open>long\<close> makes \<open>fseek\<close>
  fail.  A size that no string can have makes \<open>resize\<close> throw, or \<open>n + 5\<close> wrap: \<open>None\<close>.
\<close>

definition ReadBlock :: "Reads \<Rightarrow> bytes \<Rightarrow> BlockHandle \<Rightarrow> (Status \<times> bytes) option" where
  "ReadBlock rd file handle =
     (let n = unat (bh_size handle) in
      if sint (bh_offset handle) < 0 then Some (IOError (str ''while seeking to block''), [])
      else if n + kBlockTrailerSize \<ge> 2 ^ 63 then None
      else
        let scratch = fread rd (n + kBlockTrailerSize) (unat (bh_offset handle)) file in
        if length scratch \<noteq> n + kBlockTrailerSize then Some (IOError (str ''while reading block''), [])
        else
          let type = scratch ! n in
          if type \<noteq> kNoCompression then Some (Corruption (str ''bad block type''), [])
          else
            let crc = Extend (Value [type]) (take n scratch) in
            if UnmaskCrc32c (DecodeFixed32 (drop (n + 1) scratch)) \<noteq> crc
            then Some (Corruption (str ''block checksum mismatch''), [])
            else Some (Status_OK, take n scratch))"

section \<open>Round trips\<close>

lemma BlockHandle_Decode_Encode [roundtrip_simps]:
  "BlockHandle_DecodeFrom h' (BlockHandle_EncodeTo h [] @ rest) = (Status_OK, h, rest)"
  by (cases h) (simp add: BlockHandle_DecodeFrom_def BlockHandle_EncodeTo_def PutVarint64_def)

lemmas BlockHandle_Decode_exact [roundtrip_simps] = BlockHandle_Decode_Encode [where rest = "[]", simplified]

lemma BlockHandle_EncodeTo_append: "BlockHandle_EncodeTo h dst = dst @ BlockHandle_EncodeTo h []"
  by (simp add: BlockHandle_EncodeTo_def PutVarint64_def)

lemma length_BlockHandle_EncodeTo: "length (BlockHandle_EncodeTo h []) \<le> kMaxEncodedLength"
  using length_EncodeVarint64 [of "bh_offset h"] length_EncodeVarint64 [of "bh_size h"]
  by (simp add: BlockHandle_EncodeTo_def PutVarint64_def kMaxEncodedLength_def)

interpretation handle: byte_codec "\<lambda>h. BlockHandle_EncodeTo h []"
  "\<lambda>bs. case BlockHandle_DecodeFrom BlockHandle_new bs of (s, h, rest) \<Rightarrow> if ok s then Some (h, rest) else None"
  "\<lambda>_. True"
  by unfold_locales (simp add: roundtrip_simps)

text \<open>The magic number as the footer stores it.\<close>

lemma magic_bytes:
  "EncodeFixed32 (ucast (kTableMagicNumber AND 0xffffffff)) @ EncodeFixed32 (ucast (drop_bit 32 kTableMagicNumber)) =
   EncodeFixed64 kTableMagicNumber"
  by (simp add: kTableMagicNumber_def EncodeFixed32_def EncodeFixed64_def upt_rec)

lemma Footer_EncodeTo_shape:
  "Footer_EncodeTo ft dst = dst @ BlockHandle_EncodeTo (metaindex_handle ft) [] @
     BlockHandle_EncodeTo (index_handle ft) [] @
     replicate (2 * kMaxEncodedLength - length (BlockHandle_EncodeTo (metaindex_handle ft) []) -
       length (BlockHandle_EncodeTo (index_handle ft) [])) 0 @ EncodeFixed64 kTableMagicNumber"
proof -
  let ?m = "BlockHandle_EncodeTo (metaindex_handle ft) []" and ?i = "BlockHandle_EncodeTo (index_handle ft) []"
  have e: "BlockHandle_EncodeTo (index_handle ft) (BlockHandle_EncodeTo (metaindex_handle ft) dst) = dst @ ?m @ ?i"
    by (simp add: BlockHandle_EncodeTo_append [of _ dst] BlockHandle_EncodeTo_append [of _ "dst @ _"])
  have "length ?m + length ?i \<le> 2 * kMaxEncodedLength"
    using length_BlockHandle_EncodeTo [of "metaindex_handle ft"] length_BlockHandle_EncodeTo [of "index_handle ft"] by simp
  then show ?thesis
    unfolding Footer_EncodeTo_def Let_def e magic_bytes by simp
qed

lemma length_Footer_EncodeTo [size_simps]: "length (Footer_EncodeTo ft []) = kEncodedLength"
  using length_BlockHandle_EncodeTo [of "metaindex_handle ft"] length_BlockHandle_EncodeTo [of "index_handle ft"]
  by (simp add: Footer_EncodeTo_shape kEncodedLength_def)

lemma drop_to_magic:
  "drop (kEncodedLength - 8) (Footer_EncodeTo ft [] @ rest) = EncodeFixed64 kTableMagicNumber @ rest"
proof -
  obtain body where b: "Footer_EncodeTo ft [] = body @ EncodeFixed64 kTableMagicNumber"
    unfolding Footer_EncodeTo_shape by (metis append.assoc append_Nil)
  moreover have "length body = kEncodedLength - 8" using length_Footer_EncodeTo [of ft] b by simp
  ultimately show ?thesis by simp
qed

lemma Footer_Decode_Encode:
  assumes "length rest < kEncodedLength"
  shows "\<exists>r. Footer_DecodeFrom ft' (Footer_EncodeTo ft [] @ rest) = (Status_OK, ft, r) \<and>
    (length rest < 2 \<longrightarrow> r = None)"
proof -
  let ?m = "BlockHandle_EncodeTo (metaindex_handle ft) []" and ?i = "BlockHandle_EncodeTo (index_handle ft) []"
  let ?r = "replicate (2 * kMaxEncodedLength - length ?m - length ?i) 0 @ EncodeFixed64 kTableMagicNumber @ rest"
  have sh: "Footer_EncodeTo ft [] @ rest = ?m @ ?i @ ?r" by (simp add: Footer_EncodeTo_shape)
  have "EncodeVarint v \<noteq> []" for v by simp
  then have "1 \<le> length (EncodeVarint v)" for v by (simp add: Suc_le_eq)
  from this [of "bh_offset (metaindex_handle ft)"] this [of "bh_size (metaindex_handle ft)"]
    this [of "bh_offset (index_handle ft)"] this [of "bh_size (index_handle ft)"]
  have "4 \<le> length ?m + length ?i" by (simp add: BlockHandle_EncodeTo_def PutVarint64_def)
  then have "length rest < 2 \<Longrightarrow> length ?r < kEncodedLength"
    by (simp add: kEncodedLength_def kMaxEncodedLength_def)
  moreover have "Footer_DecodeFrom ft' (Footer_EncodeTo ft [] @ rest) =
      (Status_OK, ft, Slice_remove_prefix kEncodedLength ?r)"
  proof -
    have 1: "\<not> length (Footer_EncodeTo ft [] @ rest) < kEncodedLength" using length_Footer_EncodeTo [of ft] by simp
    have 2: "DecodeFixed64 (drop (kEncodedLength - 8) (Footer_EncodeTo ft [] @ rest)) = kTableMagicNumber"
      unfolding drop_to_magic by simp
    show ?thesis
      unfolding Footer_DecodeFrom_def if_not_P [OF 1] if_P [OF refl] 2
      unfolding sh BlockHandle_Decode_Encode Let_def prod.case by simp
  qed
  ultimately show ?thesis by (auto simp: Slice_remove_prefix_def)
qed

section \<open>Blocks round trip\<close>

text \<open>A block as it stands in the file.\<close>

definition block_image :: "bytes \<Rightarrow> bytes" where
  "block_image c = c @ [kNoCompression] @ EncodeFixed32 (MaskCrc32c (Value (kNoCompression # c)))"

lemma length_block_image [size_simps, simp]: "length (block_image c) = length c + kBlockTrailerSize"
  by (simp add: block_image_def kBlockTrailerSize_def)

text \<open>Whatever the operating system does, a first part of the block is appended; all of it on success.\<close>

lemma WriteBlock_cases:
  assumes "WriteBlock os c h f = (s, h', f')"
  shows "(\<exists>k. content f' = content f @ take k (block_image c)) \<and> flushed f' = flushed f"
    and "ok s \<Longrightarrow> content f' = content f @ block_image c \<and>
      h' = \<lparr>bh_offset = word_of_nat (length (content f)), bh_size = word_of_nat (length c)\<rparr>"
proof -
  let ?t = "[kNoCompression] @ EncodeFixed32 (MaskCrc32c (Value (kNoCompression # c)))"
  let ?h = "\<lparr>bh_offset = word_of_nat (length (content f)), bh_size = word_of_nat (length c)\<rparr>"
  have e: "Extend (Value [kNoCompression]) c = Value (kNoCompression # c)" by (simp add: Extend_Value)
  obtain n f1 where w1: "fwrite os c f = (n, f1)" by fastforce
  obtain m f2 where w2: "fwrite os ?t f1 = (m, f2)" by fastforce
  note p = fwrite_prefix [OF w1] fwrite_prefix [OF w2]
  have t: "length ?t = kBlockTrailerSize" by (simp add: kBlockTrailerSize_def)
  consider (tell) "f' = f" "\<not> ok s" | (short) "f' = f1" "\<not> ok s" | (trailer) "f' = f2" "n = length c" "\<not> ok s"
    | (all) "f' = f2" "n = length c" "m = length ?t" "h' = ?h"
    using assms w1 w2 t unfolding WriteBlock_def Let_def e
    by (cases h) (auto simp: ftell_def split: option.splits if_splits)
  then have "(\<exists>k. content f' = content f @ take k (block_image c)) \<and> flushed f' = flushed f \<and>
      (ok s \<longrightarrow> content f' = content f @ block_image c \<and> h' = ?h)"
  proof cases
    case tell
    then have "content f' = content f @ take 0 (block_image c)" by simp
    then show ?thesis using tell by blast
  next
    case short
    then have "content f' = content f @ take n (block_image c)" using p(1) by (simp add: block_image_def)
    then show ?thesis using short p(1) by blast
  next
    case trailer
    then have "content f' = content f @ take (length c + m) (block_image c)" using p by (simp add: block_image_def)
    then show ?thesis using trailer p by auto
  next
    case all
    then have "content f' = content f @ take (length c + m) (block_image c)" using p by (simp add: block_image_def)
    moreover have "content f' = content f @ block_image c" using all p by (simp add: block_image_def)
    ultimately show ?thesis using all p by metis
  qed
  then show "(\<exists>k. content f' = content f @ take k (block_image c)) \<and> flushed f' = flushed f"
    "ok s \<Longrightarrow> content f' = content f @ block_image c \<and> h' = ?h" by auto
qed

lemma WriteBlock_succeeds:
  assumes "never_short os" "tells os"
  shows "ok (fst (WriteBlock os c h f))"
  unfolding WriteBlock_def Let_def
  by (simp add: ftell_tells [OF assms(2)] fwrite_never_short [OF assms(1)] kBlockTrailerSize_def)

lemma drop_word_offset:
  assumes "length pre < 2 ^ 63"
  shows "unat (word_of_nat (length pre) :: u64) = length pre" "\<not> sint (word_of_nat (length pre) :: u64) < 0"
proof -
  show u: "unat (word_of_nat (length pre) :: u64) = length pre" using assms by (simp add: unat_word_of_nat_less)
  have "0 \<le> sint (word_of_nat (length pre) :: u64)"
    using assms u by (simp add: sint_uint signed_take_bit_int_eq_self uint_nat)
  then show "\<not> sint (word_of_nat (length pre) :: u64) < 0" by simp
qed

lemma ReadBlock_at:
  assumes "length pre < 2 ^ 63" "length c + kBlockTrailerSize < 2 ^ 63" "length tail = 4"
  shows "ReadBlock all_read (pre @ c @ [t] @ tail @ post)
      \<lparr>bh_offset = word_of_nat (length pre), bh_size = word_of_nat (length c)\<rparr> =
    Some (if t \<noteq> kNoCompression then (Corruption (str ''bad block type''), [])
      else if UnmaskCrc32c (DecodeFixed32 tail) \<noteq> Value (t # c) then (Corruption (str ''block checksum mismatch''), [])
      else (Status_OK, c))"
proof -
  have n: "unat (word_of_nat (length c) :: u64) = length c"
    using assms(2) by (simp add: kBlockTrailerSize_def unat_word_of_nat_less)
  have r: "fread all_read (length c + kBlockTrailerSize) (length pre) (pre @ c @ [t] @ tail @ post) = c @ [t] @ tail"
    using assms(3) by (simp add: kBlockTrailerSize_def)
  have e: "Extend (Value [b]) c = Value (b # c)" for b by (simp add: Extend_Value)
  show ?thesis
    unfolding ReadBlock_def Let_def BlockHandle.simps n drop_word_offset(1) [OF assms(1)] r
    using drop_word_offset(2) [OF assms(1)] assms(2,3)
    by (auto simp: nth_append kBlockTrailerSize_def e)
qed

lemma ReadBlock_image:
  assumes "length pre < 2 ^ 63" "length c + kBlockTrailerSize < 2 ^ 63"
  shows "ReadBlock all_read (pre @ block_image c @ post)
      \<lparr>bh_offset = word_of_nat (length pre), bh_size = word_of_nat (length c)\<rparr> = Some (Status_OK, c)"
  using ReadBlock_at [OF assms, of "EncodeFixed32 (MaskCrc32c (Value (kNoCompression # c)))" kNoCompression post]
  by (simp add: block_image_def)

text \<open>
  C36. Block handles and the footer round-trip: a footer is 48 bytes and decodes to the
  handles it was made of.  The decoder then moves its input 48 bytes beyond the decoded
  handles, past its end when the input is the footer alone, as it is in \<open>Table::Open\<close>.
\<close>

theorem footer_roundtrip:
  "length (Footer_EncodeTo ft []) = 48 \<and>
   Footer_DecodeFrom ft' (Footer_EncodeTo ft []) = (Status_OK, ft, None) \<and>
   BlockHandle_DecodeFrom h' (BlockHandle_EncodeTo h [] @ rest) = (Status_OK, h, rest)"
proof -
  have "length (Footer_EncodeTo ft []) = 48"
    using length_Footer_EncodeTo [of ft] by (simp add: kEncodedLength_def kMaxEncodedLength_def)
  moreover have "length ([] :: bytes) < kEncodedLength" by (simp add: kEncodedLength_def)
  from Footer_Decode_Encode [OF this, of ft' ft]
  have "Footer_DecodeFrom ft' (Footer_EncodeTo ft []) = (Status_OK, ft, None)" by simp
  ultimately show ?thesis using BlockHandle_Decode_Encode by blast
qed

text \<open>
  C37. What \<open>WriteBlock\<close> acknowledges, \<open>ReadBlock\<close> returns: whatever else is in the
  file, and whatever is appended later, the handle leads to exactly the contents
  written.  A write that is not acknowledged has appended a part of the block at most.
\<close>

theorem block_write_read:
  assumes "WriteBlock os c h f = (s, h', f')"
    and "length (content f) < 2 ^ 63" "length c + 5 < 2 ^ 63"
  shows "(ok s \<longrightarrow> ReadBlock all_read (content f' @ later) h' = Some (Status_OK, c)) \<and>
    (\<exists>n \<le> length c + 5. \<exists>part. length part = n \<and> content f' = content f @ part)"
proof (intro conjI impI)
  assume "ok s"
  then show "ReadBlock all_read (content f' @ later) h' = Some (Status_OK, c)"
    using WriteBlock_cases(2) [OF assms(1)] ReadBlock_image [of "content f" c later] assms(2,3)
    by (simp add: kBlockTrailerSize_def)
next
  obtain k where "content f' = content f @ take k (block_image c)" using WriteBlock_cases(1) [OF assms(1)] by blast
  then show "\<exists>n \<le> length c + 5. \<exists>part. length part = n \<and> content f' = content f @ part"
    using length_block_image [of c] by (intro exI [of _ "length (take k (block_image c))"]) (simp add: kBlockTrailerSize_def)
qed

theorem block_write_read_witness:
  "\<exists>f'. WriteBlock good_os [1, 2] BlockHandle_new fopen_new = (Status_OK, \<lparr>bh_offset = 0, bh_size = 2\<rparr>, f') \<and>
     ReadBlock all_read (content f' @ [9]) \<lparr>bh_offset = 0, bh_size = 2\<rparr> = Some (Status_OK, [1, 2])"
proof -
  obtain s h' f' where w: "WriteBlock good_os [1, 2] BlockHandle_new fopen_new = (s, h', f')"
    by (metis prod_cases3)
  have s: "s = Status_OK" "h' = \<lparr>bh_offset = 0, bh_size = 2\<rparr>"
    using w by (auto simp: WriteBlock_def ftell_def fwrite_def good_os_def fopen_new_def BlockHandle_new_def
        kBlockTrailerSize_def Let_def)
  have "length (content fopen_new) < 2 ^ 63" "length [1 :: byte, 2] + 5 < 2 ^ 63" by (simp_all add: fopen_new_def)
  from block_write_read [OF w this, of "[9]"] s w show ?thesis by auto
qed

text \<open>
  A damaged block is refused.  If the type byte is not the one the writer uses, or a
  change is confined to four consecutive bytes of the contents, or to the four bytes of
  the checksum, \<open>ReadBlock\<close> reports corruption.
\<close>

theorem block_damage_detected:
  assumes "length pre < 2 ^ 63" "length (x @ as @ y) + 5 < 2 ^ 63" "length as = length bs" "length bs \<le> 4"
    and "length tail = 4"
    and "t \<noteq> kNoCompression \<or>
      (as = bs) \<noteq> (tail = EncodeFixed32 (MaskCrc32c (Value (kNoCompression # x @ as @ y))))"
  shows "\<exists>m. ReadBlock all_read (pre @ x @ bs @ y @ [t] @ tail @ post)
      \<lparr>bh_offset = word_of_nat (length pre), bh_size = word_of_nat (length (x @ as @ y))\<rparr> = Some (Corruption m, [])"
proof -
  have len: "length (x @ bs @ y) = length (x @ as @ y)" using assms(3) by simp
  have c: "UnmaskCrc32c (DecodeFixed32 tail) \<noteq> Value (t # x @ bs @ y)" if t: "t = kNoCompression"
  proof (cases "as = bs")
    case True
    then have "tail \<noteq> EncodeFixed32 (MaskCrc32c (Value (kNoCompression # x @ as @ y)))" using assms(6) t by simp
    then show ?thesis
      by (metis True t EncodeFixed32_Decode Mask_Unmask assms(5))
  next
    case False
    then have "tail = EncodeFixed32 (MaskCrc32c (Value (kNoCompression # x @ as @ y)))" using assms(6) t by simp
    moreover have "Value ((kNoCompression # x) @ as @ y) \<noteq> Value ((kNoCompression # x) @ bs @ y)"
      using assms(3,4) False by (intro Value_burst) simp_all
    ultimately show ?thesis using t by simp
  qed
  show ?thesis
    using ReadBlock_at [of pre "x @ bs @ y" tail t post] assms(1,2,5) c len
    by (auto simp: kBlockTrailerSize_def)
qed

theorem block_damage_detected_witness:
  "\<exists>m. ReadBlock all_read ([7] @ [1, 2] @ [9] @ [] @ [kNoCompression] @
        EncodeFixed32 (MaskCrc32c (Value (kNoCompression # [1, 2] @ [3] @ []))) @ [])
      \<lparr>bh_offset = word_of_nat (length [7 :: byte]), bh_size = word_of_nat (length ([1 :: byte, 2] @ [3] @ []))\<rparr> =
    Some (Corruption m, [])"
  by (rule block_damage_detected) simp_all

end
