(* ===== verification/TableBuilder.thy ===== *)
theory TableBuilder
  imports Block TableFormat
begin

text \<open>
  \<open>src/table/table_builder.h\<close> and \<open>src/table/table_builder.cc\<close>: a stream of sorted
  entries becomes a table file: data blocks of about four kilobytes, one index block with
  the last key and the handle of every data block, and a footer.  The lemmas relate the
  builder to \<open>table_bytes\<close>, the file for a list of chunks of entries.
\<close>

section \<open>The builder\<close>

definition tb_kBlockSize :: nat where "tb_kBlockSize = 4 * 1024"

record TableBuilder =
  tb_file :: FILE
  tb_data :: BlockBuilder
  tb_index :: BlockBuilder
  tb_last_key :: bytes
  tb_file_size :: u64
  tb_finished :: bool

definition TableBuilder_new :: "FILE \<Rightarrow> TableBuilder" where
  "TableBuilder_new f = \<lparr>tb_file = f, tb_data = BlockBuilder_Reset, tb_index = BlockBuilder_Reset,
     tb_last_key = [], tb_file_size = 0, tb_finished = False\<rparr>"

definition FileSize :: "TableBuilder \<Rightarrow> u64" where
  "FileSize tb = tb_file_size tb"

definition FlushDataBlock :: "Os \<Rightarrow> TableBuilder \<Rightarrow> Status \<times> TableBuilder" where
  "FlushDataBlock os tb =
     (if BlockBuilder_empty (tb_data tb) then (Status_OK, tb)
      else
        let (block_contents, data) = BlockBuilder_Finish (tb_data tb);
            (s, handle, f) = WriteBlock os block_contents BlockHandle_new (tb_file tb);
            tb = tb\<lparr>tb_file := f, tb_data := data\<rparr>
        in if \<not> ok s then (s, tb)
           else
             let handle_encoded = BlockHandle_EncodeTo handle [] in
             (Status_OK, tb\<lparr>
                tb_file_size := tb_file_size tb + word_of_nat (length block_contents + kBlockTrailerSize),
                tb_index := BlockBuilder_Add (tb_last_key tb) handle_encoded (tb_index tb),
                tb_data := BlockBuilder_Reset\<rparr>))"

definition TableBuilder_Add :: "Os \<Rightarrow> bytes \<Rightarrow> bytes \<Rightarrow> TableBuilder \<Rightarrow> Status \<times> TableBuilder" where
  "TableBuilder_Add os key value tb =
     (if tb_finished tb then (InvalidArgument (str ''table already finished''), tb)
      else
        let tb = tb\<lparr>tb_data := BlockBuilder_Add key value (tb_data tb), tb_last_key := key\<rparr> in
        if CurrentSizeEstimate (tb_data tb) \<ge> tb_kBlockSize then FlushDataBlock os tb else (Status_OK, tb))"

definition TableBuilder_Finish :: "Os \<Rightarrow> TableBuilder \<Rightarrow> Status \<times> TableBuilder" where
  "TableBuilder_Finish os tb =
     (if tb_finished tb then (InvalidArgument (str ''table already finished''), tb)
      else
        let (s, tb) = FlushDataBlock os tb in
        if \<not> ok s then (s, tb)
        else
          let (index_contents, index) = BlockBuilder_Finish (tb_index tb);
              (s, index_handle, f) = WriteBlock os index_contents BlockHandle_new (tb_file tb);
              tb = tb\<lparr>tb_index := index, tb_file := f\<rparr>
          in if \<not> ok s then (s, tb)
             else
               let tb = tb\<lparr>tb_file_size := tb_file_size tb + word_of_nat (length index_contents + kBlockTrailerSize)\<rparr>;
                   footer = Footer_new\<lparr>index_handle := index_handle\<rparr>;
                   footer_buf = Footer_EncodeTo footer [];
                   (n, f) = fwrite os footer_buf (tb_file tb);
                   tb = tb\<lparr>tb_file := f\<rparr>
               in if n \<noteq> length footer_buf then (IOError (str ''while writing footer''), tb)
                  else
                    let (_, f) = fflush os (tb_file tb) in
                    (Status_OK, tb\<lparr>tb_file_size := tb_file_size tb + word_of_nat (length footer_buf),
                       tb_file := f, tb_finished := True\<rparr>))"

text \<open>The destructor flushes and closes; the result is what is on disk afterwards.\<close>

definition TableBuilder_destroy :: "Os \<Rightarrow> TableBuilder \<Rightarrow> bytes" where
  "TableBuilder_destroy os tb = (let (_, f) = fflush os (tb_file tb) in snd (fclose os f))"

section \<open>The file for a list of chunks\<close>

definition chunk_image :: "kv list \<Rightarrow> bytes" where
  "chunk_image cs = block_image (enc_block cs)"

fun index_entries :: "nat \<Rightarrow> kv list list \<Rightarrow> kv list" where
  "index_entries off [] = []"
| "index_entries off (cs # css) =
     (last_key_of [] cs, BlockHandle_EncodeTo
       \<lparr>bh_offset = word_of_nat off, bh_size = word_of_nat (length (enc_block cs))\<rparr> []) #
     index_entries (off + length (chunk_image cs)) css"

definition data_bytes :: "kv list list \<Rightarrow> bytes" where
  "data_bytes css = concat (map chunk_image css)"

definition index_footer :: "kv list list \<Rightarrow> Footer" where
  "index_footer css = Footer_new\<lparr>index_handle := \<lparr>bh_offset = word_of_nat (length (data_bytes css)),
     bh_size = word_of_nat (length (enc_block (index_entries 0 css)))\<rparr>\<rparr>"

definition table_bytes :: "kv list list \<Rightarrow> bytes" where
  "table_bytes css = data_bytes css @ chunk_image (index_entries 0 css) @ Footer_EncodeTo (index_footer css) []"

lemma data_bytes_simps [simp]:
  "data_bytes [] = []" "data_bytes (cs # css) = chunk_image cs @ data_bytes css"
  "data_bytes (css @ dss) = data_bytes css @ data_bytes dss"
  by (simp_all add: data_bytes_def)

lemma index_entries_append:
  "index_entries off (css @ dss) = index_entries off css @ index_entries (off + length (data_bytes css)) dss"
  by (induction css arbitrary: off) (simp_all add: add.assoc)

lemma length_index_entries [simp]: "length (index_entries off css) = length css"
  by (induction css arbitrary: off) simp_all

section \<open>What the builder has written\<close>

text \<open>Chunks \<open>css\<close> are in the file, \<open>cur\<close> is in the data block.\<close>

definition tb_holds :: "TableBuilder \<Rightarrow> kv list list \<Rightarrow> kv list \<Rightarrow> bool" where
  "tb_holds tb css cur \<longleftrightarrow> content (tb_file tb) = data_bytes css \<and> [] \<notin> set css \<and>
     bb_holds (tb_data tb) cur \<and> bb_holds (tb_index tb) (index_entries 0 css) \<and>
     (cur \<noteq> [] \<longrightarrow> tb_last_key tb = last_key_of [] cur) \<and> \<not> tb_finished tb"

lemma tb_holds_new: "content f = [] \<Longrightarrow> tb_holds (TableBuilder_new f) [] []"
  by (simp add: tb_holds_def TableBuilder_new_def bb_holds_Reset)

text \<open>A call that fails may leave a part of a block; the bytes before it stay.\<close>

lemma FlushDataBlock_cases:
  assumes tb: "tb_holds tb css cur" and run: "FlushDataBlock os tb = (s, tb')"
  shows "(ok s \<longrightarrow> tb_holds tb' (if cur = [] then css else css @ [cur]) []) \<and>
    (never_short os \<longrightarrow> tells os \<longrightarrow> ok s)"
proof (cases "cur = []")
  case True
  then have "s = Status_OK" "tb' = tb"
    using run tb bb_holds_empty by (auto simp: FlushDataBlock_def tb_holds_def)
  then show ?thesis using True tb by simp
next
  case False
  obtain data where fin: "BlockBuilder_Finish (tb_data tb) = (enc_block cur, data)"
    using bb_holds_Finish tb by (metis prod.collapse tb_holds_def)
  obtain s1 h f where w: "WriteBlock os (enc_block cur) BlockHandle_new (tb_file tb) = (s1, h, f)"
    by (metis prod_cases3)
  have e: "\<not> BlockBuilder_empty (tb_data tb)" using False tb bb_holds_empty by (auto simp: tb_holds_def)
  have "s = s1 \<or> ok s1" "ok s \<longleftrightarrow> ok s1" using run e fin w by (auto simp: FlushDataBlock_def Let_def split: if_splits)
  moreover have "tb_holds tb' (css @ [cur]) []" if "ok s1"
  proof -
    have c: "content f = data_bytes css @ chunk_image cur"
      "h = \<lparr>bh_offset = word_of_nat (length (data_bytes css)), bh_size = word_of_nat (length (enc_block cur))\<rparr>"
      using WriteBlock_cases(2) [OF w that] tb by (simp_all add: tb_holds_def chunk_image_def)
    have "bb_holds (BlockBuilder_Add (last_key_of [] cur) (BlockHandle_EncodeTo h []) (tb_index tb))
        (index_entries 0 css @ [(last_key_of [] cur, BlockHandle_EncodeTo h [])])"
      using bb_holds_Add [of "tb_index tb" "index_entries 0 css" "(last_key_of [] cur, BlockHandle_EncodeTo h [])"]
        tb by (simp add: tb_holds_def)
    then show ?thesis
      using run e fin w that tb False c
      by (auto simp: FlushDataBlock_def tb_holds_def bb_holds_Reset index_entries_append)
  qed
  moreover have "ok s1" if "never_short os" "tells os"
    using WriteBlock_succeeds [OF that, of "enc_block cur" BlockHandle_new "tb_file tb"] w by simp
  ultimately show ?thesis using False by simp
qed

lemma TableBuilder_Add_cases:
  assumes tb: "tb_holds tb css cur" and run: "TableBuilder_Add os (fst e) (snd e) tb = (s, tb')"
  shows "(ok s \<longrightarrow> (\<exists>css' cur'. tb_holds tb' css' cur' \<and> concat css' @ cur' = concat css @ cur @ [e])) \<and>
    (never_short os \<longrightarrow> tells os \<longrightarrow> ok s)"
proof -
  let ?tb = "tb\<lparr>tb_data := BlockBuilder_Add (fst e) (snd e) (tb_data tb), tb_last_key := fst e\<rparr>"
  have h: "tb_holds ?tb css (cur @ [e])"
    using tb bb_holds_Add [of "tb_data tb" cur e] by (simp add: tb_holds_def)
  show ?thesis
  proof (cases "CurrentSizeEstimate (tb_data ?tb) \<ge> tb_kBlockSize")
    case True
    then have "FlushDataBlock os ?tb = (s, tb')"
      using run tb by (simp add: TableBuilder_Add_def tb_holds_def)
    from FlushDataBlock_cases [OF h this] show ?thesis
      by (intro conjI impI exI [of _ "css @ [cur @ [e]]"] exI [of _ "[]"]) auto
  next
    case False
    then have "s = Status_OK" "tb' = ?tb"
      using run tb by (auto simp: TableBuilder_Add_def tb_holds_def)
    then show ?thesis using h by (intro conjI impI exI [of _ css] exI [of _ "cur @ [e]"]) auto
  qed
qed

lemma TableBuilder_Finish_cases:
  assumes tb: "tb_holds tb css cur" and run: "TableBuilder_Finish os tb = (s, tb')"
  shows "(ok s \<longrightarrow> content (tb_file tb') = table_bytes (if cur = [] then css else css @ [cur]) \<and>
      tb_finished tb' \<and> (flushes os \<longrightarrow> flushed (tb_file tb') = length (content (tb_file tb')))) \<and>
    (never_short os \<longrightarrow> tells os \<longrightarrow> ok s)"
proof -
  define C where C: "C = (if cur = [] then css else css @ [cur])"
  have nf: "\<not> tb_finished tb" using tb by (simp add: tb_holds_def)
  obtain s1 tb1 where f: "FlushDataBlock os tb = (s1, tb1)" by fastforce
  note c1 = FlushDataBlock_cases [OF tb f]
  show ?thesis
  proof (cases "ok s1")
    case False
    then have "s = s1" using run nf f by (auto simp: TableBuilder_Finish_def)
    then show ?thesis using False c1 by simp
  next
    case True
    then have h: "tb_holds tb1 C []" using c1 unfolding C by simp
    obtain index where fin: "BlockBuilder_Finish (tb_index tb1) = (enc_block (index_entries 0 C), index)"
      using bb_holds_Finish [of "tb_index tb1" "index_entries 0 C"] h
      by (cases "BlockBuilder_Finish (tb_index tb1)") (simp add: tb_holds_def)
    obtain s2 ih f2 where w: "WriteBlock os (enc_block (index_entries 0 C)) BlockHandle_new (tb_file tb1) = (s2, ih, f2)"
      by (metis prod_cases3)
    show ?thesis
    proof (cases "ok s2")
      case False
      then have "s = s2" using run nf f True fin w by (simp add: TableBuilder_Finish_def)
      then show ?thesis
        using False WriteBlock_succeeds [of os "enc_block (index_entries 0 C)" BlockHandle_new "tb_file tb1"] w by auto
    next
      case ok2: True
      have c: "content f2 = data_bytes C @ chunk_image (index_entries 0 C)"
        "Footer_new\<lparr>index_handle := ih\<rparr> = index_footer C"
        using WriteBlock_cases(2) [OF w ok2] h by (simp_all add: tb_holds_def chunk_image_def index_footer_def)
      obtain n f3 where f3: "fwrite os (Footer_EncodeTo (index_footer C) []) f2 = (n, f3)" by fastforce
      obtain b f4 where f4: "fflush os f3 = (b, f4)" by fastforce
      have r: "s = IOError (str ''while writing footer'') \<and> n \<noteq> length (Footer_EncodeTo (index_footer C) []) \<or>
          s = Status_OK \<and> n = length (Footer_EncodeTo (index_footer C) []) \<and> tb_file tb' = f4 \<and> tb_finished tb'"
        using run nf f True fin w ok2 c(2) f3 f4 by (auto simp: TableBuilder_Finish_def Let_def split: if_splits)
      have "content f3 = table_bytes C" if "n = length (Footer_EncodeTo (index_footer C) [])"
        using fwrite_prefix [OF f3] c(1) that by (simp add: table_bytes_def)
      moreover have "n = length (Footer_EncodeTo (index_footer C) [])" if "never_short os"
        using fwrite_never_short [OF that] f3 by simp
      ultimately show ?thesis
        using r fflush_cases [of os f3] f4 unfolding C by auto
    qed
  qed
qed

text \<open>A whole table: every entry added, then \<open>Finish\<close>; stopped by the first failure.\<close>

fun add_all :: "Os \<Rightarrow> kv list \<Rightarrow> TableBuilder \<Rightarrow> Status \<times> TableBuilder" where
  "add_all os [] tb = (Status_OK, tb)"
| "add_all os (e # es) tb =
     (case TableBuilder_Add os (fst e) (snd e) tb of (s, tb) \<Rightarrow> if ok s then add_all os es tb else (s, tb))"

definition build_table :: "Os \<Rightarrow> kv list \<Rightarrow> FILE \<Rightarrow> Status \<times> TableBuilder" where
  "build_table os es f =
     (case add_all os es (TableBuilder_new f) of (s, tb) \<Rightarrow>
        if ok s then TableBuilder_Finish os tb else (s, tb))"

lemma add_all_cases:
  assumes "tb_holds tb css cur" "add_all os es tb = (s, tb')"
  shows "(ok s \<longrightarrow> (\<exists>css' cur'. tb_holds tb' css' cur' \<and> concat css' @ cur' = concat css @ cur @ es)) \<and>
    (never_short os \<longrightarrow> tells os \<longrightarrow> ok s)"
  using assms
proof (induction es arbitrary: tb css cur)
  case Nil
  then show ?case by auto
next
  case (Cons e es)
  obtain s1 tb1 where a: "TableBuilder_Add os (fst e) (snd e) tb = (s1, tb1)" by fastforce
  note c = TableBuilder_Add_cases [OF Cons.prems(1) a]
  show ?case
  proof (cases "ok s1")
    case True
    then obtain css' cur' where h: "tb_holds tb1 css' cur'" "concat css' @ cur' = concat css @ cur @ [e]"
      using c by blast
    have "add_all os es tb1 = (s, tb')" using Cons.prems(2) a True by simp
    from Cons.IH [OF h(1) this] h(2) show ?thesis by (metis append_Cons append_Nil append_assoc)
  next
    case False
    then show ?thesis using Cons.prems(2) a c by auto
  qed
qed

lemma build_table_cases:
  assumes "build_table os es f = (s, tb)" "content f = []"
  shows "(ok s \<longrightarrow> (\<exists>css. content (tb_file tb) = table_bytes css \<and> concat css = es \<and> [] \<notin> set css \<and>
      tb_finished tb \<and> (flushes os \<longrightarrow> flushed (tb_file tb) = length (content (tb_file tb))))) \<and>
    (never_short os \<longrightarrow> tells os \<longrightarrow> ok s)"
proof -
  obtain s1 tb1 where a: "add_all os es (TableBuilder_new f) = (s1, tb1)" by fastforce
  note c = add_all_cases [OF tb_holds_new [OF assms(2)] a]
  show ?thesis
  proof (cases "ok s1")
    case True
    then obtain css cur where h: "tb_holds tb1 css cur" "concat css @ cur = es" using c by auto
    have "TableBuilder_Finish os tb1 = (s, tb)" using assms(1) a True by (simp add: build_table_def)
    from TableBuilder_Finish_cases [OF h(1) this] h show ?thesis
      by (intro conjI impI exI [of _ "if cur = [] then css else css @ [cur]"]) (auto simp: tb_holds_def)
  next
    case False
    then show ?thesis using assms(1) a c by (auto simp: build_table_def)
  qed
qed

end
