(* ===== verification/Table.thy ===== *)
theory Table
  imports TableBuilder Layers
begin

text \<open>
  \<open>src/table/table.h\<close> and \<open>src/table/table.cc\<close>: opening a table file and looking up a user
  key, by a seek in the index block and a seek in the data block found there.  A table
  holds the bytes of its file, which does not change while it is open, and its index
  block.  \<open>None\<close> stands for undefined behaviour.  The lookup seeks for the bare user key
  among internal keys, in the order of their bytes, which is right for the keys of
  \<open>seekable\<close> only.
\<close>

section \<open>Open and Get\<close>

record Table =
  tbl_file :: bytes
  tbl_read :: Reads
  tbl_index :: Block

text \<open>
  The bytes of the file, \<open>None\<close> if it cannot be opened, and how its reads go, which the
  open table keeps: the model's \<open>file_\<close> is the bytes with that.  The footer decoder moves its
  input past its end, which is undefined by the standard on every call and shortens the
  view by a wrapped length in the implementations; nothing reads the input after that, and
  the model goes on as they do (see \<open>footer_roundtrip\<close>).
\<close>

definition Table_Open :: "Reads \<Rightarrow> bytes \<Rightarrow> bytes option \<Rightarrow> (Status \<times> Table option) option" where
  "Table_Open rd fname opened =
     (case opened of
        None \<Rightarrow> Some (IOError (str ''open table failed: '' @ fname), None)
      | Some file \<Rightarrow>
        let file_size = length file in
        if file_size < kEncodedLength then Some (Corruption (str ''file too small to be sstable''), None)
        else
          let footer_buf = fread rd kEncodedLength (file_size - kEncodedLength) file in
          if length footer_buf \<noteq> kEncodedLength then Some (IOError (str ''while reading footer''), None)
          else
            let (s, footer, _) = Footer_DecodeFrom Footer_new footer_buf in
            if \<not> ok s then Some (s, None)
            else
              case ReadBlock rd file (index_handle footer) of
                None \<Rightarrow> None
              | Some (s, index_data) \<Rightarrow>
                  if \<not> ok s then Some (s, None)
                  else map_option (\<lambda>b. (Status_OK, Some \<lparr>tbl_file = file, tbl_read = rd, tbl_index = b\<rparr>)) (Block_new index_data))"

text \<open>The second half of \<open>Get\<close>: the entry the data block leads to.\<close>

definition Table_check :: "bytes \<Rightarrow> BlockIter \<Rightarrow> LookupState option" where
  "Table_check uk data_it =
     (let ikey = it_key data_it in
      if length ikey < 8 then None
      else if Slice_neq (ExtractUserKey ikey) uk then Some kNotFoundState
      else
        let type = ucast (ExtractTag ikey AND 0xff) :: ValueType in
        if type \<noteq> kTypeValue then Some kDeleted else Some (kValue (it_value data_it)))"

definition Table_Get :: "bytes \<Rightarrow> Table \<Rightarrow> LookupState option" where
  "Table_Get uk t =
     Option.bind (BlockIter_Seek (tbl_index t) uk NewIterator) (\<lambda>index_it.
       if \<not> it_valid index_it then Some kNotFoundState
       else
         let (s, data_handle, _) = BlockHandle_DecodeFrom BlockHandle_new (it_value index_it) in
         if \<not> ok s then Some kNotFoundState
         else
           Option.bind (ReadBlock (tbl_read t) (tbl_file t) data_handle) (\<lambda>(s, contents).
             if \<not> ok s then Some kNotFoundState
             else
               Option.bind (Block_new contents) (\<lambda>data_block.
                 Option.bind (BlockIter_Seek data_block uk NewIterator) (\<lambda>data_it.
                   if \<not> it_valid data_it then Some kNotFoundState else Table_check uk data_it))))"

section \<open>Which keys a seek for the user key finds\<close>

text \<open>
  The entries of all smaller user keys are below the user key as byte strings too.
\<close>

definition seekable :: "entry list \<Rightarrow> bytes \<Rightarrow> bool" where
  "seekable es uk \<longleftrightarrow> (\<forall>e \<in> set es. entry_user e < uk \<longrightarrow> fst e < uk)"

lemma le_append: "(a :: bytes) \<le> a @ b"
  by (induction a) auto

lemma less_append_iff: "(a :: bytes) < b \<Longrightarrow> \<not> prefix a b \<Longrightarrow> a @ x < b"
proof (induction a arbitrary: b)
  case (Cons y a)
  then show ?case by (cases b) auto
qed simp

lemma append_less_append [simp]: "p @ a < p @ b \<longleftrightarrow> a < (b :: bytes)"
  by (induction p) simp_all

text \<open>
  Enough: no smaller key is a prefix, or the byte after it is neither 0 nor 1, the types.
\<close>

lemma seekable_if_printable:
  assumes "list_all entry_ok es"
    and "\<And>e. e \<in> set es \<Longrightarrow> strict_prefix (entry_user e) uk \<Longrightarrow> 1 < uk ! length (entry_user e)"
  shows "seekable es uk"
  unfolding seekable_def
proof (intro ballI impI)
  fix e assume e: "e \<in> set es" "entry_user e < uk"
  obtain u s t where k: "fst e = u @ EncodeFixed64 (PackSequenceAndType s t)"
    "t = kTypeValue \<or> t = kTypeDeletion" using assms(1) e(1) by (auto simp: list_all_iff entry_ok_def)
  then have u: "entry_user e = u" by simp
  show "fst e < uk"
  proof (cases "prefix u uk")
    case True
    then obtain r where r: "uk = u @ r" by (auto simp: prefix_def)
    have "r \<noteq> []" using e(2) u r by auto
    then obtain b r' where b: "r = b # r'" by (cases r) auto
    have "strict_prefix u uk" using r \<open>r \<noteq> []\<close> by (auto simp: strict_prefix_def)
    then have "1 < b" using assms(2) [OF e(1)] u by (simp add: r b)
    have "EncodeFixed64 (PackSequenceAndType s t) = t # tl (EncodeFixed64 (PackSequenceAndType s t))"
    proof -
      have "(ucast (PackSequenceAndType s t) :: byte) = t"
        by (rule bit_word_eqI) (auto simp: PackSequenceAndType_def bit_simps)
      then show ?thesis by (simp add: EncodeFixed64_def upt_rec)
    qed
    moreover have "t < b" using k(2) \<open>1 < b\<close> by (auto simp: kTypeValue_def kTypeDeletion_def word_less_nat_alt)
    ultimately show ?thesis
      unfolding k(1) r b append_less_append by (metis Cons_less_Cons)
  next
    case False
    then show ?thesis using less_append_iff e(2) u k(1) by metis
  qed
qed

section \<open>The seek finds the newest version\<close>

lemma below_iff_user:
  assumes "entry_ok e" "seekable es uk" "e \<in> set es"
  shows "fst e < uk \<longleftrightarrow> entry_user e < uk"
proof
  assume "fst e < uk"
  moreover have "entry_user e \<le> fst e" using assms(1) le_append by (auto simp: entry_ok_def)
  ultimately show "entry_user e < uk" by simp
qed (use assms(2,3) in \<open>simp add: seekable_def\<close>)

lemma seekable_mono:
  assumes "entries_ok es" "seekable es uk"
  shows "sorted_wrt (\<lambda>x y. fst y < uk \<longrightarrow> fst x < uk) es"
proof -
  have "sorted_wrt (\<lambda>a b. view_ikey (fst a) \<le> view_ikey (fst b)) es" using assms(1) by (simp add: entries_ok_def)
  then show ?thesis
  proof (rule sorted_wrt_map_mono)
    fix x y assume xy: "x \<in> set es" "y \<in> set es" "view_ikey (fst x) \<le> view_ikey (fst y)"
    have "entry_user x \<le> entry_user y" using xy(3) by (auto simp: view_ikey_def less_eq_ikey_def)
    moreover have "entry_ok x" "entry_ok y" using assms(1) xy by (auto simp: entries_ok_def list_all_iff)
    ultimately show "fst y < uk \<longrightarrow> fst x < uk"
      using below_iff_user assms(2) xy by (meson le_less_trans)
  qed
qed

text \<open>What \<open>Get\<close> makes of the first entry that is not below the key.\<close>

definition seek_answer :: "entry list \<Rightarrow> bytes \<Rightarrow> LookupState" where
  "seek_answer es uk =
     (case find (\<lambda>e. \<not> fst e < uk) es of
        None \<Rightarrow> kNotFoundState
      | Some e \<Rightarrow> if entry_user e = uk then entry_state e else kNotFoundState)"

lemma seek_answer_lookup:
  "entries_ok es \<Longrightarrow> seekable es uk \<Longrightarrow> seek_answer es uk = entries_lookup es uk"
proof (induction es)
  case (Cons e es)
  have IH: "seek_answer es uk = entries_lookup es uk" using Cons by (auto simp: seekable_def)
  have b: "fst e < uk \<longleftrightarrow> entry_user e < uk" using below_iff_user Cons.prems by (auto simp: entries_ok_def)
  show ?case
  proof (cases "entry_user e < uk")
    case True
    then show ?thesis using IH b by (auto simp: seek_answer_def entries_lookup_Cons)
  next
    case False
    have "entry_user x \<noteq> uk" if "x \<in> set es" "entry_user e \<noteq> uk" for x
    proof -
      have "view_ikey (fst e) \<le> view_ikey (fst x)" using Cons.prems(1) that(1) by simp
      then have "entry_user e \<le> entry_user x" by (auto simp: view_ikey_def less_eq_ikey_def)
      then show ?thesis using False that(2) by auto
    qed
    then have "entry_user e \<noteq> uk \<Longrightarrow> entries_lookup es uk = kNotFoundState"
      unfolding entries_lookup_NotFound by blast
    then show ?thesis using False b by (auto simp: seek_answer_def entries_lookup_Cons)
  qed
qed (simp add: seek_answer_def)

text \<open>Chunk by chunk: the block whose last key is the first not below the key.\<close>

lemma find_append: "find P (xs @ ys) = (case find P xs of None \<Rightarrow> find P ys | Some x \<Rightarrow> Some x)"
  by (induction xs) auto

lemma find_concat_chunks:
  assumes "sorted_wrt (\<lambda>x y. P y \<longrightarrow> P x) (concat css)" "[] \<notin> set css"
  defines "i \<equiv> length (takeWhile (\<lambda>cs. P (last cs)) css)"
  shows "find (\<lambda>e. \<not> P e) (concat css) = (if i < length css then find (\<lambda>e. \<not> P e) (css ! i) else None)"
  using assms(1,2) unfolding i_def
proof (induction css)
  case (Cons cs css)
  have IH: "find (\<lambda>e. \<not> P e) (concat css) =
      (if length (takeWhile (\<lambda>cs. P (last cs)) css) < length css
       then find (\<lambda>e. \<not> P e) (css ! length (takeWhile (\<lambda>cs. P (last cs)) css)) else None)"
    using Cons by (simp add: sorted_wrt_append)
  show ?case
  proof (cases "P (last cs)")
    case True
    have cs: "cs = butlast cs @ [last cs]" using Cons.prems(2) by (intro append_butlast_last_id [symmetric]) auto
    have "sorted_wrt (\<lambda>x y. P y \<longrightarrow> P x) cs" using Cons.prems(1) by (simp add: sorted_wrt_append)
    then have "sorted_wrt (\<lambda>x y. P y \<longrightarrow> P x) (butlast cs @ [last cs])" by (simp only: cs [symmetric])
    then have "\<forall>x \<in> set (butlast cs). P x" using True by (simp add: sorted_wrt_append)
    then have "\<forall>x \<in> set (butlast cs @ [last cs]). P x" using True by auto
    then have "\<forall>x \<in> set cs. P x" by (simp only: cs [symmetric])
    then have "find (\<lambda>e. \<not> P e) cs = None" by (auto simp: find_None_iff)
    then show ?thesis using IH True by (simp add: find_append)
  next
    case False
    have "last cs \<in> set cs" using Cons.prems(2) by (intro last_in_set) auto
    then have "find (\<lambda>e. \<not> P e) cs \<noteq> None" using False by (auto simp: find_None_iff)
    then show ?thesis using False by (auto simp: find_append)
  qed
qed simp

section \<open>Tables of the builder\<close>

text \<open>The size of the entries, with room for their headers and for an index entry each.\<close>

definition table_size :: "kv list \<Rightarrow> nat" where
  "table_size es = (\<Sum>e\<leftarrow>es. 64 + length (fst e) + length (snd e))"

definition table_fits :: "kv list \<Rightarrow> bool" where
  "table_fits es \<longleftrightarrow> table_size es + 64 < 2 ^ 32"

definition table_stands :: "Table \<Rightarrow> entry list \<Rightarrow> bool" where
  "table_stands t es \<longleftrightarrow> entries_ok es \<and> table_fits es \<and>
     (\<exists>css. concat css = es \<and> [] \<notin> set css \<and> tbl_file t = table_bytes css \<and> tbl_read t = all_read \<and>
       block_holds (tbl_index t) (index_entries 0 css))"

lemma table_size_simps [simp]:
  "table_size [] = 0" "table_size (e # es) = 64 + length (fst e) + length (snd e) + table_size es"
  "table_size (es @ fs) = table_size es + table_size fs"
  by (simp_all add: table_size_def)

lemma enc_block_size: "length (enc_block es) + 45 * length es \<le> table_size es + 4"
proof -
  have "(\<Sum>e\<leftarrow>es. 19 + length (fst e) + length (snd e)) + 45 * length es = table_size es"
    by (induction es) simp_all
  then show ?thesis using length_build_block [of es] by (simp add: build_block_enc)
qed

lemma last_key_of_size: "cs \<noteq> [] \<Longrightarrow> 64 + length (last_key_of k cs) \<le> table_size cs"
  by (induction cs rule: rev_induct) simp_all

lemma chunk_sizes:
  assumes "[] \<notin> set css"
  shows "cs \<in> set css \<Longrightarrow> table_size cs \<le> table_size (concat css)"
    and "length (data_bytes css) \<le> table_size (concat css)"
    and "table_size (index_entries off css) \<le> table_size (concat css) + 20 * length css"
    and "length (enc_block (index_entries off css)) \<le> table_size (concat css) + 4"
proof -
  show "cs \<in> set css \<Longrightarrow> table_size cs \<le> table_size (concat css)"
    by (induction css) auto
  show "length (data_bytes css) \<le> table_size (concat css)"
    using assms
  proof (induction css)
    case (Cons cs css)
    have "45 * 1 \<le> 45 * length cs" using Cons.prems by (cases cs) auto
    then show ?case
      using Cons enc_block_size [of cs] by (simp add: chunk_image_def kBlockTrailerSize_def)
  qed simp
  show i: "table_size (index_entries off css) \<le> table_size (concat css) + 20 * length css"
    using assms
  proof (induction css arbitrary: off)
    case (Cons cs css)
    have "cs \<noteq> []" using Cons.prems by auto
    from last_key_of_size [OF this, of "[]"] show ?case
      using Cons.IH [of "off + length (chunk_image cs)"] Cons.prems
        length_BlockHandle_EncodeTo [of "\<lparr>bh_offset = word_of_nat off, bh_size = word_of_nat (length (enc_block cs))\<rparr>"]
      by (simp add: kMaxEncodedLength_def)
  qed simp
  show "length (enc_block (index_entries off css)) \<le> table_size (concat css) + 4"
    using i enc_block_size [of "index_entries off css"] by simp
qed

lemma table_size_kv_ok: "table_fits es \<Longrightarrow> list_all kv_ok es"
proof (induction es)
  case (Cons e es)
  then show ?case by (simp add: table_fits_def kv_ok_def)
qed simp

lemma fits_mono: "table_size es \<le> table_size fs \<Longrightarrow> table_fits fs \<Longrightarrow> table_fits es"
  by (simp add: table_fits_def)

text \<open>Blocks of a table can be read.\<close>

lemma enc_block_new:
  assumes "table_fits es"
  shows "\<exists>b. Block_new (enc_block es) = Some b \<and> block_holds b es"
  using Block_new_enc [OF _ table_size_kv_ok [OF assms]] enc_block_size [of es] assms
  by (simp add: table_fits_def)

lemma nth_index_entries:
  "i < length css \<Longrightarrow> index_entries off css ! i = (last_key_of [] (css ! i), BlockHandle_EncodeTo
    \<lparr>bh_offset = word_of_nat (off + length (data_bytes (take i css))),
     bh_size = word_of_nat (length (enc_block (css ! i)))\<rparr> [])"
proof (induction css arbitrary: off i)
  case (Cons cs css)
  then show ?case by (cases i) (simp_all add: add.assoc)
qed simp

lemma ReadBlock_chunk:
  assumes "[] \<notin> set css" "table_fits (concat css)" "i < length css"
  shows "ReadBlock all_read (table_bytes css) \<lparr>bh_offset = word_of_nat (length (data_bytes (take i css))),
      bh_size = word_of_nat (length (enc_block (css ! i)))\<rparr> = Some (Status_OK, enc_block (css ! i))"
proof -
  have split: "css = take i css @ css ! i # drop (Suc i) css" using assms(3) by (rule id_take_nth_drop)
  have "data_bytes css = data_bytes (take i css) @ chunk_image (css ! i) @ data_bytes (drop (Suc i) css)"
    by (subst split) simp
  then have c: "table_bytes css = data_bytes (take i css) @ block_image (enc_block (css ! i)) @
      (data_bytes (drop (Suc i) css) @ chunk_image (index_entries 0 css) @ Footer_EncodeTo (index_footer css) [])"
    by (simp add: table_bytes_def chunk_image_def)
  have "length (data_bytes css) < 2 ^ 32" using chunk_sizes(2) [OF assms(1)] assms(2) by (simp add: table_fits_def)
  then have "length (data_bytes (take i css)) < 2 ^ 63" "length (enc_block (css ! i)) + kBlockTrailerSize < 2 ^ 63"
    using \<open>data_bytes css = _\<close> by (simp_all add: chunk_image_def)
  then show ?thesis unfolding c by (rule ReadBlock_image)
qed

lemma ReadBlock_index:
  assumes "[] \<notin> set css" "table_fits (concat css)"
  shows "ReadBlock all_read (table_bytes css) (index_handle (index_footer css)) = Some (Status_OK, enc_block (index_entries 0 css))"
proof -
  have "length (data_bytes css) < 2 ^ 63" "length (enc_block (index_entries 0 css)) + kBlockTrailerSize < 2 ^ 63"
    using chunk_sizes(2) [OF assms(1)] chunk_sizes(4) [OF assms(1), of 0] assms(2)
    by (simp_all add: table_fits_def kBlockTrailerSize_def)
  from ReadBlock_image [OF this] show ?thesis
    by (simp add: table_bytes_def chunk_image_def index_footer_def)
qed

text \<open>Opening a file that ends with a footer is reading the index block.\<close>

lemma Table_Open_footer:
  fixes body :: bytes and ft :: Footer
  defines "file \<equiv> body @ Footer_EncodeTo ft []"
  shows "Table_Open all_read fname (Some file) =
    (case ReadBlock all_read file (index_handle ft) of
       None \<Rightarrow> None
     | Some (s, d) \<Rightarrow>
         if \<not> ok s then Some (s, None)
         else map_option (\<lambda>b. (Status_OK, Some \<lparr>tbl_file = file, tbl_read = all_read, tbl_index = b\<rparr>)) (Block_new d))"
proof -
  have len: "length file = length body + kEncodedLength" by (simp add: file_def length_Footer_EncodeTo)
  have buf: "fread all_read kEncodedLength (length file - kEncodedLength) file = Footer_EncodeTo ft []"
    unfolding len by (simp add: file_def length_Footer_EncodeTo)
  obtain r where dec: "Footer_DecodeFrom Footer_new (Footer_EncodeTo ft []) = (Status_OK, ft, r)"
    using Footer_Decode_Encode [of "[]" Footer_new ft] by (auto simp: kEncodedLength_def)
  show ?thesis unfolding Table_Open_def Let_def option.case buf dec using len by (simp add: length_Footer_EncodeTo)
qed

lemma Table_Open_table:
  assumes "entries_ok (concat css)" "[] \<notin> set css" "table_fits (concat css)"
  shows "\<exists>t. Table_Open all_read fname (Some (table_bytes css)) = Some (Status_OK, Some t) \<and> table_stands t (concat css)"
proof -
  obtain b where b: "Block_new (enc_block (index_entries 0 css)) = Some b" "block_holds b (index_entries 0 css)"
  proof -
    have "length (enc_block (index_entries 0 css)) < 2 ^ 32"
      using chunk_sizes(4) [OF assms(2), of 0] assms(3) by (simp add: table_fits_def)
    moreover have "list_all kv_ok (index_entries 0 css)"
    proof (simp add: list_all_length, intro allI impI)
      fix i assume i: "i < length css"
      have "css ! i \<noteq> []" "css ! i \<in> set css" using i assms(2) by (metis nth_mem)+
      then have "length (last_key_of [] (css ! i)) < 2 ^ 32"
        using last_key_of_size [of "css ! i" "[]"] chunk_sizes(1) [OF assms(2), of "css ! i"] assms(3)
        by (simp add: table_fits_def)
      moreover have "length (BlockHandle_EncodeTo h []) < 2 ^ 32" for h
        using length_BlockHandle_EncodeTo [of h] by (simp add: kMaxEncodedLength_def)
      ultimately show "kv_ok (index_entries 0 css ! i)" using nth_index_entries [OF i] by (simp add: kv_ok_def)
    qed
    ultimately show ?thesis using Block_new_enc that by blast
  qed
  have "Table_Open all_read fname (Some (table_bytes css)) = Some (Status_OK, Some \<lparr>tbl_file = table_bytes css, tbl_read = all_read, tbl_index = b\<rparr>)"
    using Table_Open_footer [of fname "data_bytes css @ chunk_image (index_entries 0 css)" "index_footer css"] b(1)
      ReadBlock_index [OF assms(2,3)] by (simp add: table_bytes_def)
  then show ?thesis using assms b(2) by (auto simp: table_stands_def)
qed

section \<open>Get answers with the newest version\<close>

lemma keys_index_entries: "map fst (index_entries off css) = map (last_key_of []) css"
  by (induction css arbitrary: off) simp_all

lemma last_key_of_last: "cs \<noteq> [] \<Longrightarrow> last_key_of k cs = fst (last cs)"
  by (induction cs rule: rev_induct) simp_all

lemma length_takeWhile_map: "length (takeWhile P (map f xs)) = length (takeWhile (\<lambda>x. P (f x)) xs)"
  by (simp add: takeWhile_map comp_def)

lemma sorted_chunk_lasts:
  "sorted_wrt R (concat css) \<Longrightarrow> [] \<notin> set css \<Longrightarrow> sorted_wrt (\<lambda>x y. R (last x) (last y)) css"
proof (induction css)
  case (Cons cs css)
  have "last cs \<in> set cs" using Cons.prems(2) by (intro last_in_set) auto
  moreover have "last x \<in> set x" if "x \<in> set css" for x
    using that Cons.prems(2) by (intro last_in_set) auto
  ultimately show ?case using Cons by (simp add: sorted_wrt_append)
qed simp

lemma index_seek:
  assumes "sorted_wrt (\<lambda>x y. fst y < uk \<longrightarrow> fst x < uk) (concat css)" "[] \<notin> set css"
  shows "sorted_wrt (\<lambda>x y. fst y < uk \<longrightarrow> fst x < uk) (index_entries 0 css)"
    and "length (takeWhile (\<lambda>e. fst e < uk) (index_entries 0 css)) =
      length (takeWhile (\<lambda>cs. fst (last cs) < uk) css)"
proof -
  have k: "map fst (index_entries 0 css) = map (\<lambda>cs. fst (last cs)) css"
    unfolding keys_index_entries using assms(2) by (auto intro!: last_key_of_last)
  have "sorted_wrt (\<lambda>x y. y < uk \<longrightarrow> x < uk) (map (\<lambda>cs. fst (last cs)) css)"
    unfolding sorted_wrt_map by (rule sorted_chunk_lasts [OF assms])
  then show "sorted_wrt (\<lambda>x y. fst y < uk \<longrightarrow> fst x < uk) (index_entries 0 css)"
    unfolding k [symmetric] sorted_wrt_map .
  show "length (takeWhile (\<lambda>e. fst e < uk) (index_entries 0 css)) =
      length (takeWhile (\<lambda>cs. fst (last cs) < uk) css)"
    using arg_cong [OF k, of "\<lambda>ks. length (takeWhile (\<lambda>x. x < uk) ks)"] by (simp only: length_takeWhile_map)
qed

text \<open>The seek in one data block.\<close>

lemma block_answer:
  assumes "block_holds b es" "sorted_wrt (\<lambda>x y. fst y < uk \<longrightarrow> fst x < uk) es" "list_all entry_ok es"
  shows "Option.bind (BlockIter_Seek b uk NewIterator) (\<lambda>data_it.
      if \<not> it_valid data_it then Some kNotFoundState else Table_check uk data_it) = Some (seek_answer es uk)"
proof -
  obtain it where it: "BlockIter_Seek b uk NewIterator = Some it"
    "it_at es it (length (takeWhile (\<lambda>e. fst e < uk) es))"
    using BlockIter_Seek_at [OF assms(1,2)] by blast
  note f = it_at_takeWhile [OF it(2)]
  show ?thesis
  proof (cases "it_valid it")
    case True
    then have fd: "find (\<lambda>e. \<not> fst e < uk) es = Some (it_key it, it_value it)" using f by simp
    then have "(it_key it, it_value it) \<in> set es" by (auto simp: find_Some_iff in_set_conv_nth)
    then have "entry_ok (it_key it, it_value it)" using assms(3) by (auto simp: list_all_iff)
    then have "8 \<le> length (it_key it)" using entry_ok_length by fastforce
    then show ?thesis
      using True it(1) fd by (auto simp: Table_check_def seek_answer_def entry_state_def Let_def)
  next
    case False
    then show ?thesis using f it(1) by (simp add: seek_answer_def)
  qed
qed

lemma Table_Get_seek:
  assumes t: "table_stands t es" and mono_es: "sorted_wrt (\<lambda>x y. fst y < uk \<longrightarrow> fst x < uk) es"
  shows "Table_Get uk t = Some (seek_answer es uk)"
proof -
  obtain css where css: "concat css = es" "[] \<notin> set css" "tbl_file t = table_bytes css"
    "block_holds (tbl_index t) (index_entries 0 css)" "tbl_read t = all_read" and ok: "entries_ok es" and fit: "table_fits es"
    using t by (auto simp: table_stands_def)
  let ?i = "length (takeWhile (\<lambda>cs. fst (last cs) < uk) css)"
  have mono: "sorted_wrt (\<lambda>x y. fst y < uk \<longrightarrow> fst x < uk) (concat css)"
    using mono_es css(1) by simp
  obtain it where it: "BlockIter_Seek (tbl_index t) uk NewIterator = Some it" "it_at (index_entries 0 css) it ?i"
    using BlockIter_Seek_at [OF css(4) index_seek(1) [OF mono css(2)]] index_seek(2) [OF mono css(2)] by metis
  have fd: "find (\<lambda>e. \<not> fst e < uk) es = (if ?i < length css then find (\<lambda>e. \<not> fst e < uk) (css ! ?i) else None)"
    using find_concat_chunks [OF mono css(2)] css(1) by simp
  show ?thesis
  proof (cases "?i < length css")
    case True
    let ?cs = "css ! ?i"
    have cs: "?cs \<in> set css" using True by (rule nth_mem)
    have v: "it_valid it" "it_value it = BlockHandle_EncodeTo
        \<lparr>bh_offset = word_of_nat (length (data_bytes (take ?i css))), bh_size = word_of_nat (length (enc_block ?cs))\<rparr> []"
      using it(2) True nth_index_entries [OF True, of 0] by (simp_all add: it_at_def)
    obtain b where b: "Block_new (enc_block ?cs) = Some b" "block_holds b ?cs"
      using enc_block_new [OF fits_mono [OF chunk_sizes(1) [OF css(2) cs]]] fit css(1) by auto
    obtain xs ys where split: "css = xs @ ?cs # ys" using split_list [OF cs] by blast
    have "sorted_wrt (\<lambda>x y. fst y < uk \<longrightarrow> fst x < uk) ?cs"
      using mono unfolding arg_cong [OF split, of concat] by (simp only: concat_append concat.simps sorted_wrt_append)
    moreover have "list_all entry_ok ?cs" using ok css(1) cs by (auto simp: entries_ok_def list_all_iff)
    ultimately have "Option.bind (BlockIter_Seek b uk NewIterator) (\<lambda>data_it.
        if \<not> it_valid data_it then Some kNotFoundState else Table_check uk data_it) = Some (seek_answer ?cs uk)"
      using block_answer [OF b(2)] by blast
    moreover have "seek_answer es uk = seek_answer ?cs uk" using fd True by (simp add: seek_answer_def)
    moreover have "ReadBlock (tbl_read t) (tbl_file t) \<lparr>bh_offset = word_of_nat (length (data_bytes (take ?i css))),
        bh_size = word_of_nat (length (enc_block ?cs))\<rparr> = Some (Status_OK, enc_block ?cs)"
      using ReadBlock_chunk [OF css(2) _ True] fit css(1,3,5) by simp
    ultimately show ?thesis
      unfolding Table_Get_def it(1) Option.bind.simps v(2) BlockHandle_Decode_exact Let_def prod.case
      using v(1) b(1) by simp
  next
    case False
    then have "\<not> it_valid it" using it(2) by (simp add: it_at_def)
    then show ?thesis using it(1) fd False by (simp add: Table_Get_def seek_answer_def)
  qed
qed

lemma Table_Get_stands:
  assumes "table_stands t es" "seekable es uk"
  shows "Table_Get uk t = Some (entries_lookup es uk)"
proof -
  have "entries_ok es" using assms(1) by (simp add: table_stands_def)
  then show ?thesis
    using Table_Get_seek [OF assms(1) seekable_mono] seek_answer_lookup assms(2) by metis
qed

interpretation table_layer: lookup_layer table_stands Table_Get seekable
  by unfold_locales (auto simp: table_stands_def [of _ _] Table_Get_stands)

section \<open>Properties\<close>

text \<open>
  C38. A table is a faithful copy of the entries it was built from: if building succeeds,
  and it does when no write is cut short, then the file can be opened, and a lookup of a
  user key answers with the newest version in the table, for every key no smaller key of
  the table gets in the way of (\<open>seekable\<close>), in particular when no other key of the table
  is a prefix of it followed by one of the bytes 0 and 1.
\<close>

theorem table_build_open_get:
  assumes "build_table os es fopen_new = (s, tb)" "entries_ok es" "table_fits es"
  shows "(never_short os \<longrightarrow> tells os \<longrightarrow> ok s) \<and>
    (ok s \<longrightarrow> (\<exists>t. Table_Open all_read fname (Some (content (tb_file tb))) = Some (Status_OK, Some t) \<and>
      (\<forall>uk. seekable es uk \<longrightarrow> Table_Get uk t = Some (entries_lookup es uk)))) \<and>
    ((\<forall>e \<in> set es. \<not> (\<exists>b r. uk = entry_user e @ b # r \<and> b \<le> 1)) \<longrightarrow> seekable es uk)"
proof (intro conjI impI)
  have c: "content fopen_new = []" by (simp add: fopen_new_def)
  note b = build_table_cases [OF assms(1) c]
  show "never_short os \<Longrightarrow> tells os \<Longrightarrow> ok s" using b by blast
  show "\<exists>t. Table_Open all_read fname (Some (content (tb_file tb))) = Some (Status_OK, Some t) \<and>
      (\<forall>uk. seekable es uk \<longrightarrow> Table_Get uk t = Some (entries_lookup es uk))" if "ok s"
  proof -
    obtain css where css: "content (tb_file tb) = table_bytes css" "concat css = es" "[] \<notin> set css"
      using b \<open>ok s\<close> by blast
    obtain t where "Table_Open all_read fname (Some (table_bytes css)) = Some (Status_OK, Some t)" "table_stands t es"
      using Table_Open_table [OF _ css(3)] assms(2,3) css(2) by metis
    then show ?thesis using css(1) table_layer.get_lookup by auto
  qed
  assume "\<forall>e \<in> set es. \<not> (\<exists>b r. uk = entry_user e @ b # r \<and> b \<le> 1)"
  moreover have "\<exists>b r. uk = u @ b # r \<and> uk ! length u = b" if "strict_prefix u uk" for u
  proof -
    obtain b r where "uk = u @ b # r" using \<open>strict_prefix u uk\<close> by (auto elim: strict_prefixE')
    then show ?thesis by simp
  qed
  ultimately have "1 < uk ! length (entry_user e)" if "e \<in> set es" "strict_prefix (entry_user e) uk" for e
    using that by (metis not_le)
  then show "seekable es uk" using seekable_if_printable assms(2) by (auto simp: entries_ok_def)
qed

theorem table_build_open_get_witness:
  "\<exists>s tb t. build_table good_os [mk_entry 2 kTypeDeletion [3] [], mk_entry 1 kTypeValue [3] [9]] fopen_new = (s, tb) \<and>
    ok s \<and> Table_Open all_read [] (Some (content (tb_file tb))) = Some (Status_OK, Some t) \<and>
    Table_Get [3] t = Some kDeleted \<and> Table_Get [4] t = Some kNotFoundState"
proof -
  let ?es = "[mk_entry 2 kTypeDeletion [3] [], mk_entry 1 kTypeValue [3 :: byte] [9]]"
  obtain s tb where b: "build_table good_os ?es fopen_new = (s, tb)" by fastforce
  have seq: "(1 :: u64) \<le> kMaxSequenceNumber" "(2 :: u64) \<le> kMaxSequenceNumber" by (simp_all add: kMaxSequenceNumber_def)
  have ok: "entries_ok ?es"
    using seq Pack_less [OF seq, of kTypeValue kTypeDeletion] by (simp add: less_eq_ikey_def)
  have fits: "table_fits ?es" by (simp add: table_fits_def)
  note p = table_build_open_get [OF b ok fits, of "[]"]
  have "ok s" using p good_os by blast
  then obtain t where t: "Table_Open all_read [] (Some (content (tb_file tb))) = Some (Status_OK, Some t)"
    "\<And>uk. seekable ?es uk \<Longrightarrow> Table_Get uk t = Some (entries_lookup ?es uk)" using p by blast
  have "seekable ?es [3]" by (simp add: seekable_def)
  moreover have "seekable ?es [4]" by (simp add: seekable_def) (simp add: mk_entry_def)
  ultimately have "Table_Get [3] t = Some kDeleted \<and> Table_Get [4] t = Some kNotFoundState"
    using t(2) by (simp add: entries_lookup_Cons kTypeValue_def kTypeDeletion_def)
  then show ?thesis using b \<open>ok s\<close> t(1) by blast
qed

text \<open>
  C39. The seek goes by the bytes of the internal keys, which is not their order: once a
  table holds a key \<open>k\<close> and the key that is \<open>k\<close> followed by a zero byte, the latter is
  never found again, although the table has its value.
\<close>

theorem table_zero_extension_lost:
  assumes "table_stands t [mk_entry s1 kTypeValue k v1, mk_entry s2 kTypeValue (k @ [0]) v2]"
  shows "entries_lookup [mk_entry s1 kTypeValue k v1, mk_entry s2 kTypeValue (k @ [0]) v2] (k @ [0]) = kValue v2 \<and>
    Table_Get (k @ [0]) t = Some kNotFoundState"
proof
  let ?es = "[mk_entry s1 kTypeValue k v1, mk_entry s2 kTypeValue (k @ [0]) v2]"
  show "entries_lookup ?es (k @ [0]) = kValue v2" by (simp add: entries_lookup_Cons)
  have "EncodeFixed64 (PackSequenceAndType s kTypeValue) = kTypeValue # tl (EncodeFixed64 (PackSequenceAndType s kTypeValue))" for s
  proof -
    have "(ucast (PackSequenceAndType s kTypeValue) :: byte) = kTypeValue"
      by (rule bit_word_eqI) (auto simp: PackSequenceAndType_def bit_simps)
    then show ?thesis by (simp add: EncodeFixed64_def upt_rec)
  qed
  then have "\<not> fst (mk_entry s1 kTypeValue k v1) < k @ [0]"
    unfolding mk_entry_def fst_conv append_less_append by (metis Cons_less_Cons kTypeValue_def less_le_not_le word_coorder.extremum zero_neq_one)
  moreover have "\<not> fst (mk_entry s2 kTypeValue (k @ [0]) v2) < k @ [0]"
    using le_append [of "k @ [0]"] by (simp add: mk_entry_def not_less del: append_assoc)
  ultimately have "sorted_wrt (\<lambda>x y. fst y < k @ [0] \<longrightarrow> fst x < k @ [0]) ?es"
    "seek_answer ?es (k @ [0]) = kNotFoundState" by (simp_all add: seek_answer_def)
  then show "Table_Get (k @ [0]) t = Some kNotFoundState" using Table_Get_seek [OF assms] by metis
qed

theorem table_zero_extension_lost_witness:
  "\<exists>t. Table_Get ([97] @ [0]) t = Some kNotFoundState \<and>
    table_stands t [mk_entry 1 kTypeValue [97] [1], mk_entry 2 kTypeValue ([97] @ [0]) [2]]"
proof -
  let ?es = "[mk_entry 1 kTypeValue [97] [1], mk_entry 2 kTypeValue ([97 :: byte] @ [0]) [2]]"
  have seq: "(1 :: u64) \<le> kMaxSequenceNumber" "(2 :: u64) \<le> kMaxSequenceNumber" by (simp_all add: kMaxSequenceNumber_def)
  have "entries_ok (concat [?es])" using seq by (simp add: less_eq_ikey_def)
  moreover have "table_fits (concat [?es])" by (simp add: table_fits_def)
  ultimately obtain t where t: "table_stands t (concat [?es])"
    using Table_Open_table [of "[?es]"] by auto
  then have "table_stands t ?es" by simp
  from table_zero_extension_lost [OF this] this show ?thesis by blast
qed



end
