(* ===== verification/Filename.thy ===== *)
theory Filename
  imports Status
begin

text \<open>
  \<open>src/db/filename.h\<close> and \<open>src/db/filename.cc\<close>: the names of the files of a database, the
  parser of such names, and the scan of a directory.  \<open>std::to_string\<close> and \<open>strtoull\<close> are
  written out; the latter stops at the largest 64-bit number.  A directory that cannot be
  opened is \<open>None\<close>, otherwise it is its names, in the order \<open>readdir\<close> yields them.
\<close>

section \<open>Names\<close>

datatype FileType = kLogFile | kTableFile | kTempFile

record FileInfo =
  fi_number :: u64
  fi_type :: FileType

fun to_string_nat :: "nat \<Rightarrow> bytes" where
  "to_string_nat n =
     (if n < 10 then [word_of_nat (48 + n)] else to_string_nat (n div 10) @ [word_of_nat (48 + n mod 10)])"

declare to_string_nat.simps [simp del]

definition to_string :: "u64 \<Rightarrow> bytes" where
  "to_string number = to_string_nat (unat number)"

definition LogFileName :: "bytes \<Rightarrow> u64 \<Rightarrow> bytes" where
  "LogFileName dbname number = dbname @ str ''/'' @ to_string number @ str ''.log''"

definition TableFileName :: "bytes \<Rightarrow> u64 \<Rightarrow> bytes" where
  "TableFileName dbname number = dbname @ str ''/'' @ to_string number @ str ''.ldb''"

definition TempFileName :: "bytes \<Rightarrow> u64 \<Rightarrow> bytes" where
  "TempFileName dbname number = dbname @ str ''/'' @ to_string number @ str ''.ldb.tmp''"

text \<open>The value of digits, and \<open>strtoull\<close> on a string that starts with one.\<close>

definition is_digit :: "byte \<Rightarrow> bool" where
  "is_digit b \<longleftrightarrow> 48 \<le> b \<and> b \<le> 57"

definition digits_value :: "bytes \<Rightarrow> nat" where
  "digits_value = foldl (\<lambda>n b. 10 * n + (unat b - 48)) 0"

definition strtoull :: "bytes \<Rightarrow> u64" where
  "strtoull s = word_of_nat (min (digits_value (takeWhile is_digit s)) (2 ^ 64 - 1))"

text \<open>What stands behind the last slash; \<open>47\<close> is the slash.\<close>

definition after_slash :: "bytes \<Rightarrow> bytes" where
  "after_slash fname = rev (takeWhile (\<lambda>b. b \<noteq> 47) (rev fname))"

definition has_suffix :: "bytes \<Rightarrow> bytes \<Rightarrow> bool" where
  "has_suffix name sfx \<longleftrightarrow> length name > length sfx \<and> drop (length name - length sfx) name = sfx"

definition ParseFileName :: "bytes \<Rightarrow> (u64 \<times> FileType) option" where
  "ParseFileName fname =
     (let name = after_slash fname in
      case (if has_suffix name (str ''.ldb.tmp'') then Some (kTempFile, length name - 8)
            else if has_suffix name (str ''.ldb'') then Some (kTableFile, length name - 4)
            else if has_suffix name (str ''.log'') then Some (kLogFile, length name - 4)
            else None) of
        None \<Rightarrow> None
      | Some (t, base_len) \<Rightarrow>
          if base_len = 0 then None
          else if \<not> list_all is_digit (take base_len name) then None
          else Some (strtoull name, t))"

text \<open>
  The scan.  \<open>std::sort\<close> leaves files of the same number in an order the standard does
  not fix; the model keeps the order of the directory.
\<close>

definition ListFiles :: "bytes \<Rightarrow> bytes list option \<Rightarrow> Status \<times> FileInfo list" where
  "ListFiles dbname entries =
     (case entries of
        None \<Rightarrow> (IOError (str ''opendir failed: '' @ dbname), [])
      | Some names \<Rightarrow>
          (Status_OK, sort_key fi_number
             (map (\<lambda>(n, t). \<lparr>fi_number = n, fi_type = t\<rparr>) (List.map_filter ParseFileName names))))"

section \<open>Decimal numbers\<close>

lemma unat_digit: "d < 10 \<Longrightarrow> unat (word_of_nat (48 + d) :: byte) = 48 + d"
  by (intro unat_word_of_nat_less) simp

lemma is_digit_digit: "d < 10 \<Longrightarrow> is_digit (word_of_nat (48 + d))"
  using unat_digit [of d] by (simp add: is_digit_def word_le_nat_alt)

lemma to_string_nat_digits: "list_all is_digit (to_string_nat n) \<and> to_string_nat n \<noteq> []"
proof (induction n rule: to_string_nat.induct)
  case (1 n)
  then show ?case
    using is_digit_digit [of n] is_digit_digit [of "n mod 10"]
    by (subst (1 2) to_string_nat.simps) auto
qed

lemma digits_value_to_string: "digits_value (to_string_nat n) = n"
proof (induction n rule: to_string_nat.induct)
  case (1 n)
  show ?case
  proof (cases "n < 10")
    case True
    then show ?thesis using unat_digit [of n] by (subst to_string_nat.simps) (simp add: digits_value_def)
  next
    case False
    then have "digits_value (to_string_nat n) = 10 * digits_value (to_string_nat (n div 10)) + n mod 10"
      using unat_digit [of "n mod 10"] by (subst to_string_nat.simps) (simp add: digits_value_def)
    then show ?thesis using 1 False by simp
  qed
qed

lemma strtoull_to_string:
  assumes "r = [] \<or> \<not> is_digit (hd r)"
  shows "strtoull (to_string number @ r) = number"
proof -
  have d: "\<forall>b \<in> set (to_string_nat (unat number)). is_digit b"
    using to_string_nat_digits by (simp add: list_all_iff)
  have "takeWhile is_digit r = []" using assms by (cases r) auto
  then have "takeWhile is_digit (to_string number @ r) = to_string_nat (unat number)"
    unfolding to_string_def using d by (simp add: takeWhile_append2)
  moreover have "unat number \<le> 2 ^ 64 - 1" using unat_less_pow [of number] by simp
  ultimately show ?thesis by (simp add: strtoull_def digits_value_to_string min_absorb1)
qed

section \<open>Names round trip\<close>

lemma after_slash_append:
  "47 \<notin> set name \<Longrightarrow> after_slash (d @ 47 # name) = name"
  "47 \<notin> set name \<Longrightarrow> after_slash name = name"
proof -
  assume n: "47 \<notin> set name"
  then have r: "\<forall>b \<in> set (rev name). b \<noteq> 47" by auto
  then have "takeWhile (\<lambda>b. b \<noteq> 47) (rev name @ 47 # rev d) = rev name" by (subst takeWhile_append2) auto
  then show "after_slash (d @ 47 # name) = name" by (simp add: after_slash_def)
  have "takeWhile (\<lambda>b. b \<noteq> 47) (rev name @ []) = rev name @ takeWhile (\<lambda>b. b \<noteq> 47) []"
    by (rule takeWhile_append2) (use r in blast)
  then show "after_slash name = name" by (simp only: after_slash_def append_Nil2 takeWhile.simps rev_rev_ident)
qed

lemma str_simps:
  "str ''/'' = [47]" "str ''.log'' = [46, 108, 111, 103]" "str ''.ldb'' = [46, 108, 100, 98]"
  "str ''.ldb.tmp'' = [46, 108, 100, 98, 46, 116, 109, 112]"
  by (simp_all add: str_def)

lemma no_slash_to_string: "47 \<notin> set (to_string number)"
  using to_string_nat_digits [of "unat number"] by (auto simp: to_string_def list_all_iff is_digit_def)

lemma has_suffix_append: "name \<noteq> [] \<Longrightarrow> has_suffix (name @ sfx) sfx"
  by (simp add: has_suffix_def)

lemma has_suffix_last: "has_suffix name sfx \<Longrightarrow> sfx \<noteq> [] \<Longrightarrow> last name = last sfx"
  by (metis append_take_drop_id has_suffix_def last_append)

lemma ParseFileName_digits:
  assumes f: "after_slash f = to_string number @ sfx"
    and s: "(sfx, t) \<in> {(str ''.log'', kLogFile), (str ''.ldb'', kTableFile), (str ''.ldb.tmp'', kTempFile)}"
  shows "ParseFileName f = Some (number, t)"
proof -
  let ?n = "to_string number @ sfx"
  have ne: "to_string number \<noteq> []" and d: "list_all is_digit (to_string number)"
    using to_string_nat_digits by (auto simp: to_string_def)
  have v: "strtoull ?n = number"
    using s by (intro strtoull_to_string) (auto simp: str_simps is_digit_def word_le_nat_alt)
  have y: "has_suffix ?n sfx" using ne by (rule has_suffix_append)
  have l: "has_suffix ?n x \<Longrightarrow> x \<noteq> [] \<Longrightarrow> last sfx = last x" for x
    using has_suffix_last [of ?n x] s by (auto simp: str_simps)
  have no: "sfx = str ''.log'' \<Longrightarrow> \<not> has_suffix ?n (str ''.ldb.tmp'') \<and> \<not> has_suffix ?n (str ''.ldb'')"
    "sfx = str ''.ldb'' \<Longrightarrow> \<not> has_suffix ?n (str ''.ldb.tmp'')"
    using l [of "str ''.ldb.tmp''"] l [of "str ''.ldb''"] by (auto simp: str_simps)
  consider "sfx = str ''.log''" "t = kLogFile" | "sfx = str ''.ldb''" "t = kTableFile"
    | "sfx = str ''.ldb.tmp''" "t = kTempFile" using s by auto
  then show ?thesis
  proof cases
    case 1
    have "length sfx = 4" by (simp add: 1 str_simps)
    then show ?thesis using y no(1) [OF 1(1)] v ne d f 1 by (simp add: ParseFileName_def Let_def)
  next
    case 2
    have "length sfx = 4" by (simp add: 2 str_simps)
    then show ?thesis using y no(2) [OF 2(1)] v ne d f 2 by (simp add: ParseFileName_def Let_def)
  next
    case 3
    have "length sfx = 8" by (simp add: 3 str_simps)
    then show ?thesis using y v ne d f 3 by (simp add: ParseFileName_def Let_def)
  qed
qed

lemma after_slash_name:
  assumes "47 \<notin> set sfx"
  shows "after_slash (d @ str ''/'' @ to_string number @ sfx) = to_string number @ sfx"
    "after_slash (to_string number @ sfx) = to_string number @ sfx"
proof -
  have "47 \<notin> set (to_string number @ sfx)" using no_slash_to_string assms by simp
  from after_slash_append [OF this] show "after_slash (d @ str ''/'' @ to_string number @ sfx) = to_string number @ sfx"
    "after_slash (to_string number @ sfx) = to_string number @ sfx" by (simp_all add: str_simps(1))
qed

lemma ParseFileName_names [simp]:
  "ParseFileName (LogFileName dbname number) = Some (number, kLogFile)"
  "ParseFileName (TableFileName dbname number) = Some (number, kTableFile)"
  "ParseFileName (TempFileName dbname number) = Some (number, kTempFile)"
  "ParseFileName (to_string number @ str ''.log'') = Some (number, kLogFile)"
  "ParseFileName (to_string number @ str ''.ldb'') = Some (number, kTableFile)"
  "ParseFileName (to_string number @ str ''.ldb.tmp'') = Some (number, kTempFile)"
  unfolding LogFileName_def TableFileName_def TempFileName_def
  by (rule ParseFileName_digits [OF after_slash_name(1)] ParseFileName_digits [OF after_slash_name(2)];
      simp add: str_simps)+

text \<open>
  C40. File names and their parser agree: the names made for a number parse back to it and
  its type, with or without the directory, so no two files of a database share a name.
\<close>

theorem filename_roundtrip:
  "ParseFileName (LogFileName dbname n) = Some (n, kLogFile) \<and>
   ParseFileName (TableFileName dbname n) = Some (n, kTableFile) \<and>
   ParseFileName (TempFileName dbname n) = Some (n, kTempFile) \<and>
   (LogFileName dbname n = LogFileName dbname m \<longleftrightarrow> n = m) \<and>
   (TableFileName dbname n = TableFileName dbname m \<longleftrightarrow> n = m) \<and>
   LogFileName dbname n \<noteq> TableFileName dbname m \<and> TempFileName dbname n \<noteq> TableFileName dbname m"
  by (metis FileType.distinct(1,5) ParseFileName_names(1,2,3) option.inject prod.inject)

text \<open>
  The scan of a directory lists exactly its recognised entries, one for each, in the
  order of their numbers.
\<close>

theorem list_files_sorted:
  "ListFiles dbname (Some names) = (Status_OK, fs) \<Longrightarrow>
   sorted (map fi_number fs) \<and> length fs = length (filter (\<lambda>x. ParseFileName x \<noteq> None) names) \<and>
   (\<forall>f. f \<in> set fs \<longleftrightarrow> (\<exists>x \<in> set names. ParseFileName x = Some (fi_number f, fi_type f)))"
proof -
  assume l: "ListFiles dbname (Some names) = (Status_OK, fs)"
  let ?g = "\<lambda>(n, t). \<lparr>fi_number = n, fi_type = t\<rparr>"
  have fs: "fs = sort_key fi_number (map ?g (List.map_filter ParseFileName names))"
    using l by (simp add: ListFiles_def)
  have "length (List.map_filter ParseFileName names) = length (filter (\<lambda>x. ParseFileName x \<noteq> None) names)"
    by (simp add: List.map_filter_def)
  moreover have "f \<in> ?g ` set (List.map_filter ParseFileName names) \<longleftrightarrow>
      (\<exists>x \<in> set names. ParseFileName x = Some (fi_number f, fi_type f))" for f :: FileInfo
    by (cases f) (force simp: List.map_filter_def image_iff)
  ultimately show ?thesis by (simp add: fs)
qed

theorem list_files_sorted_witness:
  "\<exists>fs. ListFiles [] (Some [to_string 7 @ str ''.ldb'', str ''x'', to_string 3 @ str ''.log'']) = (Status_OK, fs) \<and>
    sorted (map fi_number fs) \<and> \<lparr>fi_number = 3, fi_type = kLogFile\<rparr> \<in> set fs"
proof -
  let ?names = "[to_string 7 @ str ''.ldb'', str ''x'', to_string 3 @ str ''.log'']"
  obtain fs where fs: "ListFiles [] (Some ?names) = (Status_OK, fs)" by (simp add: ListFiles_def)
  have "ParseFileName (to_string 3 @ str ''.log'') = Some (3, kLogFile)" by simp
  then show ?thesis using list_files_sorted [OF fs] fs by (auto intro!: exI [of _ fs])
qed

text \<open>
  A name with leading zeros is taken for the number it denotes, although the files of
  that number have other names: the database then looks for a file that is not there.
\<close>

theorem leading_zero_name_misread:
  "ParseFileName (str ''007.log'') = Some (7, kLogFile) \<and> LogFileName d 7 \<noteq> d @ str ''/007.log''"
proof
  have d: "is_digit 48" "is_digit 55" "\<not> is_digit 46" by (simp_all add: is_digit_def word_le_nat_alt)
  show "ParseFileName (str ''007.log'') = Some (7, kLogFile)"
    by (simp add: ParseFileName_def after_slash_def has_suffix_def str_def strtoull_def digits_value_def d)
  show "LogFileName d 7 \<noteq> d @ str ''/007.log''"
    by (simp add: LogFileName_def str_def to_string_def to_string_nat.simps)
qed

end
