(* ===== verification/DbImpl.thy ===== *)
theory DbImpl
  imports MemTable Wal Table Filename "HOL-Library.AList"
begin

text \<open>
  \<open>src/db/db_impl.h\<close> and \<open>src/db/db_impl.cc\<close>: the database.  All public operations run
  under one mutex, so the model is a state passed from one to the next.  The directory is
  the list of its files with the bytes on disk; the open log is a stream, whose bytes may
  not all be on disk yet.  What the operating system answers is an \<open>Env\<close>, one for each
  operation.  \<open>None\<close> is undefined behaviour, a null pointer used in particular.
\<close>

section \<open>The directory and the operating system\<close>

type_synonym Dir = "(bytes \<times> bytes) list"

record Env =
  env_os :: "bytes \<Rightarrow> Os"
  env_scan :: bool
  env_open :: "bytes \<Rightarrow> bool"
  env_read :: "bytes \<Rightarrow> Reads"
  env_rename :: "bytes \<Rightarrow> bool"
  env_remove :: "bytes \<Rightarrow> bool"
  env_truncate :: "bytes \<Rightarrow> bool"
  env_char :: alloc

definition fopen_rb :: "Env \<Rightarrow> Dir \<Rightarrow> bytes \<Rightarrow> bytes option" where
  "fopen_rb env dir path = (if env_open env path then map_of dir path else None)"

definition dir_create :: "bytes \<Rightarrow> Dir \<Rightarrow> Dir" where
  "dir_create path dir = (if map_of dir path = None then AList.update path [] dir else dir)"

definition dir_rename :: "bytes \<Rightarrow> bytes \<Rightarrow> Dir \<Rightarrow> Dir" where
  "dir_rename old new dir =
     (case map_of dir old of None \<Rightarrow> dir | Some bs \<Rightarrow> AList.update new bs (AList.delete old dir))"

text \<open>\<open>std::remove\<close> also fails on a file that is not there.\<close>

definition can_remove :: "Env \<Rightarrow> Dir \<Rightarrow> bytes \<Rightarrow> bool" where
  "can_remove env dir path \<longleftrightarrow> env_remove env path \<and> map_of dir path \<noteq> None"

section \<open>The state\<close>

definition kMaxMemTableBytes :: nat where "kMaxMemTableBytes = 4 * 1024 * 1024"

record DBImpl =
  dbname :: bytes
  log_number :: u64
  db_log :: "LogWriter option"
  db_mem :: MemTable
  db_tables :: "Table list"
  last_seq :: u64
  next_file_number :: u64

definition DBImpl_new :: "Env \<Rightarrow> bytes \<Rightarrow> DBImpl" where
  "DBImpl_new env name = \<lparr>dbname = name, log_number = 0, db_log = None, db_mem = MemTable_new (env_char env),
     db_tables = [], last_seq = 0, next_file_number = 1\<rparr>"

section \<open>Recovery\<close>

partial_function (option) Recover_loop ::
  "alloc \<Rightarrow> LogReader \<Rightarrow> bytes \<Rightarrow> MemTable \<Rightarrow> u64 \<Rightarrow> (Status \<times> LogReader \<times> MemTable \<times> u64) option" where
  "Recover_loop new_char r batch mem seq =
     (case ReadRecord r of
        None \<Rightarrow> None
      | Some (None, r) \<Rightarrow> Some (Status_OK, r, mem, seq)
      | Some (Some rec, r) \<Rightarrow>
          (let (s1, batch) = WriteBatch_SetContents rec batch in
           if \<not> ok s1 then Some (Status_OK, r, mem, seq)
           else
             let (s2, mo) = WriteBatch_Iterate (MemTableInserter_Put new_char) (MemTableInserter_Delete new_char)
                   batch (Some mem)
             in case mo of
                  None \<Rightarrow> None
                | Some mem \<Rightarrow>
                    if \<not> ok s2 then Some (s2, r, mem, seq)
                    else
                      let end_seq = WriteBatch_sequence batch + word_of_int (WriteBatch_Count batch) - 1;
                          seq = (if WriteBatch_Count batch > 0 \<and> end_seq > seq then end_seq else seq)
                      in Recover_loop new_char r batch mem seq))"

text \<open>
  The bytes of the file in and out; the largest sequence number is that of this log alone.
\<close>

definition Recover :: "Env \<Rightarrow> bytes \<Rightarrow> bytes \<Rightarrow> MemTable \<Rightarrow> u64 \<Rightarrow> (Status \<times> MemTable \<times> u64 \<times> bytes) option" where
  "Recover env path file mem max_seq =
     (case Recover_loop (env_char env) (LogReader_new (env_read env path) file) WriteBatch_Clear mem 0 of
        None \<Rightarrow> None
      | Some (s, r, mem, seq) \<Rightarrow>
          if \<not> ok s then Some (s, mem, max_seq, file)
          else if \<not> env_truncate env path
          then Some (IOError (str ''truncate log tail failed''), mem, seq, file)
          else Some (Status_OK, mem, seq, resize (lr_valid_end r) file))"

text \<open>The three loops of \<open>Init\<close> over the files of the directory.\<close>

fun Init_scan :: "Env \<Rightarrow> bytes \<Rightarrow> FileInfo list \<Rightarrow> u64 \<Rightarrow> u64 \<Rightarrow> Dir \<Rightarrow> Status \<times> u64 \<times> u64 \<times> Dir" where
  "Init_scan env name [] next max_log dir = (Status_OK, next, max_log, dir)"
| "Init_scan env name (f # fs) next max_log dir =
     (let next = (if fi_number f \<ge> next then fi_number f + 1 else next) in
      if fi_type f = kTempFile then
        let path = TempFileName name (fi_number f) in
        if \<not> can_remove env dir path
        then (IOError (str ''remove orphan tmp failed''), next, max_log, dir)
        else Init_scan env name fs next max_log (AList.delete path dir)
      else
        Init_scan env name fs next
          (if fi_type f = kLogFile \<and> fi_number f > max_log then fi_number f else max_log) dir)"

fun Init_tables :: "Env \<Rightarrow> bytes \<Rightarrow> Dir \<Rightarrow> FileInfo list \<Rightarrow> Table list \<Rightarrow> (Status \<times> Table list) option" where
  "Init_tables env name dir [] tables = Some (Status_OK, tables)"
| "Init_tables env name dir (f # fs) tables =
     (if fi_type f \<noteq> kTableFile then Init_tables env name dir fs tables
      else
        let path = TableFileName name (fi_number f) in
        case Table_Open (env_read env path) path (fopen_rb env dir path) of
          None \<Rightarrow> None
        | Some (ts, None) \<Rightarrow> Some (ts, tables)
        | Some (ts, Some t) \<Rightarrow> if \<not> ok ts then Some (ts, tables) else Init_tables env name dir fs (tables @ [t]))"

fun Init_logs ::
  "Env \<Rightarrow> FileInfo list \<Rightarrow> u64 \<Rightarrow> u64 \<Rightarrow> DBImpl \<Rightarrow> Dir \<Rightarrow> (Status \<times> u64 \<times> DBImpl \<times> Dir) option" where
  "Init_logs env [] max_log seq db dir = Some (Status_OK, seq, db, dir)"
| "Init_logs env (f # fs) max_log seq db dir =
     (if fi_type f \<noteq> kLogFile then Init_logs env fs max_log seq db dir
      else
        let path = LogFileName (dbname db) (fi_number f);
            is_current = (fi_number f = max_log);
            dir = (if is_current \<and> env_open env path then dir_create path dir else dir)
        in case fopen_rb env dir path of
             None \<Rightarrow> Some (IOError (str ''open log failed: '' @ path), seq, db, dir)
           | Some file \<Rightarrow>
               (case Recover env path file (db_mem db) seq of
                  None \<Rightarrow> None
                | Some (rs, mem, seq, file) \<Rightarrow>
                    let db = db\<lparr>db_mem := mem\<rparr>; dir = AList.update path file dir in
                    if \<not> ok rs then Some (rs, seq, db, dir)
                    else if is_current then
                      Init_logs env fs max_log seq
                        (db\<lparr>log_number := fi_number f, db_log := Some (LogWriter_new (fopen_append file) (length file))\<rparr>) dir
                    else Init_logs env fs max_log seq db dir))"

definition Init :: "Env \<Rightarrow> DBImpl \<Rightarrow> Dir \<Rightarrow> (Status \<times> DBImpl \<times> Dir) option" where
  "Init env db dir =
     (let name = dbname db;
          (s, files) = ListFiles name (if env_scan env then Some (map (\<lambda>(p, _). after_slash p) dir) else None)
      in if \<not> ok s then Some (IOError (str ''scan dir failed: '' @ name), db, dir)
         else
           let (s, next, max_log, dir) = Init_scan env name files (next_file_number db) 0 dir;
               db = db\<lparr>next_file_number := next\<rparr>
           in if \<not> ok s then Some (s, db, dir)
              else
                case Init_tables env name dir (rev files) (db_tables db) of
                  None \<Rightarrow> None
                | Some (s, tables) \<Rightarrow>
                    let db = db\<lparr>db_tables := tables\<rparr> in
                    if \<not> ok s then Some (s, db, dir)
                    else if max_log \<noteq> 0 then
                      (case Init_logs env files max_log 0 db dir of
                         None \<Rightarrow> None
                       | Some (s, seq, db, dir) \<Rightarrow>
                           if \<not> ok s then Some (s, db, dir) else Some (Status_OK, db\<lparr>last_seq := seq\<rparr>, dir))
                    else
                      let db = db\<lparr>log_number := next_file_number db, next_file_number := next_file_number db + 1\<rparr>;
                          path = LogFileName name (log_number db)
                      in if \<not> env_open env path then Some (IOError (str ''create log failed: '' @ path), db, dir)
                         else
                           let dir = dir_create path dir in
                           Some (Status_OK,
                             db\<lparr>db_log := Some (LogWriter_new (fopen_append (the (map_of dir path))) 0), last_seq := 0\<rparr>, dir))"

text \<open>\<open>DB::Open\<close> hands the database out only if \<open>Init\<close> succeeds; the destructor of the
  class flushes and closes the log.\<close>

definition DBImpl_destroy :: "Env \<Rightarrow> DBImpl \<Rightarrow> Dir \<Rightarrow> Dir" where
  "DBImpl_destroy env db dir =
     (case db_log db of
        None \<Rightarrow> dir
      | Some w \<Rightarrow>
          let path = LogFileName (dbname db) (log_number db); os = env_os env path; (_, f) = fflush os (lw_file w)
          in AList.update path (snd (fclose os f)) dir)"

definition DB_Open :: "Env \<Rightarrow> bytes \<Rightarrow> Dir \<Rightarrow> (Status \<times> DBImpl option \<times> Dir) option" where
  "DB_Open env name dir =
     map_option (\<lambda>(s, db, dir). if ok s then (Status_OK, Some db, dir) else (s, None, DBImpl_destroy env db dir))
       (Init env (DBImpl_new env name) dir)"

section \<open>Flushing the memtable\<close>

partial_function (option) Flush_loop :: "Os \<Rightarrow> MemTable \<Rightarrow> nat option \<Rightarrow> TableBuilder \<Rightarrow> (Status \<times> TableBuilder) option" where
  "Flush_loop os mem it builder =
     (if Iter_Valid it then
        (case TableBuilder_Add os (MemIter_ikey mem it) (MemIter_value mem it) builder of
           (s, builder) \<Rightarrow>
             if \<not> ok s then Some (s, builder) else Flush_loop os mem (MemIter_Next mem it) builder)
      else Some (Status_OK, builder))"

text \<open>The table is on disk under its final name: the old log goes, a new one comes.\<close>

definition Flush_switch_log :: "Env \<Rightarrow> u64 \<Rightarrow> DBImpl \<Rightarrow> Dir \<Rightarrow> (Status \<times> DBImpl \<times> Dir) option" where
  "Flush_switch_log env new_log_number db dir =
     (case db_log db of
        None \<Rightarrow> None
      | Some w \<Rightarrow>
          let old_log_name = LogFileName (dbname db) (log_number db);
              os = env_os env old_log_name;
              (_, f) = fflush os (lw_file w);
              (closed, bytes) = fclose os f;
              dir = AList.update old_log_name bytes dir;
              db = db\<lparr>db_log := None\<rparr>
          in if \<not> closed then Some (IOError (str ''close old log failed: '' @ old_log_name), db, dir)
             else if \<not> can_remove env dir old_log_name
             then Some (IOError (str ''remove old log failed: '' @ old_log_name), db, dir)
             else
               let dir = AList.delete old_log_name dir;
                   db = db\<lparr>log_number := new_log_number\<rparr>;
                   new_log_name = LogFileName (dbname db) (log_number db)
               in if \<not> env_open env new_log_name
                  then Some (IOError (str ''create new log failed: '' @ new_log_name), db, dir)
                  else
                    let dir = dir_create new_log_name dir in
                    Some (Status_OK,
                      db\<lparr>db_log := Some (LogWriter_new (fopen_append (the (map_of dir new_log_name))) 0),
                        db_mem := MemTable_new (env_char env)\<rparr>, dir))"

definition FlushMemTable :: "Env \<Rightarrow> DBImpl \<Rightarrow> Dir \<Rightarrow> (Status \<times> DBImpl \<times> Dir) option" where
  "FlushMemTable env db dir =
     (let it = MemIter_SeekToFirst (db_mem db) in
      if \<not> Iter_Valid it then Some (Status_OK, db, dir)
      else
        let table_number = next_file_number db;
            new_log_number = next_file_number db + 1;
            db = db\<lparr>next_file_number := next_file_number db + 2\<rparr>;
            tmp_name = TempFileName (dbname db) table_number;
            os = env_os env tmp_name
        in if \<not> env_open env tmp_name
           then Some (IOError (str ''create tmp table failed: '' @ tmp_name), db, dir)
           else
             case Flush_loop os (db_mem db) it (TableBuilder_new fopen_new) of
               None \<Rightarrow> None
             | Some (s, builder) \<Rightarrow>
                 if \<not> ok s then Some (s, db, AList.update tmp_name (TableBuilder_destroy os builder) dir)
                 else
                   let (s, builder) = TableBuilder_Finish os builder;
                       dir = AList.update tmp_name (TableBuilder_destroy os builder) dir
                   in if \<not> ok s then Some (s, db, dir)
                      else
                        let table_name = TableFileName (dbname db) table_number in
                        if \<not> env_rename env tmp_name
                        then Some (IOError (str ''rename tmp table failed: '' @ tmp_name), db, dir)
                        else
                          let dir = dir_rename tmp_name table_name dir in
                          case Table_Open (env_read env table_name) table_name (fopen_rb env dir table_name) of
                            None \<Rightarrow> None
                          | Some (os, None) \<Rightarrow> Some (os, db, dir)
                          | Some (os, Some t) \<Rightarrow>
                              if \<not> ok os then Some (os, db, dir)
                              else Flush_switch_log env new_log_number (db\<lparr>db_tables := t # db_tables db\<rparr>) dir)"

section \<open>Reading and writing\<close>

definition DBImpl_Write :: "Env \<Rightarrow> bytes \<Rightarrow> DBImpl \<Rightarrow> Dir \<Rightarrow> (Status \<times> DBImpl \<times> Dir) option" where
  "DBImpl_Write env batch db dir =
     (let batch = WriteBatch_set_sequence (last_seq db + 1) batch in
      case db_log db of
        None \<Rightarrow> None
      | Some w \<Rightarrow>
          let (s1, w) = LogWriter_AddRecord (env_os env (LogFileName (dbname db) (log_number db))) batch w;
              db = db\<lparr>db_log := Some w\<rparr>
          in if \<not> ok s1 then Some (s1, db, dir)
             else
               let (s2, mo) = WriteBatch_Iterate (MemTableInserter_Put (env_char env))
                     (MemTableInserter_Delete (env_char env)) batch (Some (db_mem db))
               in case mo of
                    None \<Rightarrow> None
                  | Some mem \<Rightarrow>
                      let db = db\<lparr>db_mem := mem\<rparr> in
                      if \<not> ok s2 then Some (s2, db, dir)
                      else
                        let db = db\<lparr>last_seq := last_seq db + word_of_int (WriteBatch_Count batch)\<rparr> in
                        if ApproximateMemoryUsage (db_mem db) \<ge> kMaxMemTableBytes
                        then FlushMemTable env db dir
                        else Some (Status_OK, db, dir))"

definition DBImpl_Put :: "Env \<Rightarrow> bytes \<Rightarrow> bytes \<Rightarrow> DBImpl \<Rightarrow> Dir \<Rightarrow> (Status \<times> DBImpl \<times> Dir) option" where
  "DBImpl_Put env key value db dir = DBImpl_Write env (WriteBatch_Put key value WriteBatch_Clear) db dir"

definition DBImpl_Delete :: "Env \<Rightarrow> bytes \<Rightarrow> DBImpl \<Rightarrow> Dir \<Rightarrow> (Status \<times> DBImpl \<times> Dir) option" where
  "DBImpl_Delete env key db dir = DBImpl_Write env (WriteBatch_Delete key WriteBatch_Clear) db dir"

text \<open>The status, and the value the code assigns to its output string, if it does.\<close>

fun Get_tables :: "bytes \<Rightarrow> Table list \<Rightarrow> (Status \<times> bytes option) option" where
  "Get_tables key [] = Some (NotFound key, None)"
| "Get_tables key (t # ts) =
     (case Table_Get key t of
        None \<Rightarrow> None
      | Some (kValue v) \<Rightarrow> Some (Status_OK, Some v)
      | Some kDeleted \<Rightarrow> Some (NotFound key, None)
      | Some kNotFoundState \<Rightarrow> Get_tables key ts)"

definition DBImpl_Get :: "bytes \<Rightarrow> DBImpl \<Rightarrow> (Status \<times> bytes option) option" where
  "DBImpl_Get key db =
     (case MemTable_Get key (db_mem db) of
        None \<Rightarrow> None
      | Some (kValue v) \<Rightarrow> Some (Status_OK, Some v)
      | Some kDeleted \<Rightarrow> Some (NotFound key, None)
      | Some kNotFoundState \<Rightarrow> Get_tables key (db_tables db))"

end
