(* ===== verification/Recovery.thy ===== *)
theory Recovery
  imports DbImpl
begin

text \<open>
  What recovery makes of a log and of a directory: \<open>Recover\<close> rebuilds in a memtable what
  the records of a log say, also of a log that was cut, and \<open>Init\<close> brings up a database
  that answers as tables and log prescribe.
\<close>

section \<open>Logs on disk\<close>

text \<open>
  A file that, read in this way, gives the records, and can be extended once its tail is
  cut; one whose reads do not fail.
\<close>

definition log_reads :: "Reads \<Rightarrow> bytes \<Rightarrow> bytes list \<Rightarrow> bool" where
  "log_reads rd file recs \<longleftrightarrow> (\<exists>fs. fits 0 fs \<and> assemble None fs = recs \<and>
     reader_gives (LogReader_new rd file) recs (length (layout 0 fs)) \<and>
     take (length (layout 0 fs)) file = layout 0 fs)"

abbreviation log_holds :: "bytes \<Rightarrow> bytes list \<Rightarrow> bool" where
  "log_holds \<equiv> log_reads all_read"

lemma log_holds_layout: "fits 0 fs \<Longrightarrow> log_holds (layout 0 fs) (assemble None fs)"
  unfolding log_reads_def using reader_stands_gives [OF reader_of_layout] by (intro exI [of _ fs]) simp

lemma log_holds_Nil: "log_holds [] []"
  using log_holds_layout [of "[]"] by simp

lemma assemble_append_cut:
  "chain cs \<Longrightarrow> i < length cs \<Longrightarrow> assemble st (fs @ take i cs) = assemble st fs"
  by (induction st fs rule: assemble.induct) (auto simp: assemble_cut_chain split: option.splits)

text \<open>
  Cutting a log while a record is being added leaves the records with or without it, and
  without it if adding it failed.
\<close>

lemma log_holds_cut:
  assumes w: "writer_at w fs" and a: "LogWriter_AddRecord os data w = (s, w')" and m: "length (layout 0 fs) \<le> m"
  shows "log_holds (take m (content (lw_file w'))) (assemble None fs) \<or>
    ok s \<and> log_holds (take m (content (lw_file w'))) (assemble None fs @ [data])"
proof -
  obtain new k where new: "chain new" "payload new = data" "fits 0 (fs @ new)"
    "content (lw_file w') = take k (layout 0 (fs @ new))" "length (layout 0 fs) \<le> k"
    "\<not> ok s \<Longrightarrow> k < length (layout 0 (fs @ new))"
    using AddRecord_writer [OF w a] by blast
  have c: "take m (content (lw_file w')) = take (min m k) (layout 0 (fs @ new))" by (simp add: new(4))
  obtain j where j: "j \<le> length (fs @ new)" "length (layout 0 (take j (fs @ new))) \<le> min m k"
    "reader_stands (LogReader_new all_read (take (min m k) (layout 0 (fs @ new)))) (assemble None (take j (fs @ new)))
      (length (layout 0 (take j (fs @ new))))"
    "\<And>i. i \<le> length (fs @ new) \<Longrightarrow> length (layout 0 (take i (fs @ new))) \<le> min m k \<Longrightarrow> i \<le> j"
    using reader_of_cut [OF new(3), of "min m k"] by blast
  have "length fs \<le> j" using j(4) [of "length fs"] m new(5) by simp
  then have t: "take j (fs @ new) = fs @ take (j - length fs) new" by simp
  have "fits 0 (take j (fs @ new))" using new(3) by (metis append_take_drop_id fits_append)
  moreover have "take (length (layout 0 (take j (fs @ new)))) (take (min m k) (layout 0 (fs @ new))) =
      layout 0 (take j (fs @ new))"
    using j(2) arg_cong [OF layout_take [of 0 "fs @ new" j], of "take (length (layout 0 (take j (fs @ new))))"]
    by (simp add: min_absorb1)
  ultimately have h: "log_holds (take m (content (lw_file w'))) (assemble None (take j (fs @ new)))"
    unfolding log_reads_def c using reader_stands_gives [OF j(3)] by blast
  show ?thesis
  proof (cases "j - length fs < length new")
    case True
    have "log_holds (take m (content (lw_file w'))) (assemble None fs)"
      using h unfolding t assemble_append_cut [OF new(1) True] .
    then show ?thesis ..
  next
    case False
    then have n: "take (j - length fs) new = new" by simp
    then have "ok s" using j(2) new(6) unfolding t by fastforce
    have "log_holds (take m (content (lw_file w'))) (assemble None (fs @ new))" using h unfolding t n .
    then show ?thesis using assemble_append_chain [OF new(1), of None fs "[]"] new(2) \<open>ok s\<close> by simp
  qed
qed

section \<open>What a log of batches stands for\<close>

fun log_records :: "nat \<Rightarrow> op list list \<Rightarrow> bytes list" where
  "log_records n [] = []"
| "log_records n (ops # bs) = enc_batch (word_of_nat n) ops # log_records (n + length ops) bs"

definition batches_ok :: "op list list \<Rightarrow> bool" where
  "batches_ok bs \<longleftrightarrow> (\<forall>ops \<in> set bs. batch_ok ops \<and> ops \<noteq> [])"

definition num_ops :: "op list list \<Rightarrow> nat" where
  "num_ops bs = length (concat bs)"

definition ops_view :: "op list \<Rightarrow> bytes \<Rightarrow> LookupState" where
  "ops_view ops = fold (apply_op view_put view_delete) ops (\<lambda>_. kNotFoundState)"

definition ops_usage :: "op list \<Rightarrow> nat" where
  "ops_usage ops = fold (apply_op usage_put usage_delete) ops sizeof_Node"

lemma log_records_append:
  "log_records n (bs @ cs) = log_records n bs @ log_records (n + num_ops bs) cs"
  by (induction bs arbitrary: n) (simp_all add: num_ops_def add.assoc)

lemma num_ops_simps [simp]: "num_ops [] = 0" "num_ops (ops # bs) = length ops + num_ops bs"
  "num_ops (bs @ cs) = num_ops bs + num_ops cs"
  by (simp_all add: num_ops_def)

lemma ops_view_simps [simp]: "ops_view [] = (\<lambda>_. kNotFoundState)"
  "ops_view (ops @ [x]) = apply_op view_put view_delete x (ops_view ops)"
  by (simp_all add: ops_view_def)

lemma ops_usage_simps [simp]: "ops_usage [] = sizeof_Node"
  "ops_usage (ops @ [x]) = apply_op usage_put usage_delete x (ops_usage ops)"
  by (simp_all add: ops_usage_def)

lemma entries_lookup_empty: "entries_lookup [] = (\<lambda>_. kNotFoundState)"
  by (simp add: fun_eq_iff)

lemma MemTable_new_usage [simp]: "ApproximateMemoryUsage (MemTable_new nc) = sizeof_Node"
  using mem_rel_usage [OF mem_rel_new] by (simp add: mem_usage_def)

section \<open>Recover\<close>

lemma word_add_nat: "unat (seq :: u64) + 1 = n \<Longrightarrow> seq = word_of_nat (n - 1)"
  by auto

text \<open>\<open>hi\<close> is the largest sequence number so far, one below the next one if there was any.\<close>

lemma Recover_loop_log:
  assumes "reader_gives r (log_records n bs) e" "batches_ok bs" "mem_rel mem es"
    and "\<forall>x \<in> set es. unat (entry_seq x) < n" "1 \<le> n" "n + num_ops bs \<le> 2 ^ 56" "unat seq < n"
  shows "\<exists>r' mem' es'. Recover_loop nc r batch mem seq =
      Some (Status_OK, r', mem', if bs = [] then seq else word_of_nat (n + num_ops bs - 1)) \<and>
    lr_valid_end r' = e \<and> mem_rel mem' es' \<and> (\<forall>x \<in> set es'. unat (entry_seq x) < n + num_ops bs) \<and>
    entries_lookup es' = fold (apply_op view_put view_delete) (concat bs) (entries_lookup es) \<and>
    ApproximateMemoryUsage mem' = fold (apply_op usage_put usage_delete) (concat bs) (ApproximateMemoryUsage mem)"
  using assms
proof (induction bs arbitrary: r n batch mem es seq)
  case Nil
  then obtain r' where "ReadRecord r = Some (None, r')" "lr_valid_end r' = e" by auto
  then show ?case using Nil.prems(3,4) by (subst Recover_loop.simps) auto
next
  case (Cons ops bs)
  obtain r1 where r1: "ReadRecord r = Some (Some (enc_batch (word_of_nat n) ops), r1)"
    "reader_gives r1 (log_records (n + length ops) bs) e"
    using Cons.prems(1) by auto
  have ok: "batch_ok ops" "ops \<noteq> []" "batches_ok bs" using Cons.prems(2) by (auto simp: batches_ok_def)
  have len: "length ops < 2 ^ 31" using ok(1) by (simp add: batch_ok_def)
  have bound: "n + length ops \<le> 2 ^ 56" using Cons.prems(6) by simp
  have "mem_seq_inv n (Some mem)" using Cons.prems(3,4) by (auto simp: mem_seq_inv_def)
  from inserter.iterate_batch [OF ok(1) this bound, of nc] obtain s' where
    run: "WriteBatch_Iterate (MemTableInserter_Put nc) (MemTableInserter_Delete nc)
      (enc_batch (word_of_nat n) ops) (Some mem) = (Status_OK, s')"
    and inv: "mem_seq_inv (n + length ops) s'"
    and view: "mem_view s' = fold (apply_op view_put view_delete) ops (mem_view (Some mem))" by blast
  obtain mem1 es1 where m1: "s' = Some mem1" "mem_rel mem1 es1"
    "\<forall>x \<in> set es1. unat (entry_seq x) < n + length ops" using inv by (auto simp: mem_seq_inv_def)
  have lk: "entries_lookup es1 = fold (apply_op view_put view_delete) ops (entries_lookup es)"
    using view m1(1) mem_view_rel [OF m1(2)] mem_view_rel [OF Cons.prems(3)] by simp
  have us: "ApproximateMemoryUsage mem1 = fold (apply_op usage_put usage_delete) ops (ApproximateMemoryUsage mem)"
    using inserter_usage.iterate_batch [OF ok(1) \<open>mem_seq_inv n (Some mem)\<close> bound, of nc] run m1(1)
    by (auto simp: usage_view_def)
  have set_ok: "WriteBatch_SetContents (enc_batch (word_of_nat n) ops) batch = (Status_OK, enc_batch (word_of_nat n) ops)"
    by (simp add: WriteBatch_SetContents_def kHeader_def enc_batch_def)
  let ?hi = "word_of_nat n + word_of_int (int (length ops)) - 1 :: u64"
  have l1: "1 \<le> length ops" using ok(2) by (simp add: Suc_le_eq)
  have e: "?hi = word_of_nat (n + length ops - 1)"
    using Cons.prems(5) by (simp add: of_nat_diff)
  have ue: "unat ?hi = n + length ops - 1"
    unfolding e using bound by (intro unat_word_of_nat_less) simp
  have gt: "?hi > seq" using ue Cons.prems(5,7) l1 unfolding word_less_nat_alt by linarith
  have run1: "Recover_loop nc r batch mem seq = Recover_loop nc r1 (enc_batch (word_of_nat n) ops) mem1 ?hi"
    using ok(2) gt by (subst Recover_loop.simps) (simp add: r1(1) set_ok run m1(1) Count_enc_batch_exact [OF len] Let_def)
  have "unat ?hi < n + length ops" using ue l1 by linarith
  have b: "1 \<le> n + length ops" "n + length ops + num_ops bs \<le> 2 ^ 56" using Cons.prems(5,6) by simp_all
  from Cons.IH [OF r1(2) ok(3) m1(2,3) b \<open>unat ?hi < n + length ops\<close>, of "enc_batch (word_of_nat n) ops"]
  obtain r' mem' es' where
    "Recover_loop nc r1 (enc_batch (word_of_nat n) ops) mem1 ?hi =
      Some (Status_OK, r', mem', if bs = [] then ?hi else word_of_nat (n + length ops + num_ops bs - 1))"
    "lr_valid_end r' = e" "mem_rel mem' es'" "\<forall>x \<in> set es'. unat (entry_seq x) < n + length ops + num_ops bs"
    "entries_lookup es' = fold (apply_op view_put view_delete) (concat bs)
      (fold (apply_op view_put view_delete) ops (entries_lookup es))"
    "ApproximateMemoryUsage mem' = fold (apply_op usage_put usage_delete) (concat bs)
      (fold (apply_op usage_put usage_delete) ops (ApproximateMemoryUsage mem))"
    unfolding lk us by blast
  then show ?case unfolding run1 using e by (cases bs) (auto simp: add.assoc)
qed

lemma Recover_log:
  assumes "log_reads (env_read env path) file (log_records n bs)" "batches_ok bs" "1 \<le> n" "n + num_ops bs \<le> 2 ^ 56"
    and "env_truncate env path"
  shows "\<exists>mem es fs. Recover env path file (MemTable_new nc) seq0 =
      Some (Status_OK, mem, if bs = [] then 0 else word_of_nat (n + num_ops bs - 1), layout 0 fs) \<and>
    fits 0 fs \<and> assemble None fs = log_records n bs \<and>
    mem_rel mem es \<and> (\<forall>x \<in> set es. unat (entry_seq x) < n + num_ops bs) \<and> entries_lookup es = ops_view (concat bs) \<and>
    ApproximateMemoryUsage mem = ops_usage (concat bs)"
proof -
  obtain fs where fs: "fits 0 fs" "assemble None fs = log_records n bs"
    "reader_gives (LogReader_new (env_read env path) file) (log_records n bs) (length (layout 0 fs))"
    "take (length (layout 0 fs)) file = layout 0 fs"
    using assms(1) by (auto simp: log_reads_def)
  obtain r' mem es where r: "Recover_loop (env_char env) (LogReader_new (env_read env path) file) WriteBatch_Clear (MemTable_new nc) 0 =
      Some (Status_OK, r', mem, if bs = [] then 0 else word_of_nat (n + num_ops bs - 1))"
    "lr_valid_end r' = length (layout 0 fs)" "mem_rel mem es" "\<forall>x \<in> set es. unat (entry_seq x) < n + num_ops bs"
    "entries_lookup es = fold (apply_op view_put view_delete) (concat bs) (entries_lookup [])"
    "ApproximateMemoryUsage mem = fold (apply_op usage_put usage_delete) (concat bs) (ApproximateMemoryUsage (MemTable_new nc))"
    using Recover_loop_log [OF fs(3) assms(2) mem_rel_new _ assms(3,4), of 0 "env_char env" WriteBatch_Clear nc]
      assms(3) by auto
  have "length (layout 0 fs) \<le> length file" using fs(4) by (metis length_take min.cobounded1 min.commute)
  then have "resize (lr_valid_end r') file = layout 0 fs" using r(2) fs(4) by (simp add: resize_def)
  then show ?thesis
    using r fs(1,2) assms(5) entries_lookup_empty
    by (intro exI [of _ mem] exI [of _ es] exI [of _ fs]) (simp add: Recover_def ops_view_def ops_usage_def)
qed

end
