(* ===== verification/DbOpen.thy ===== *)
theory DbOpen
  imports Recovery
begin

text \<open>
  Opening a directory: what \<open>Init\<close> makes of the tables and the log a database has left.
  The predicates say what a directory holds; they are also what every operation keeps.
\<close>

section \<open>Directories\<close>

definition file_path :: "bytes \<Rightarrow> u64 \<Rightarrow> FileType \<Rightarrow> bytes" where
  "file_path name n t = (case t of kLogFile \<Rightarrow> LogFileName name n | kTableFile \<Rightarrow> TableFileName name n
     | kTempFile \<Rightarrow> TempFileName name n)"

text \<open>All files recognised have the names the database gives them, and numbers below \<open>N\<close>.\<close>

definition names_ok :: "bytes \<Rightarrow> nat \<Rightarrow> Dir \<Rightarrow> u64 set \<Rightarrow> u64 set \<Rightarrow> bool" where
  "names_ok name N dir tabs logs \<longleftrightarrow> distinct (map fst dir) \<and>
     (\<forall>p \<in> fst ` set dir. \<forall>n t. ParseFileName p = Some (n, t) \<longrightarrow>
        p = file_path name n t \<and> unat n < N \<and> (t = kTableFile \<longrightarrow> n \<in> tabs) \<and> (t = kLogFile \<longrightarrow> n \<in> logs)) \<and>
     (\<forall>n \<in> tabs. TableFileName name n \<in> fst ` set dir) \<and> (\<forall>n \<in> logs. LogFileName name n \<in> fst ` set dir)"

definition table_file :: "bytes \<Rightarrow> entry list \<Rightarrow> bool" where
  "table_file b es \<longleftrightarrow> entries_ok es \<and> table_fits es \<and>
     (\<exists>css. b = table_bytes css \<and> concat css = es \<and> [] \<notin> set css)"

definition tables_on_disk :: "bytes \<Rightarrow> Dir \<Rightarrow> u64 list \<Rightarrow> entry list list \<Rightarrow> bool" where
  "tables_on_disk name dir nums tss \<longleftrightarrow> sorted_wrt (>) nums \<and>
     list_all2 (\<lambda>n es. \<exists>b. map_of dir (TableFileName name n) = Some b \<and> table_file b es) nums tss"

lemma ParseFileName_file_path [simp]: "ParseFileName (file_path name n t) = Some (n, t)"
  by (cases t) (simp_all add: file_path_def)

lemma file_path_inj [simp]: "file_path name n t = file_path name m u \<longleftrightarrow> n = m \<and> t = u"
  by (metis ParseFileName_file_path option.inject prod.inject)

lemma file_paths:
  "LogFileName name n = file_path name n kLogFile" "TableFileName name n = file_path name n kTableFile"
  "TempFileName name n = file_path name n kTempFile"
  by (simp_all add: file_path_def)

lemma after_slash_idem [simp]: "after_slash (after_slash p) = after_slash p"
  using after_slash_append(2) [of "after_slash p"] set_takeWhileD by (fastforce simp: after_slash_def)

lemma ParseFileName_after_slash [simp]: "ParseFileName (after_slash p) = ParseFileName p"
  by (simp add: ParseFileName_def)

lemma names_okD:
  assumes "names_ok name N dir tabs logs" "p \<in> fst ` set dir" "ParseFileName p = Some (n, t)"
  shows "p = file_path name n t \<and> unat n < N \<and> (t = kTableFile \<longrightarrow> n \<in> tabs) \<and> (t = kLogFile \<longrightarrow> n \<in> logs)"
  using assms unfolding names_ok_def by blast

lemma keys_delete: "fst ` set (AList.delete p dir) = fst ` set dir - {p}"
  by (metis AList.delete_keys list.set_map set_removeAll)

section \<open>The scan\<close>

lemma distinct_map_filter:
  "distinct xs \<Longrightarrow> (\<And>x y. x \<in> set xs \<Longrightarrow> f x = Some y \<Longrightarrow> g y = x) \<Longrightarrow> distinct (List.map_filter f xs)"
proof (induction xs)
  case (Cons x xs)
  have "y \<notin> set (List.map_filter f xs)" if y: "f x = Some y" for y
  proof
    assume "y \<in> set (List.map_filter f xs)"
    then obtain x' where "x' \<in> set xs" "f x' = Some y" by (auto simp: List.map_filter_def)
    then show False using Cons.prems(1) Cons.prems(2) [of x' y] Cons.prems(2) [of x y] y by simp
  qed
  then show ?case using Cons by (auto simp: List.map_filter_simps split: option.split)
qed (simp add: List.map_filter_simps)

lemma in_map_filter: "y \<in> set (List.map_filter f xs) \<longleftrightarrow> (\<exists>x \<in> set xs. f x = Some y)"
  by (induction xs) (auto simp: List.map_filter_simps split: option.split)

lemma in_infos: "\<lparr>fi_number = n, fi_type = t\<rparr> \<in> (\<lambda>(n, t). \<lparr>fi_number = n, fi_type = t\<rparr>) ` A \<longleftrightarrow> (n, t) \<in> A"
  by auto

lemma ListFiles_dir:
  assumes "names_ok name N dir tabs logs"
  obtains files where
    "ListFiles name (Some (map (\<lambda>(p, _). after_slash p) dir)) = (Status_OK, files)"
    "sorted (map fi_number files)" "distinct files"
    "\<And>f. f \<in> set files \<Longrightarrow> file_path name (fi_number f) (fi_type f) \<in> fst ` set dir \<and> unat (fi_number f) < N \<and>
      (fi_type f = kTableFile \<longrightarrow> fi_number f \<in> tabs) \<and> (fi_type f = kLogFile \<longrightarrow> fi_number f \<in> logs)"
    "\<And>p n t. p \<in> fst ` set dir \<Longrightarrow> ParseFileName p = Some (n, t) \<Longrightarrow> \<lparr>fi_number = n, fi_type = t\<rparr> \<in> set files"
proof -
  let ?mk = "\<lambda>(n, t). \<lparr>fi_number = n, fi_type = t\<rparr>"
  let ?names = "map (\<lambda>(p, _). after_slash p) dir"
  let ?infos = "map ?mk (List.map_filter ParseFileName ?names)"
  let ?files = "sort_key fi_number ?infos"
  have ps: "List.map_filter ParseFileName ?names = List.map_filter ParseFileName (map fst dir)"
    by (induction dir) (auto simp: List.map_filter_simps split: option.split)
  have inj: "file_path name (fst y) (snd y) = p" if "p \<in> set (map fst dir)" "ParseFileName p = Some y" for p y
    using names_okD [OF assms, of p "fst y" "snd y"] that by simp
  have d: "distinct (List.map_filter ParseFileName (map fst dir))"
    using assms inj by (intro distinct_map_filter [where g = "\<lambda>y. file_path name (fst y) (snd y)"])
      (simp_all add: names_ok_def)
  have mk: "\<lparr>fi_number = n, fi_type = t\<rparr> \<in> set ?files \<longleftrightarrow> (\<exists>p \<in> fst ` set dir. ParseFileName p = Some (n, t))" for n t
    unfolding ps set_sort set_map in_infos in_map_filter by (simp only: list.set_map)
  have in_files: "file_path name (fi_number f) (fi_type f) \<in> fst ` set dir \<and> unat (fi_number f) < N \<and>
      (fi_type f = kTableFile \<longrightarrow> fi_number f \<in> tabs) \<and> (fi_type f = kLogFile \<longrightarrow> fi_number f \<in> logs)"
    if "f \<in> set ?files" for f
  proof -
    have "\<lparr>fi_number = fi_number f, fi_type = fi_type f\<rparr> = f" by simp
    with that have "\<lparr>fi_number = fi_number f, fi_type = fi_type f\<rparr> \<in> set ?files" by (simp only:)
    then obtain p where p: "p \<in> fst ` set dir" "ParseFileName p = Some (fi_number f, fi_type f)"
      unfolding mk by (elim bexE)
    then show ?thesis using names_okD [OF assms p] by simp
  qed
  have "distinct ?files"
    unfolding ps using d by (auto simp: distinct_map inj_on_def)
  moreover have "\<lparr>fi_number = n, fi_type = t\<rparr> \<in> set ?files"
    if "p \<in> fst ` set dir" "ParseFileName p = Some (n, t)" for p n t
    unfolding mk using that by blast
  ultimately show ?thesis
    using that [of ?files] in_files by (simp add: ListFiles_def)
qed

definition open_env :: "Env \<Rightarrow> bool" where
  "open_env env \<longleftrightarrow> env_scan env \<and> (\<forall>p. env_open env p \<and> env_remove env p \<and> env_truncate env p)"

definition good_env :: "Env \<Rightarrow> bool" where
  "good_env env \<longleftrightarrow> open_env env \<and> (\<forall>p. env_read env p = all_read)"

definition temp_paths :: "bytes \<Rightarrow> FileInfo list \<Rightarrow> bytes set" where
  "temp_paths name fs = {TempFileName name (fi_number f) | f. f \<in> set fs \<and> fi_type f = kTempFile}"

definition max_log_of :: "FileInfo list \<Rightarrow> u64 \<Rightarrow> u64" where
  "max_log_of fs = fold (\<lambda>f m. if fi_type f = kLogFile \<and> fi_number f > m then fi_number f else m) fs"

lemma Init_scan_ok:
  assumes "open_env env" "distinct fs" "distinct (map fst dir)" "temp_paths name fs \<subseteq> fst ` set dir"
    and "\<And>f. f \<in> set fs \<Longrightarrow> unat (fi_number f) < N" "N < 2 ^ 64" "unat next \<le> N"
  shows "\<exists>next'. Init_scan env name fs next m dir =
      (Status_OK, next', max_log_of fs m, filter (\<lambda>x. fst x \<notin> temp_paths name fs) dir) \<and>
    next \<le> next' \<and> unat next' \<le> N \<and> (\<forall>f \<in> set fs. fi_number f < next')"
  using assms(2-)
proof (induction fs arbitrary: "next" m dir)
  case (Cons f fs)
  let ?next = "if fi_number f \<ge> next then fi_number f + 1 else next"
  have fN: "unat (fi_number f) < N" using Cons.prems(4) by simp
  have u: "unat (fi_number f + 1) = unat (fi_number f) + 1"
    using fN Cons.prems(5) by (simp add: unat_word_ariths)
  have n: "next \<le> ?next" "unat ?next \<le> N" "fi_number f < ?next"
    using fN u Cons.prems(6) by (auto simp: word_le_nat_alt word_less_nat_alt)
  show ?case
  proof (cases "fi_type f = kTempFile")
    case True
    let ?p = "TempFileName name (fi_number f)"
    let ?dir = "AList.delete ?p dir"
    have in_dir: "?p \<in> fst ` set dir" using Cons.prems(3) True by (auto simp: temp_paths_def)
    then have cr: "can_remove env dir ?p"
      using assms(1) by (auto simp: can_remove_def open_env_def map_of_eq_None_iff)
    have notin: "?p \<notin> temp_paths name fs"
      using Cons.prems(1) True by (auto simp: temp_paths_def file_paths) (metis FileInfo.equality old.unit.exhaust)
    have tp: "temp_paths name (f # fs) = insert ?p (temp_paths name fs)" using True by (auto simp: temp_paths_def)
    have "temp_paths name fs \<subseteq> fst ` set ?dir"
      using Cons.prems(3) notin unfolding tp keys_delete by blast
    then obtain next' where "Init_scan env name fs ?next m ?dir =
        (Status_OK, next', max_log_of fs m, filter (\<lambda>x. fst x \<notin> temp_paths name fs) ?dir)"
      "?next \<le> next'" "unat next' \<le> N" "\<forall>f \<in> set fs. fi_number f < next'"
      using Cons.IH [of ?dir ?next m] Cons.prems n(2) by (auto simp: AList.distinct_delete)
    moreover have "filter (\<lambda>x. fst x \<notin> temp_paths name fs) ?dir = filter (\<lambda>x. fst x \<notin> temp_paths name (f # fs)) dir"
      unfolding tp AList.delete_eq by (auto simp: intro: filter_cong)
    ultimately show ?thesis using True cr n by (auto simp: Let_def max_log_of_def)
  next
    case False
    have tp: "temp_paths name (f # fs) = temp_paths name fs" using False by (auto simp: temp_paths_def)
    let ?m = "if fi_type f = kLogFile \<and> fi_number f > m then fi_number f else m"
    obtain next' where "Init_scan env name fs ?next ?m dir =
        (Status_OK, next', max_log_of fs ?m, filter (\<lambda>x. fst x \<notin> temp_paths name fs) dir)"
      "?next \<le> next'" "unat next' \<le> N" "\<forall>f \<in> set fs. fi_number f < next'"
      using Cons.IH [of dir ?next ?m] Cons.prems n(2) unfolding tp by auto
    then show ?thesis using False n unfolding tp by (auto simp: Let_def max_log_of_def)
  qed
qed (auto simp: temp_paths_def max_log_of_def)

lemma max_log_of_single:
  "(\<And>f. f \<in> set fs \<Longrightarrow> fi_type f = kLogFile \<Longrightarrow> fi_number f = l) \<Longrightarrow> m = 0 \<or> m = l \<Longrightarrow>
   max_log_of fs m = (if (\<exists>f \<in> set fs. fi_type f = kLogFile) \<or> m = l then l else 0)"
proof (induction fs arbitrary: m)
  case (Cons f fs)
  have le: "\<not> l < m" if "m = l" for m :: u64 using that by simp
  show ?case
    using Cons.IH [of m] Cons.IH [of l] Cons.prems(1) [of f] Cons.prems
    by (cases "fi_type f = kLogFile") (auto simp: max_log_of_def word_neq_0_conv)
qed (auto simp: max_log_of_def)

lemma map_of_filter_key: "map_of (filter (\<lambda>x. P (fst x)) xs) k = (if P k then map_of xs k else None)"
  by (induction xs) auto

lemma distinct_map_filter_fst: "distinct (map fst xs) \<Longrightarrow> distinct (map fst (filter P xs))"
  by (induction xs) auto

lemma distinct_singleton: "distinct xs \<Longrightarrow> set xs = {x} \<Longrightarrow> xs = [x]"
  by (metis distinct_card card_1_singleton_iff length_Suc_conv length_0_conv list.set_intros(1) One_nat_def card.empty card_insert_disjoint empty_iff finite.emptyI singletonD)

lemma FileInfo_eqI: "fi_number f = fi_number g \<Longrightarrow> fi_type f = fi_type g \<Longrightarrow> f = (g :: FileInfo)"
  by (cases f; cases g) simp

section \<open>Mounting tables and logs\<close>

lemma Table_Open_file:
  assumes "table_file b es"
  shows "\<exists>t. Table_Open all_read fname (Some b) = Some (Status_OK, Some t) \<and> table_stands t es"
  using assms Table_Open_table by (auto simp: table_file_def)

lemma Init_tables_ok:
  assumes "open_env env" "\<And>n. env_read env (TableFileName name n) = all_read"
    and "list_all2 (\<lambda>n es. \<exists>b. map_of dir (TableFileName name n) = Some b \<and> table_file b es)
      (map fi_number (filter (\<lambda>f. fi_type f = kTableFile) fs)) tss"
  shows "\<exists>ts'. Init_tables env name dir fs ts = Some (Status_OK, ts @ ts') \<and> list_all2 table_stands ts' tss"
  using assms(3)
proof (induction fs arbitrary: ts tss)
  case (Cons f fs)
  show ?case
  proof (cases "fi_type f = kTableFile")
    case True
    then obtain es tss' b where tss: "tss = es # tss'" "map_of dir (TableFileName name (fi_number f)) = Some b"
      "table_file b es" "list_all2 (\<lambda>n es. \<exists>b. map_of dir (TableFileName name n) = Some b \<and> table_file b es)
        (map fi_number (filter (\<lambda>f. fi_type f = kTableFile) fs)) tss'"
      using Cons.prems by (auto simp: list_all2_Cons1)
    obtain t where t: "Table_Open all_read (TableFileName name (fi_number f)) (Some b) = Some (Status_OK, Some t)" "table_stands t es"
      using Table_Open_file [OF tss(3)] by blast
    obtain ts' where "Init_tables env name dir fs (ts @ [t]) = Some (Status_OK, (ts @ [t]) @ ts')" "list_all2 table_stands ts' tss'"
      using Cons.IH [OF tss(4), of "ts @ [t]"] by blast
    then show ?thesis
      using True t tss(1,2) assms(1,2) by (intro exI [of _ "t # ts'"]) (simp add: fopen_rb_def open_env_def Let_def)
  next
    case False
    then show ?thesis using Cons by simp
  qed
qed simp

lemma Init_logs_none:
  "(\<And>f. f \<in> set fs \<Longrightarrow> fi_type f \<noteq> kLogFile) \<Longrightarrow> Init_logs env fs max_log seq db dir = Some (Status_OK, seq, db, dir)"
  by (induction fs) auto

lemma Init_logs_one:
  assumes "filter (\<lambda>f. fi_type f = kLogFile) fs = [f]"
  shows "Init_logs env fs max_log seq db dir = Init_logs env [f] max_log seq db dir"
  using assms
proof (induction fs)
  case (Cons g fs)
  show ?case
  proof (cases "fi_type g = kLogFile")
    case True
    then have "g = f" "\<And>h. h \<in> set fs \<Longrightarrow> fi_type h \<noteq> kLogFile" using Cons.prems by (auto simp: filter_empty_conv)
    then show ?thesis using True Init_logs_none [of fs] by (simp add: Let_def split: option.split prod.split)
  next
    case False
    then show ?thesis using Cons by simp
  qed
qed simp

text \<open>The state of a running database beside what it stands for.\<close>

definition db_up ::
  "bytes \<Rightarrow> DBImpl \<Rightarrow> Dir \<Rightarrow> nat \<Rightarrow> op list list \<Rightarrow> u64 list \<Rightarrow> entry list list \<Rightarrow> entry list list \<Rightarrow> entry list \<Rightarrow> bool" where
  "db_up name db dir n bs nums disk open_tables es \<longleftrightarrow>
     dbname db = name \<and> mem_rel (db_mem db) es \<and>
     (\<forall>x \<in> set es. unat (entry_seq x) < n + num_ops bs) \<and> entries_lookup es = ops_view (concat bs) \<and>
     ApproximateMemoryUsage (db_mem db) = ops_usage (concat bs) \<and>
     list_all2 table_stands (db_tables db) open_tables \<and> tables_on_disk name dir nums disk \<and>
     names_ok name (unat (next_file_number db)) dir (set nums) {log_number db} \<and> log_number db \<noteq> 0 \<and>
     batches_ok bs \<and> 1 \<le> n \<and> unat (last_seq db) + 1 = n + num_ops bs \<and>
     (\<exists>w fs. db_log db = Some w \<and> writer_at w fs \<and> assemble None fs = log_records n bs \<and>
       flushed (lw_file w) = length (content (lw_file w)))"

lemma Init_logs_current:
  assumes "open_env env" "map_of dir (LogFileName (dbname db) l) = Some file" "db_mem db = MemTable_new nc"
    and "log_reads (env_read env (LogFileName (dbname db) l)) file (log_records n bs)"
    and "batches_ok bs" "1 \<le> n" "n + num_ops bs \<le> 2 ^ 56"
  shows "\<exists>mem es fs. Init_logs env [\<lparr>fi_number = l, fi_type = kLogFile\<rparr>] l 0 db dir = Some (Status_OK,
      (if bs = [] then 0 else word_of_nat (n + num_ops bs - 1)),
      db\<lparr>db_mem := mem, log_number := l, db_log := Some (LogWriter_new (fopen_append (layout 0 fs)) (length (layout 0 fs)))\<rparr>,
      AList.update (LogFileName (dbname db) l) (layout 0 fs) dir) \<and>
    fits 0 fs \<and> assemble None fs = log_records n bs \<and>
    mem_rel mem es \<and> (\<forall>x \<in> set es. unat (entry_seq x) < n + num_ops bs) \<and> entries_lookup es = ops_view (concat bs) \<and>
    ApproximateMemoryUsage mem = ops_usage (concat bs)"
proof -
  have t: "env_truncate env (LogFileName (dbname db) l)" using assms(1) by (simp add: open_env_def)
  from Recover_log [OF assms(4-7) t, of nc 0] obtain mem es fs where
    r: "Recover env (LogFileName (dbname db) l) file (MemTable_new nc) 0 =
      Some (Status_OK, mem, if bs = [] then 0 else word_of_nat (n + num_ops bs - 1), layout 0 fs)"
    and h: "fits 0 fs" "assemble None fs = log_records n bs" "mem_rel mem es"
      "\<forall>x \<in> set es. unat (entry_seq x) < n + num_ops bs" "entries_lookup es = ops_view (concat bs)"
      "ApproximateMemoryUsage mem = ops_usage (concat bs)" by blast
  have "fopen_rb env dir (LogFileName (dbname db) l) = Some file"
    "dir_create (LogFileName (dbname db) l) dir = dir"
    using assms(1,2) by (simp_all add: fopen_rb_def open_env_def dir_create_def)
  then show ?thesis
    using r h assms(3) by (intro exI [of _ mem] exI [of _ es] exI [of _ fs]) (simp add: Let_def)
qed

section \<open>Init\<close>

lemma names_ok_update:
  assumes "names_ok name N dir tabs logs" "p \<in> fst ` set dir"
  shows "names_ok name N (AList.update p b dir) tabs logs"
  using assms insert_absorb [OF assms(2)] unfolding names_ok_def
  by (simp add: AList.dom_update AList.distinct_update)

lemma names_ok_mono: "names_ok name N dir tabs logs \<Longrightarrow> N \<le> M \<Longrightarrow> names_ok name M dir tabs logs"
  unfolding names_ok_def by (meson less_le_trans)

lemma tables_on_disk_cong:
  assumes "tables_on_disk name dir nums tss"
    and "\<And>n. n \<in> set nums \<Longrightarrow> map_of dir' (TableFileName name n) = map_of dir (TableFileName name n)"
  shows "tables_on_disk name dir' nums tss"
  using assms unfolding tables_on_disk_def by (auto simp: list_all2_conv_all_nth)

text \<open>The tables and the log among the listed files.\<close>

lemma listed_tables:
  assumes "sorted (map fi_number files)" "distinct files" "sorted_wrt (>) nums"
    and in_nums: "\<And>f. f \<in> set files \<Longrightarrow> fi_type f = kTableFile \<Longrightarrow> fi_number f \<in> set nums"
    and listed: "\<And>n. n \<in> set nums \<Longrightarrow> \<lparr>fi_number = n, fi_type = kTableFile\<rparr> \<in> set files"
  shows "map fi_number (filter (\<lambda>f. fi_type f = kTableFile) (rev files)) = nums"
proof -
  let ?tf = "map fi_number (filter (\<lambda>f. fi_type f = kTableFile) files)"
  have "inj_on fi_number (set (filter (\<lambda>f. fi_type f = kTableFile) files))"
    by (rule inj_onI) (simp add: FileInfo_eqI)
  then have dt: "distinct ?tf" using assms(2) by (simp add: distinct_map)
  have "set ?tf = set nums" using in_nums listed by (force simp: image_iff)
  moreover have "sorted_wrt (<) (rev nums)" using assms(3) by (simp add: sorted_wrt_rev)
  ultimately have "?tf = rev nums"
    using sorted_filter [OF assms(1)] dt by (intro sorted_distinct_set_unique) (simp_all add: strict_sorted_iff)
  then show ?thesis by (simp flip: rev_filter rev_map)
qed

lemma listed_log:
  assumes "distinct files" "logs \<subseteq> {l}" "l \<noteq> 0"
    and in_logs: "\<And>f. f \<in> set files \<Longrightarrow> fi_type f = kLogFile \<Longrightarrow> fi_number f \<in> logs"
    and listed: "\<And>n. n \<in> logs \<Longrightarrow> \<lparr>fi_number = n, fi_type = kLogFile\<rparr> \<in> set files"
  shows "filter (\<lambda>f. fi_type f = kLogFile) files = (if logs = {} then [] else [\<lparr>fi_number = l, fi_type = kLogFile\<rparr>])"
    and "max_log_of files 0 = (if logs = {} then 0 else l)"
proof -
  let ?log = "\<lparr>fi_number = l, fi_type = kLogFile\<rparr>" and ?filter = "filter (\<lambda>f. fi_type f = kLogFile) files"
  have numl: "fi_number f = l" if "f \<in> set files" "fi_type f = kLogFile" for f using in_logs [OF that] assms(2) by blast
  have only: "f = ?log" if "f \<in> set ?filter" for f using numl [of f] that by (cases f) simp
  show lf: "?filter = (if logs = {} then [] else [?log])"
  proof (cases "logs = {}")
    case True
    then show ?thesis using in_logs by (auto simp: filter_empty_conv)
  next
    case False
    then have "?log \<in> set files" using listed [of l] assms(2) by blast
    then have "?log \<in> set ?filter" by (simp only: set_filter mem_Collect_eq FileInfo.select_convs simp_thms)
    then have "set ?filter = {?log}" using only by blast
    from distinct_singleton [OF distinct_filter [OF assms(1)] this] show ?thesis using False by simp
  qed
  have "max_log_of files 0 = (if (\<exists>f \<in> set files. fi_type f = kLogFile) \<or> 0 = l then l else 0)"
    by (rule max_log_of_single) (simp_all add: numl)
  also have "(\<exists>f \<in> set files. fi_type f = kLogFile) \<longleftrightarrow> logs \<noteq> {}"
    using lf by (auto simp: filter_empty_conv split: if_splits)
  finally show "max_log_of files 0 = (if logs = {} then 0 else l)" using assms(3) by auto
qed

text \<open>What the scan finds and leaves in a directory in order.\<close>

lemma Init_scan_names:
  assumes "open_env env" "names_ok name N dir (set nums) logs" "sorted_wrt (>) nums"
    and "N < 2 ^ 64" "1 \<le> N" "logs \<subseteq> {l}" "l \<noteq> 0"
  obtains files next' dir' where
    "ListFiles name (Some (map (\<lambda>(p, _). after_slash p) dir)) = (Status_OK, files)"
    "Init_scan env name files 1 0 dir = (Status_OK, next', if logs = {} then 0 else l, dir')"
    "unat next' \<le> N" "1 \<le> next'" "names_ok name (unat next') dir' (set nums) logs"
    "map fi_number (filter (\<lambda>f. fi_type f = kTableFile) (rev files)) = nums"
    "filter (\<lambda>f. fi_type f = kLogFile) files = (if logs = {} then [] else [\<lparr>fi_number = l, fi_type = kLogFile\<rparr>])"
    "\<forall>n t. t \<noteq> kTempFile \<longrightarrow> map_of dir' (file_path name n t) = map_of dir (file_path name n t)"
proof -
  obtain files where files: "ListFiles name (Some (map (\<lambda>(p, _). after_slash p) dir)) = (Status_OK, files)"
    "sorted (map fi_number files)" "distinct files"
    "\<And>f. f \<in> set files \<Longrightarrow> file_path name (fi_number f) (fi_type f) \<in> fst ` set dir \<and> unat (fi_number f) < N \<and>
      (fi_type f = kTableFile \<longrightarrow> fi_number f \<in> set nums) \<and> (fi_type f = kLogFile \<longrightarrow> fi_number f \<in> logs)"
    "\<And>p n t. p \<in> fst ` set dir \<Longrightarrow> ParseFileName p = Some (n, t) \<Longrightarrow> \<lparr>fi_number = n, fi_type = t\<rparr> \<in> set files"
    using ListFiles_dir [OF assms(2)] by metis
  let ?temps = "temp_paths name files"
  let ?dir = "filter (\<lambda>x. fst x \<notin> ?temps) dir"
  have d: "distinct (map fst dir)" using assms(2) by (simp add: names_ok_def)
  have sub: "?temps \<subseteq> fst ` set dir"
  proof
    fix p assume "p \<in> ?temps"
    then obtain f where "f \<in> set files" "fi_type f = kTempFile" "p = TempFileName name (fi_number f)"
      by (auto simp: temp_paths_def)
    then show "p \<in> fst ` set dir" using files(4) [of f] by (simp add: file_paths)
  qed
  have one: "unat (1 :: u64) \<le> N" using assms(5) by simp
  obtain next' where scan: "Init_scan env name files 1 0 dir = (Status_OK, next', max_log_of files 0, ?dir)"
    "1 \<le> next'" "unat next' \<le> N" "\<And>f. f \<in> set files \<Longrightarrow> fi_number f < next'"
    using Init_scan_ok [OF assms(1) files(3) d sub _ assms(4) one, of 0] files(4) by blast
  have keys: "fst ` set ?dir = fst ` set dir - ?temps" by auto
  have not_temp: "file_path name n t \<notin> ?temps" if "t \<noteq> kTempFile" for n t
    using that by (auto simp: temp_paths_def file_paths)
  have mo: "map_of ?dir p = map_of dir p" if "p \<notin> ?temps" for p
    using map_of_filter_key [of "\<lambda>k. k \<notin> ?temps" dir p] that by simp
  have named: "p = file_path name n t \<and> unat n < unat next' \<and> (t = kTableFile \<longrightarrow> n \<in> set nums) \<and> (t = kLogFile \<longrightarrow> n \<in> logs)"
    if "p \<in> fst ` set ?dir" "ParseFileName p = Some (n, t)" for p n t
  proof -
    have "p \<in> fst ` set dir" using that(1) keys by blast
    then show ?thesis
      using names_okD [OF assms(2) _ that(2)] scan(4) [OF files(5) [OF _ that(2)]] by (auto simp: word_less_nat_alt)
  qed
  have tab_in: "TableFileName name n \<in> fst ` set ?dir" if "n \<in> set nums" for n
    using assms(2) not_temp [of kTableFile n] that unfolding keys names_ok_def file_paths by blast
  have log_in: "LogFileName name n \<in> fst ` set ?dir" if "n \<in> logs" for n
    using assms(2) not_temp [of kLogFile n] that unfolding keys names_ok_def file_paths by blast
  have names: "names_ok name (unat next') ?dir (set nums) logs"
    unfolding names_ok_def using named tab_in log_in d by (simp add: distinct_map_filter_fst)
  have tabs: "\<lparr>fi_number = n, fi_type = kTableFile\<rparr> \<in> set files" if "n \<in> set nums" for n
    using files(5) [OF _ ParseFileName_names(2)] tab_in [OF that] keys by blast
  have logs: "\<lparr>fi_number = n, fi_type = kLogFile\<rparr> \<in> set files" if "n \<in> logs" for n
    using files(5) [OF _ ParseFileName_names(1)] log_in [OF that] keys by blast
  have tnums: "map fi_number (filter (\<lambda>f. fi_type f = kTableFile) (rev files)) = nums"
    by (rule listed_tables [OF files(2,3) assms(3)]) (use files(4) tabs in blast)+
  have lf: "filter (\<lambda>f. fi_type f = kLogFile) files = (if logs = {} then [] else [\<lparr>fi_number = l, fi_type = kLogFile\<rparr>])"
    and mx: "max_log_of files 0 = (if logs = {} then 0 else l)"
    by (rule listed_log [OF files(3) assms(6,7)]; use files(4) logs in blast)+
  show ?thesis
    using that [OF files(1) scan(1) [unfolded mx] scan(3,2) names tnums lf] mo not_temp by simp
qed

text \<open>The tables that are mounted then.\<close>

lemma Init_scan_dir:
  assumes "open_env env" "names_ok name N dir (set nums) logs" "tables_on_disk name dir nums tss"
    and "N < 2 ^ 64" "1 \<le> N" "logs \<subseteq> {l}" "l \<noteq> 0"
    and "\<And>n. env_read env (TableFileName name n) = all_read"
  obtains files next' dir' ts where
    "ListFiles name (Some (map (\<lambda>(p, _). after_slash p) dir)) = (Status_OK, files)"
    "Init_scan env name files 1 0 dir = (Status_OK, next', if logs = {} then 0 else l, dir')"
    "unat next' \<le> N" "1 \<le> next'" "names_ok name (unat next') dir' (set nums) logs"
    "tables_on_disk name dir' nums tss"
    "Init_tables env name dir' (rev files) [] = Some (Status_OK, ts)" "list_all2 table_stands ts tss"
    "filter (\<lambda>f. fi_type f = kLogFile) files = (if logs = {} then [] else [\<lparr>fi_number = l, fi_type = kLogFile\<rparr>])"
    "map_of dir' (LogFileName name l) = map_of dir (LogFileName name l)"
proof -
  have s: "sorted_wrt (>) nums" using assms(3) by (simp add: tables_on_disk_def)
  obtain files next' dir' where i:
    "ListFiles name (Some (map (\<lambda>(p, _). after_slash p) dir)) = (Status_OK, files)"
    "Init_scan env name files 1 0 dir = (Status_OK, next', if logs = {} then 0 else l, dir')"
    "unat next' \<le> N" "1 \<le> next'" "names_ok name (unat next') dir' (set nums) logs"
    "map fi_number (filter (\<lambda>f. fi_type f = kTableFile) (rev files)) = nums"
    "filter (\<lambda>f. fi_type f = kLogFile) files = (if logs = {} then [] else [\<lparr>fi_number = l, fi_type = kLogFile\<rparr>])"
    "\<forall>n t. t \<noteq> kTempFile \<longrightarrow> map_of dir' (file_path name n t) = map_of dir (file_path name n t)"
    by (rule Init_scan_names [OF assms(1,2) s assms(4-7)])
  have tod: "tables_on_disk name dir' nums tss"
    by (rule tables_on_disk_cong [OF assms(3)]) (simp add: i(8) file_paths)
  have "list_all2 (\<lambda>n es. \<exists>b. map_of dir' (TableFileName name n) = Some b \<and> table_file b es)
      (map fi_number (filter (\<lambda>f. fi_type f = kTableFile) (rev files))) tss"
    unfolding i(6) using tod by (simp add: tables_on_disk_def)
  from Init_tables_ok [OF assms(1,8) this, of "[]"] obtain ts where
    "Init_tables env name dir' (rev files) [] = Some (Status_OK, ts)" "list_all2 table_stands ts tss" by auto
  then show ?thesis using that [OF i(1-5) tod _ _ i(7)] i(8) by (simp add: file_paths)
qed

text \<open>A directory with a log comes up with its tables and what the log says.\<close>

lemma Init_with_log:
  assumes "open_env env" "names_ok name N dir (set nums) {l}" "l \<noteq> 0" "N < 2 ^ 64" "1 \<le> N"
    and "tables_on_disk name dir nums tss" "map_of dir (LogFileName name l) = Some file"
    and "log_reads (env_read env (LogFileName name l)) file (log_records n bs)"
    and "batches_ok bs" "1 \<le> n" "n + num_ops bs \<le> 2 ^ 56"
    and "\<And>n. env_read env (TableFileName name n) = all_read"
  shows "\<exists>db' dir' n' es. Init env (DBImpl_new env name) dir = Some (Status_OK, db', dir') \<and>
    db_up name db' dir' n' bs nums tss tss es \<and> unat (next_file_number db') \<le> N \<and> n' \<le> n"
proof -
  obtain files next' dir' ts where f0:
    "ListFiles name (Some (map (\<lambda>(p, _). after_slash p) dir)) = (Status_OK, files)"
    "Init_scan env name files 1 0 dir = (Status_OK, next', if {l} = {} then 0 else l, dir')"
    "unat next' \<le> N" "1 \<le> next'" "names_ok name (unat next') dir' (set nums) {l}"
    "tables_on_disk name dir' nums tss"
    "Init_tables env name dir' (rev files) [] = Some (Status_OK, ts)" "list_all2 table_stands ts tss"
    "filter (\<lambda>f. fi_type f = kLogFile) files = (if {l} = {} then [] else [\<lparr>fi_number = l, fi_type = kLogFile\<rparr>])"
    "map_of dir' (LogFileName name l) = map_of dir (LogFileName name l)"
    by (rule Init_scan_dir [OF assms(1,2,6,4,5) order_refl assms(3,12)])
  note f = f0(1) f0(2) [unfolded if_not_P [OF insert_not_empty]] f0(3-8) f0(9) [unfolded if_not_P [OF insert_not_empty]]
    f0(10) [unfolded assms(7)]
  define db where "db = (DBImpl_new env name)\<lparr>next_file_number := next', db_tables := ts\<rparr>"
  have db: "dbname db = name" "db_mem db = MemTable_new (env_char env)" "db_tables db = ts" "next_file_number db = next'"
    by (simp_all add: db_def DBImpl_new_def)
  obtain mem es fs where logs: "Init_logs env [\<lparr>fi_number = l, fi_type = kLogFile\<rparr>] l 0 db dir' = Some (Status_OK,
      (if bs = [] then 0 else word_of_nat (n + num_ops bs - 1)),
      db\<lparr>db_mem := mem, log_number := l, db_log := Some (LogWriter_new (fopen_append (layout 0 fs)) (length (layout 0 fs)))\<rparr>,
      AList.update (LogFileName name l) (layout 0 fs) dir')"
    "fits 0 fs" "assemble None fs = log_records n bs" "mem_rel mem es"
    "\<forall>x \<in> set es. unat (entry_seq x) < n + num_ops bs" "entries_lookup es = ops_view (concat bs)"
    "ApproximateMemoryUsage mem = ops_usage (concat bs)"
    using Init_logs_current [OF assms(1) f(10) [folded db(1)] db(2) assms(8) [folded db(1)] assms(9-11)] db(1) by auto
  let ?seq = "if bs = [] then 0 else word_of_nat (n + num_ops bs - 1) :: u64"
  let ?w = "LogWriter_new (fopen_append (layout 0 fs)) (length (layout 0 fs))"
  let ?db' = "db\<lparr>db_mem := mem, log_number := l, db_log := Some ?w, last_seq := ?seq\<rparr>"
  let ?dir' = "AList.update (LogFileName name l) (layout 0 fs) dir'"
  have run: "Init env (DBImpl_new env name) dir = Some (Status_OK, ?db', ?dir')"
    using assms(1,3) f(1,2,7) logs(1) Init_logs_one [OF f(9), of env l 0 db dir']
    by (simp add: Init_def Let_def open_env_def DBImpl_new_def db_def)
  let ?n = "if bs = [] then 1 else n"
  have empty: "es = []" if "bs = []"
  proof (rule ccontr)
    assume "es \<noteq> []"
    then obtain e where "e \<in> set es" by (cases es) auto
    then have "entries_lookup es (entry_user e) \<noteq> kNotFoundState" by (simp add: entries_lookup_NotFound)
    then show False using logs(6) that by simp
  qed
  have ne: "bs \<noteq> [] \<Longrightarrow> 0 < num_ops bs" using assms(9) by (cases bs) (auto simp: batches_ok_def)
  have seq: "unat ?seq + 1 = ?n + num_ops bs"
  proof (cases "bs = []")
    case False
    have "n + num_ops bs - 1 < 2 ^ LENGTH(64)" using assms(11) by simp
    then have "unat ?seq = n + num_ops bs - 1" using False by (simp only: if_False unat_word_of_nat_less)
    then show ?thesis using False assms(10) by simp
  qed simp
  have "LogFileName name l \<in> fst ` set dir'" using f(5) by (simp add: names_ok_def)
  then have names: "names_ok name (unat next') ?dir' (set nums) {l}" using f(5) by (rule names_ok_update [rotated])
  have "tables_on_disk name ?dir' nums tss"
    by (rule tables_on_disk_cong [OF f(6)]) (simp add: AList.update_conv' file_paths)
  moreover have "\<exists>w fs. ?db'\<lparr>last_seq := ?seq\<rparr> = ?db' \<and> db_log ?db' = Some w \<and> writer_at w fs \<and> assemble None fs = log_records ?n bs \<and>
      flushed (lw_file w) = length (content (lw_file w))"
    using logs(2,3) writer_at_reopen [OF logs(2)]
    by (intro exI [of _ ?w] exI [of _ fs]) (auto simp: LogWriter_new_def fopen_append_def)
  ultimately have "db_up name ?db' ?dir' ?n bs nums tss tss es"
    unfolding db_up_def using logs(4-7) f(8) names assms(3,9,10) seq db empty by auto
  then show ?thesis using run f(3) db(4) assms(10) by (intro exI [of _ ?db'] exI [of _ ?dir'] exI [of _ ?n] exI [of _ es]) auto
qed

text \<open>One without a log gets a new one.\<close>

lemma Init_without_log:
  assumes "open_env env" "names_ok name N dir (set nums) {}" "N + 1 < 2 ^ 64" "1 \<le> N"
    and "tables_on_disk name dir nums tss" "\<And>n. env_read env (TableFileName name n) = all_read"
  shows "\<exists>db' dir' es. Init env (DBImpl_new env name) dir = Some (Status_OK, db', dir') \<and>
    db_up name db' dir' 1 [] nums tss tss es \<and> unat (next_file_number db') \<le> N + 1"
proof -
  have N: "N < 2 ^ 64" using assms(3) by simp
  obtain files next' dir' ts where f0:
    "ListFiles name (Some (map (\<lambda>(p, _). after_slash p) dir)) = (Status_OK, files)"
    "Init_scan env name files 1 0 dir = (Status_OK, next', if {} = ({} :: u64 set) then 0 else 1, dir')"
    "unat next' \<le> N" "1 \<le> next'" "names_ok name (unat next') dir' (set nums) {}"
    "tables_on_disk name dir' nums tss"
    "Init_tables env name dir' (rev files) [] = Some (Status_OK, ts)" "list_all2 table_stands ts tss"
    by (rule Init_scan_dir [OF assms(1,2,5) N assms(4) empty_subsetI one_neq_zero assms(6)])
  note f = f0(1) f0(2) [unfolded if_P [OF refl]] f0(3-8)
  let ?path = "LogFileName name next'"
  have new: "?path \<notin> fst ` set dir'"
    using names_okD [OF f(5), of ?path next' kLogFile] by auto
  then have mo: "map_of dir' ?path = None" by (simp add: map_of_eq_None_iff)
  let ?dir' = "AList.update ?path [] dir'"
  have cr: "dir_create ?path dir' = ?dir'" "the (map_of ?dir' ?path) = []"
    using mo by (simp_all add: dir_create_def AList.update_conv')
  let ?db' = "(DBImpl_new env name)\<lparr>next_file_number := next' + 1, db_tables := ts, log_number := next',
    db_log := Some (LogWriter_new (fopen_append []) 0), last_seq := 0\<rparr>"
  have run: "Init env (DBImpl_new env name) dir = Some (Status_OK, ?db', ?dir')"
    using assms(1) f(1,2,7) cr by (simp add: Init_def Let_def open_env_def DBImpl_new_def)
  have u: "unat (next' + 1) = unat next' + 1" using f(3) assms(3) by (simp add: unat_word_ariths)
  have names: "names_ok name (unat (next' + 1)) ?dir' (set nums) {next'}"
    using f(5) new unfolding names_ok_def u
    by (auto simp: AList.dom_update AList.distinct_update file_paths)
  have "tables_on_disk name ?dir' nums tss"
    by (rule tables_on_disk_cong [OF f(6)]) (simp add: AList.update_conv' file_paths)
  moreover have "writer_at (LogWriter_new (fopen_append []) 0) []"
    using writer_at_reopen [of "[]"] by simp
  moreover have "flushed (lw_file (LogWriter_new (fopen_append []) 0)) = length (content (lw_file (LogWriter_new (fopen_append []) 0)))"
    by (simp add: LogWriter_new_def fopen_append_def)
  moreover have "next' \<noteq> 0" using f(4) by auto
  ultimately have "db_up name ?db' ?dir' 1 [] nums tss tss []"
    unfolding db_up_def using f(8) names mem_rel_new [of "env_char env"]
    by (auto simp: DBImpl_new_def batches_ok_def fun_eq_iff intro!: exI [of _ "[]"])
  then show ?thesis using run u f(3) by (intro exI [of _ ?db'] exI [of _ ?dir'] exI [of _ "[]"]) simp
qed

end
