(* ===== verification/DbFlush.thy ===== *)
theory DbFlush
  imports DbOpen
begin

text \<open>
  Flushing the memtable.  The predicates say what a running database and a directory it
  has left stand for, a map from keys to lookup states; the lemmas follow \<open>FlushMemTable\<close>
  through all its failures and show that none of them changes the map.
\<close>

section \<open>What a database stands for\<close>

text \<open>Batches in the log over tables; what the caller gets to see.\<close>

definition db_view :: "op list list \<Rightarrow> entry list list \<Rightarrow> bytes \<Rightarrow> LookupState" where
  "db_view bs tss uk = layer_over (ops_view (concat bs) uk) (layers_lookup tss uk)"

definition get_result :: "bytes \<Rightarrow> LookupState \<Rightarrow> Status \<times> bytes option" where
  "get_result uk st = (case st of kValue v \<Rightarrow> (Status_OK, Some v) | _ \<Rightarrow> (NotFound uk, None))"

text \<open>
  Keys for which the seek in a table is right, whatever subset of them it holds: a key
  extends another only by a byte above the two type bytes.
\<close>

definition prefix_safe :: "bytes set \<Rightarrow> bool" where
  "prefix_safe KS \<longleftrightarrow> (\<forall>a \<in> KS. \<forall>b \<in> KS. strict_prefix a b \<longrightarrow> 1 < b ! length a)"

definition keys_within :: "bytes set \<Rightarrow> (bytes \<Rightarrow> LookupState) \<Rightarrow> bool" where
  "keys_within KS f \<longleftrightarrow> (\<forall>uk. f uk \<noteq> kNotFoundState \<longrightarrow> uk \<in> KS)"

definition reads_ok :: "bytes set \<Rightarrow> DBImpl \<Rightarrow> (bytes \<Rightarrow> LookupState) \<Rightarrow> bool" where
  "reads_ok KS db f \<longleftrightarrow> (\<forall>uk \<in> KS. DBImpl_Get uk db = Some (get_result uk (f uk)))"

text \<open>
  A running database: file numbers are below \<open>N\<close>, sequence numbers below \<open>c\<close>; the tables on
  disk may be more than the mounted ones, but they tell the same.
\<close>

definition db_holds ::
  "bytes set \<Rightarrow> bytes \<Rightarrow> nat \<Rightarrow> nat \<Rightarrow> DBImpl \<Rightarrow> Dir \<Rightarrow> (bytes \<Rightarrow> LookupState) \<Rightarrow> bool" where
  "db_holds KS name N c db dir f \<longleftrightarrow> keys_within KS f \<and>
     (\<exists>n bs nums disk tss es. db_up name db dir n bs nums disk tss es \<and>
       f = db_view bs disk \<and> f = db_view bs tss \<and> unat (next_file_number db) \<le> N \<and> n + num_ops bs \<le> c)"

text \<open>A directory without a process: one log or none.\<close>

definition dir_holds :: "bytes set \<Rightarrow> bytes \<Rightarrow> nat \<Rightarrow> nat \<Rightarrow> Dir \<Rightarrow> (bytes \<Rightarrow> LookupState) \<Rightarrow> bool" where
  "dir_holds KS name N c dir f \<longleftrightarrow> keys_within KS f \<and>
     (\<exists>nums disk n bs logs. tables_on_disk name dir nums disk \<and> names_ok name N dir (set nums) logs \<and>
       f = db_view bs disk \<and> batches_ok bs \<and> 1 \<le> n \<and> n + num_ops bs \<le> c \<and>
       (logs = {} \<and> bs = [] \<or>
        (\<exists>l file. logs = {l} \<and> l \<noteq> 0 \<and> map_of dir (LogFileName name l) = Some file \<and>
          log_holds file (log_records n bs))))"

text \<open>What a crash of the process leaves: the directory, with a part of the open log.\<close>

definition crash_dir :: "DBImpl \<Rightarrow> Dir \<Rightarrow> Dir \<Rightarrow> bool" where
  "crash_dir db dir dir' \<longleftrightarrow>
     (case db_log db of
        None \<Rightarrow> dir' = dir
      | Some w \<Rightarrow> \<exists>file. crash_image (lw_file w) file \<and>
          dir' = AList.update (LogFileName (dbname db) (log_number db)) file dir)"

text \<open>
  The outcome of an operation: lookups answer from \<open>f\<close>, a crash leaves \<open>f\<close> on disk, and
  unless the log is gone the database goes on; after a success it is there.
\<close>

definition outcome ::
  "bytes set \<Rightarrow> bytes \<Rightarrow> nat \<Rightarrow> nat \<Rightarrow> (bytes \<Rightarrow> LookupState) \<Rightarrow> Status \<times> DBImpl \<times> Dir \<Rightarrow> bool" where
  "outcome KS name N c f r \<longleftrightarrow> (case r of (s, db, dir) \<Rightarrow>
     reads_ok KS db f \<and> (\<forall>dir'. crash_dir db dir dir' \<longrightarrow> dir_holds KS name N c dir' f) \<and>
     (db_log db \<noteq> None \<longrightarrow> db_holds KS name N c db dir f) \<and> (ok s \<longrightarrow> db_log db \<noteq> None))"

section \<open>Lookups\<close>

lemma db_view_flushed: "db_view bs (es # tss) = db_view bs tss \<and> db_view [] (es # tss) = db_view bs tss"
  if "entries_lookup es = ops_view (concat bs)"
  using that by (auto simp: fun_eq_iff db_view_def layer_over_def)

lemma layers_keys:
  assumes "keys_within KS (db_view bs tss)" "es \<in> set tss" "e \<in> set es"
    and "\<And>uk. ops_view (concat bs) uk \<noteq> kNotFoundState \<Longrightarrow> uk \<in> KS"
  shows "entry_user e \<in> KS"
proof (cases "ops_view (concat bs) (entry_user e) = kNotFoundState")
  case True
  have "layers_lookup tss (entry_user e) \<noteq> kNotFoundState"
    unfolding layers_lookup_concat entries_lookup_NotFound using assms(2,3) by auto
  then show ?thesis using assms(1) True by (simp add: keys_within_def db_view_def)
qed (use assms(4) in simp)

lemma view_keys: "keys_within KS (db_view bs tss) \<Longrightarrow> ops_view (concat bs) uk \<noteq> kNotFoundState \<Longrightarrow> uk \<in> KS"
  unfolding keys_within_def db_view_def by (metis layer_over_def)

lemma seekable_within:
  assumes "prefix_safe KS" "uk \<in> KS" "entries_ok es" "\<And>e. e \<in> set es \<Longrightarrow> entry_user e \<in> KS"
  shows "seekable es uk"
  using assms by (intro seekable_if_printable) (auto simp: entries_ok_def prefix_safe_def)

lemma Get_tables_layers:
  assumes "list_all2 table_stands ts tss" "\<And>es. es \<in> set tss \<Longrightarrow> seekable es uk"
  shows "Get_tables uk ts = Some (get_result uk (layers_lookup tss uk))"
  using assms
proof (induction ts tss rule: list_all2_induct)
  case Nil
  then show ?case by (simp add: get_result_def)
next
  case (Cons t ts es tss)
  have "Table_Get uk t = Some (entries_lookup es uk)"
    using table_layer.get_lookup [OF Cons.hyps(1)] Cons.prems by simp
  then show ?case
    using Cons.IH Cons.prems by (cases "entries_lookup es uk") (simp_all add: get_result_def)
qed

lemma DBImpl_Get_layers:
  assumes "mem_rel (db_mem db) es" "entries_lookup es = ops_view (concat bs)"
    and "list_all2 table_stands (db_tables db) tss"
    and "keys_within KS (db_view bs tss)" "prefix_safe KS"
  shows "reads_ok KS db (db_view bs tss)"
  unfolding reads_ok_def
proof
  fix uk assume "uk \<in> KS"
  have "entries_ok es'" if "es' \<in> set tss" for es'
    using assms(3) that table_layer.stands_ok by (auto simp: list_all2_conv_all_nth in_set_conv_nth)
  then have "seekable es' uk" if "es' \<in> set tss" for es'
    using seekable_within [OF assms(5) \<open>uk \<in> KS\<close>] layers_keys [OF assms(4) that] view_keys [OF assms(4)] that by blast
  from Get_tables_layers [OF assms(3) this]
  have t: "Get_tables uk (db_tables db) = Some (get_result uk (layers_lookup tss uk))" .
  have m: "MemTable_Get uk (db_mem db) = Some (ops_view (concat bs) uk)"
    using mem_layer.get_lookup [OF assms(1)] assms(2) by simp
  show "DBImpl_Get uk db = Some (get_result uk (db_view bs tss uk))"
    using m t by (cases "ops_view (concat bs) uk") (simp_all add: DBImpl_Get_def db_view_def get_result_def)
qed

section \<open>A crash and what it leaves\<close>

lemma db_up_reads:
  assumes "db_up name db dir n bs nums disk tss es" "keys_within KS (db_view bs tss)" "prefix_safe KS"
  shows "reads_ok KS db (db_view bs tss)"
  using DBImpl_Get_layers [OF _ _ _ assms(2,3)] assms(1) unfolding db_up_def by blast

lemma db_holds_reads: "db_holds KS name N c db dir f \<Longrightarrow> prefix_safe KS \<Longrightarrow> reads_ok KS db f"
  unfolding db_holds_def using db_up_reads by metis

lemma names_ok_log: "names_ok name N dir tabs logs \<Longrightarrow> l \<in> logs \<Longrightarrow> LogFileName name l \<in> fst ` set dir"
  by (simp add: names_ok_def)

lemma log_name_neq: "LogFileName name l \<noteq> TableFileName name n"
  by (simp add: file_paths)

lemma db_up_crash:
  assumes up: "db_up name db dir n bs nums disk tss es" and cr: "crash_dir db dir dir'"
    and k: "keys_within KS (db_view bs disk)" and N: "unat (next_file_number db) \<le> N" "n + num_ops bs \<le> c"
  shows "dir_holds KS name N c dir' (db_view bs disk)"
proof -
  obtain w fs where w: "db_log db = Some w" "writer_at w fs" "assemble None fs = log_records n bs"
    "flushed (lw_file w) = length (content (lw_file w))" using up by (auto simp: db_up_def)
  note up = up [unfolded db_up_def]
  let ?p = "LogFileName name (log_number db)"
  have c: "content (lw_file w) = layout 0 fs" "fits 0 fs" using w(2) by (simp_all add: writer_at_def)
  have dir': "dir' = AList.update ?p (layout 0 fs) dir"
    using cr w(1,4) crash_image_flushed [OF w(4)] c(1) up by (auto simp: crash_dir_def)
  have "names_ok name N dir (set nums) {log_number db}" using up names_ok_mono N(1) by blast
  then have "names_ok name N dir' (set nums) {log_number db}"
    unfolding dir' by (rule names_ok_update) (use up names_ok_log in blast)
  moreover have "tables_on_disk name dir' nums disk"
    unfolding dir' by (rule tables_on_disk_cong [of _ dir]) (use up in \<open>simp_all add: AList.update_conv' log_name_neq [symmetric]\<close>)
  moreover have "map_of dir' ?p = Some (layout 0 fs)" by (simp add: dir' AList.update_conv')
  moreover have "log_holds (layout 0 fs) (log_records n bs)" using log_holds_layout [OF c(2)] w(3) by simp
  ultimately show ?thesis
    unfolding dir_holds_def using k N(2) up
    by (intro conjI exI [of _ nums] exI [of _ disk] exI [of _ n] exI [of _ bs] exI [of _ "{log_number db}"]) auto
qed

lemma db_holds_outcome:
  assumes "db_holds KS name N c db dir f" "prefix_safe KS"
  shows "outcome KS name N c f (s, db, dir)"
proof -
  have "\<forall>dir'. crash_dir db dir dir' \<longrightarrow> dir_holds KS name N c dir' f"
    using assms(1) db_up_crash unfolding db_holds_def by blast
  moreover have "db_log db \<noteq> None" using assms(1) by (auto simp: db_holds_def db_up_def)
  ultimately show ?thesis using assms db_holds_reads by (simp add: outcome_def)
qed

text \<open>Opening a directory: the map it stands for comes back.\<close>

lemma Init_holds:
  assumes "good_env env" "dir_holds KS name N c dir f" "N + 1 < 2 ^ 64" "1 \<le> N" "c \<le> 2 ^ 56"
  shows "\<exists>db dir'. Init env (DBImpl_new env name) dir = Some (Status_OK, db, dir') \<and>
    db_holds KS name (N + 1) c db dir' f"
proof -
  from assms(2) obtain nums disk n bs logs where d: "tables_on_disk name dir nums disk"
    "names_ok name N dir (set nums) logs" "f = db_view bs disk" "batches_ok bs" "1 \<le> n" "n + num_ops bs \<le> c"
    and k: "keys_within KS f"
    and l: "logs = {} \<and> bs = [] \<or> (\<exists>l file. logs = {l} \<and> l \<noteq> 0 \<and> map_of dir (LogFileName name l) = Some file \<and>
      log_holds file (log_records n bs))"
    unfolding dir_holds_def by blast
  have oe: "open_env env" and rds: "env_read env p = all_read" for p using assms(1) by (simp_all add: good_env_def)
  show ?thesis
  proof (cases "logs = {}")
    case True
    then have e: "names_ok name N dir (set nums) {}" "bs = []" using d(2) l by simp_all
    obtain db dir' es where "Init env (DBImpl_new env name) dir = Some (Status_OK, db, dir')"
      "db_up name db dir' 1 [] nums disk disk es" "unat (next_file_number db) \<le> N + 1"
      using Init_without_log [OF oe e(1) assms(3,4) d(1) rds] by blast
    moreover have "1 + num_ops [] \<le> c" using d(5,6) by simp
    ultimately show ?thesis unfolding db_holds_def using k d(3) e(2) by blast
  next
    case False
    then obtain l b where f: "logs = {l}" "l \<noteq> 0" "map_of dir (LogFileName name l) = Some b"
      "log_holds b (log_records n bs)" using l by blast
    have lim: "N < 2 ^ 64" "n + num_ops bs \<le> 2 ^ 56" using assms(3,5) d(6) by simp_all
    obtain db dir' n' es where "Init env (DBImpl_new env name) dir = Some (Status_OK, db, dir')"
      "db_up name db dir' n' bs nums disk disk es" "unat (next_file_number db) \<le> N" "n' \<le> n"
      using Init_with_log [OF oe d(2) [unfolded f(1)] f(2) lim(1) assms(4) d(1) f(3) f(4) [folded rds [of "LogFileName name l"]] d(4,5) lim(2) rds] by blast
    moreover have "n' + num_ops bs \<le> c" "unat (next_file_number db) \<le> N + 1"
      using calculation(3,4) d(6) by simp_all
    ultimately show ?thesis unfolding db_holds_def using k d(3) by blast
  qed
qed

section \<open>Files that come and go\<close>

lemma names_okI:
  assumes "distinct (map fst dir)"
    and "\<And>p n t. p \<in> fst ` set dir \<Longrightarrow> ParseFileName p = Some (n, t) \<Longrightarrow>
      p = file_path name n t \<and> unat n < N \<and> (t = kTableFile \<longrightarrow> n \<in> tabs) \<and> (t = kLogFile \<longrightarrow> n \<in> logs)"
    and "\<And>n. n \<in> tabs \<Longrightarrow> file_path name n kTableFile \<in> fst ` set dir"
    and "\<And>n. n \<in> logs \<Longrightarrow> file_path name n kLogFile \<in> fst ` set dir"
  shows "names_ok name N dir tabs logs"
  using assms unfolding names_ok_def file_paths by blast

lemma names_ok_files:
  assumes "names_ok name N dir tabs logs"
  shows "n \<in> tabs \<Longrightarrow> file_path name n kTableFile \<in> fst ` set dir"
    and "n \<in> logs \<Longrightarrow> file_path name n kLogFile \<in> fst ` set dir"
    and "distinct (map fst dir)"
  using assms unfolding names_ok_def file_paths by blast+

lemma names_ok_create:
  assumes "names_ok name N dir tabs logs" "unat n < M" "N \<le> M"
  shows "names_ok name M (AList.update (file_path name n t) b dir)
    (if t = kTableFile then insert n tabs else tabs) (if t = kLogFile then insert n logs else logs)"
proof -
  have keys: "fst ` set (AList.update (file_path name n t) b dir) = insert (file_path name n t) (fst ` set dir)"
    by (simp add: AList.dom_update)
  show ?thesis
  proof (rule names_okI, unfold keys)
    fix p m u assume p: "p \<in> insert (file_path name n t) (fst ` set dir)" "ParseFileName p = Some (m, u)"
    show "p = file_path name m u \<and> unat m < M \<and>
      (u = kTableFile \<longrightarrow> m \<in> (if t = kTableFile then insert n tabs else tabs)) \<and>
      (u = kLogFile \<longrightarrow> m \<in> (if t = kLogFile then insert n logs else logs))"
    proof (cases "p = file_path name n t")
      case True
      then show ?thesis using p(2) assms(2) by auto
    next
      case False
      then show ?thesis using names_okD [OF assms(1) _ p(2)] p(1) assms(3) by auto
    qed
  next
    fix m assume "m \<in> (if t = kTableFile then insert n tabs else tabs)"
    then show "file_path name m kTableFile \<in> insert (file_path name n t) (fst ` set dir)"
      using names_ok_files(1) [OF assms(1), of m] by (cases t) auto
  next
    fix m assume "m \<in> (if t = kLogFile then insert n logs else logs)"
    then show "file_path name m kLogFile \<in> insert (file_path name n t) (fst ` set dir)"
      using names_ok_files(2) [OF assms(1), of m] by (cases t) auto
  qed (simp add: AList.distinct_update names_ok_files(3) [OF assms(1)])
qed

lemma names_ok_delete:
  assumes "names_ok name N dir tabs logs"
  shows "names_ok name N (AList.delete (file_path name n t) dir)
    (if t = kTableFile then tabs - {n} else tabs) (if t = kLogFile then logs - {n} else logs)"
proof (rule names_okI, unfold keys_delete)
  fix p m u assume p: "p \<in> fst ` set dir - {file_path name n t}" "ParseFileName p = Some (m, u)"
  then have "p \<in> fst ` set dir" by simp
  from names_okD [OF assms this p(2)] p(1) show "p = file_path name m u \<and> unat m < N \<and>
      (u = kTableFile \<longrightarrow> m \<in> (if t = kTableFile then tabs - {n} else tabs)) \<and>
      (u = kLogFile \<longrightarrow> m \<in> (if t = kLogFile then logs - {n} else logs))"
    by (cases u; cases t) auto
next
  fix m assume "m \<in> (if t = kTableFile then tabs - {n} else tabs)"
  then show "file_path name m kTableFile \<in> fst ` set dir - {file_path name n t}"
    using names_ok_files(1) [OF assms, of m] by (cases t) auto
next
  fix m assume "m \<in> (if t = kLogFile then logs - {n} else logs)"
  then show "file_path name m kLogFile \<in> fst ` set dir - {file_path name n t}"
    using names_ok_files(2) [OF assms, of m] by (cases t) auto
qed (simp add: AList.distinct_delete names_ok_files(3) [OF assms])

lemmas names_ok_log_file = names_ok_create [where t = kLogFile, simplified]
  and names_ok_table_file = names_ok_create [where t = kTableFile, simplified]
  and names_ok_temp_file = names_ok_create [where t = kTempFile, simplified]
  and names_ok_delete_log = names_ok_delete [where t = kLogFile, simplified]
  and names_ok_delete_temp = names_ok_delete [where t = kTempFile, simplified]

lemma tables_on_disk_update:
  "tables_on_disk name dir nums tss \<Longrightarrow> (\<And>n. p \<noteq> TableFileName name n) \<Longrightarrow>
   tables_on_disk name (AList.update p b dir) nums tss"
  by (erule tables_on_disk_cong) (metis AList.update_conv' fun_upd_other)

lemma tables_on_disk_delete:
  "tables_on_disk name dir nums tss \<Longrightarrow> (\<And>n. p \<noteq> TableFileName name n) \<Longrightarrow>
   tables_on_disk name (AList.delete p dir) nums tss"
  by (erule tables_on_disk_cong) (metis AList.delete_conv' fun_upd_other)

text \<open>A new table under a number not used yet goes in front.\<close>

lemma names_ok_less:
  assumes "names_ok name (unat t) dir (set nums) logs" "n \<in> set nums"
  shows "n < t"
  using names_okD [OF assms(1) names_ok_files(1) [OF assms] ParseFileName_file_path] by (simp only: word_less_nat_alt)

lemma tables_on_disk_new:
  assumes "tables_on_disk name dir nums tss" "table_file b es" and less: "\<And>n. n \<in> set nums \<Longrightarrow> n < t"
  shows "tables_on_disk name (AList.update (TableFileName name t) b dir) (t # nums) (es # tss)"
proof -
  have neq: "TableFileName name n \<noteq> TableFileName name t" if "n \<in> set nums" for n
    using less [OF that] by (simp add: file_paths)
  have "tables_on_disk name (AList.update (TableFileName name t) b dir) nums tss"
  proof (rule tables_on_disk_cong [OF assms(1)])
    fix n assume "n \<in> set nums"
    from neq [OF this] show "map_of (AList.update (TableFileName name t) b dir) (TableFileName name n) =
        map_of dir (TableFileName name n)"
      unfolding AList.update_conv' by (rule fun_upd_other)
  qed
  moreover have "map_of (AList.update (TableFileName name t) b dir) (TableFileName name t) = Some b"
    by (simp add: AList.update_conv')
  ultimately show ?thesis using assms(2) less by (simp add: tables_on_disk_def)
qed

section \<open>Building the table\<close>

lemma mem_entry_sel [simp]: "fst (mem_entry k) = mk_ikey k" "snd (mem_entry k) = mk_value k"
  by (simp_all add: mem_entry_def)

lemma Flush_loop_add_all:
  "iter_at MemTable_Cmp (mt_table m) it ks \<Longrightarrow> Flush_loop os m it tb = Some (add_all os (map mem_entry ks) tb)"
proof (induction ks arbitrary: it tb)
  case Nil
  then show ?case using iter_at_Valid [OF Nil] by (subst Flush_loop.simps) simp
next
  case (Cons k ks)
  show ?case
    using iter_at_Valid [OF Cons.prems] iter_at_key [OF Cons.prems] Cons.IH [OF iter_at_Next [OF Cons.prems]]
    by (subst Flush_loop.simps)
      (simp add: MemIter_Next_def MemIter_ikey_def MemIter_value_def split: prod.split)
qed

lemma MemIter_first:
  assumes "mem_rel m es"
  shows "Flush_loop os m (MemIter_SeekToFirst m) tb = Some (add_all os es tb)"
    and "Iter_Valid (MemIter_SeekToFirst m) \<longleftrightarrow> es \<noteq> []"
proof -
  obtain ks where ks: "sl_rel MemTable_Cmp (mt_table m) ks" "es = map mem_entry ks"
    using assms by (auto simp: mem_rel_def)
  note at = iter_at_SeekToFirst [OF ks(1), folded MemIter_SeekToFirst_def]
  show "Flush_loop os m (MemIter_SeekToFirst m) tb = Some (add_all os es tb)"
    using Flush_loop_add_all [OF at] ks(2) by simp
  show "Iter_Valid (MemIter_SeekToFirst m) \<longleftrightarrow> es \<noteq> []" using iter_at_Valid [OF at] ks(2) by simp
qed

lemma table_size_usage: "table_size es \<le> mem_usage es"
proof -
  have "table_size es \<le> (\<Sum>e\<leftarrow>es. sizeof_Node + length (fst e) + length (snd e))"
    by (induction es) (simp_all add: sizeof_Node_def kMaxHeight_def)
  then show ?thesis by (simp add: mem_usage_def)
qed

lemma mem_table_fits:
  "mem_rel m es \<Longrightarrow> ApproximateMemoryUsage m + 64 < 2 ^ 32 \<Longrightarrow> table_fits es"
  using mem_rel_usage [of m es] table_size_usage [of es] by (simp add: table_fits_def)

text \<open>A table reported finished is whole on disk if flushes work.\<close>

lemma build_table_file:
  assumes "build_table os es fopen_new = (s, tb)" "ok s" "flushes os" "entries_ok es" "table_fits es"
  shows "table_file (TableBuilder_destroy os tb) es"
proof -
  obtain css where c: "content (tb_file tb) = table_bytes css" "concat css = es" "[] \<notin> set css"
    using build_table_cases [OF assms(1)] assms(2) by (auto simp: fopen_new_def)
  have "TableBuilder_destroy os tb = content (tb_file tb)"
    using fclose_cases(4) [OF assms(3)] fflush_cases(1) by (simp add: TableBuilder_destroy_def case_prod_unfold Let_def)
  then show ?thesis using c assms(4,5) by (auto simp: table_file_def)
qed

section \<open>Switching the log\<close>

text \<open>Without a log, a database still answers, and the directory is all there is.\<close>

lemma outcome_no_log:
  assumes "reads_ok KS db f" "dir_holds KS name N c dir f" "db_log db = None" "\<not> ok s"
  shows "outcome KS name N c f (s, db, dir)"
  using assms by (simp add: outcome_def crash_dir_def)

lemma reads_ok_cong:
  assumes "reads_ok KS db f" "db_mem db' = db_mem db" "db_tables db' = db_tables db"
  shows "reads_ok KS db' f"
proof -
  have "DBImpl_Get uk db' = DBImpl_Get uk db" for uk unfolding DBImpl_Get_def assms(2,3) by (rule refl)
  then show ?thesis using assms(1) by (simp add: reads_ok_def)
qed

lemma fclose_flushed:
  "flushed f = length (content f) \<Longrightarrow> snd (fclose os (snd (fflush os f))) = content f"
  by (metis fclose_cases(1) fflush_cases(1-3))

lemma dir_holds_no_log:
  assumes "tables_on_disk name dir nums disk" "names_ok name N dir (set nums) {}" "1 \<le> c"
    and "f = db_view [] disk" "keys_within KS f"
  shows "dir_holds KS name N c dir f"
  unfolding dir_holds_def using assms
  by (intro conjI exI [of _ nums] exI [of _ disk] exI [of _ 1] exI [of _ "[]"] exI [of _ "{}"]) (simp_all add: batches_ok_def)

lemma Flush_switch_log_outcome:
  assumes up: "db_up name db dir n bs nums disk tss es"
    and new: "names_ok name (unat new) dir (set nums) {log_number db}" "unat (next_file_number db) = unat new + 1" "new \<noteq> 0"
    and f: "f = db_view bs disk" "f = db_view bs tss" "f = db_view [] disk" "f = db_view [] tss"
    and k: "keys_within KS f" "prefix_safe KS" and N: "unat (next_file_number db) \<le> N" "n + num_ops bs \<le> c"
  shows "\<exists>r. Flush_switch_log env new db dir = Some r \<and> outcome KS name N c f r \<and>
    ((\<forall>p. flushes (env_os env p) \<and> env_open env p \<and> env_remove env p) \<longrightarrow>
      ok (fst r) \<and> ApproximateMemoryUsage (db_mem (fst (snd r))) = sizeof_Node) \<and>
    ((\<forall>p. \<not> env_remove env p) \<longrightarrow> \<not> ok (fst r) \<and> db_log (fst (snd r)) = None)"
proof -
  obtain w fs where w: "db_log db = Some w" "writer_at w fs" "flushed (lw_file w) = length (content (lw_file w))"
    using up by (auto simp: db_up_def)
  note u = up [unfolded db_up_def]
  have name: "dbname db = name" using u by blast
  let ?old = "LogFileName name (log_number db)"
  let ?os = "env_os env ?old"
  let ?fl = "snd (fflush ?os (lw_file w))"
  let ?dir1 = "AList.update ?old (content (lw_file w)) dir"
  have bytes: "snd (fclose ?os ?fl) = content (lw_file w)" using fclose_flushed [OF w(3)] .
  have "crash_dir db dir ?dir1"
    using crash_image_flushed [OF w(3)] w(1) name by (simp add: crash_dir_def)
  then have d1: "dir_holds KS name N c ?dir1 f" using db_up_crash [OF up] k(1) N unfolding f(1) by blast
  have reads: "reads_ok KS db f" using db_up_reads [OF up] k f(2) by simp
  have in_dir: "?old \<in> fst ` set dir" using names_ok_files(2) [OF new(1)] by (simp add: file_paths)
  have n1: "names_ok name (unat new) ?dir1 (set nums) {log_number db}" using names_ok_update [OF new(1) in_dir] .
  have not_table: "LogFileName name l \<noteq> TableFileName name m" for l m by (simp add: file_paths)
  have t1: "tables_on_disk name ?dir1 nums disk" using tables_on_disk_update not_table u by blast
  let ?dir2 = "AList.delete ?old ?dir1"
  have n2: "names_ok name (unat new) ?dir2 (set nums) {}"
    using names_ok_delete_log [OF n1, of "log_number db"] by (simp add: file_paths)
  have t2: "tables_on_disk name ?dir2 nums disk" using tables_on_disk_delete [OF t1 not_table] .
  have c1: "1 \<le> c" using u N(2) by simp
  have "unat new \<le> N" using new(2) N(1) by simp
  then have d2: "dir_holds KS name N c ?dir2 f"
    using dir_holds_no_log [OF t2 names_ok_mono [OF n2] c1 f(3) k(1)] by blast
  let ?new = "LogFileName name new"
  let ?dir3 = "AList.update ?new [] ?dir2"
  have absent: "map_of ?dir2 ?new = None"
    using names_okD [OF n2, of ?new new kLogFile] by (auto simp: map_of_eq_None_iff)
  then have cr: "dir_create ?new ?dir2 = ?dir3" "the (map_of ?dir3 ?new) = []"
    by (simp_all add: dir_create_def AList.update_conv')
  let ?db1 = "db\<lparr>db_log := None\<rparr>" and ?db2 = "db\<lparr>db_log := None, log_number := new\<rparr>"
  let ?db3 = "db\<lparr>db_log := Some (LogWriter_new (fopen_append []) 0), log_number := new, db_mem := MemTable_new (env_char env)\<rparr>"
  have n3: "names_ok name (unat (next_file_number db)) ?dir3 (set nums) {new}"
    using names_ok_log_file [OF n2, of new "unat (next_file_number db)" "[]"] new(2) by (simp add: file_paths)
  have t3: "tables_on_disk name ?dir3 nums disk" using tables_on_disk_update [OF t2 not_table] .
  have w3: "writer_at (LogWriter_new (fopen_append []) 0) []"
    "flushed (lw_file (LogWriter_new (fopen_append []) 0)) = length (content (lw_file (LogWriter_new (fopen_append []) 0)))"
    using writer_at_reopen [of "[]"] by (simp_all add: LogWriter_new_def fopen_append_def)
  have "db_up name ?db3 ?dir3 (n + num_ops bs) [] nums disk tss []"
    unfolding db_up_def using u n3 t3 w3 new(3) mem_rel_new [of "env_char env"]
    by (auto simp: batches_ok_def fun_eq_iff intro!: exI [of _ "[]"])
  then have h3: "db_holds KS name N c ?db3 ?dir3 f"
    unfolding db_holds_def using k(1) f(3,4) N by fastforce
  have o1: "outcome KS name N c f (IOError m, ?db1, ?dir1)" for m
    using outcome_no_log [OF reads_ok_cong [OF reads] d1] by simp
  have o2: "outcome KS name N c f (IOError m, ?db2, ?dir2)" for m
    using outcome_no_log [OF reads_ok_cong [OF reads] d2] by simp
  have o3: "outcome KS name N c f (Status_OK, ?db3, ?dir3)" using db_holds_outcome [OF h3 k(2)] .
  obtain closed where cl: "fclose ?os ?fl = (closed, content (lw_file w))" using bytes by (metis prod.collapse)
  have flc: "flushes ?os \<Longrightarrow> closed" using fclose_cases(4) [of ?os ?fl] cl by simp
  have rem: "can_remove env ?dir1 ?old \<longleftrightarrow> env_remove env ?old" by (simp add: can_remove_def AList.update_conv')
  have run: "Flush_switch_log env new db dir = Some
     (if \<not> closed then (IOError (str ''close old log failed: '' @ ?old), ?db1, ?dir1)
      else if \<not> env_remove env ?old then (IOError (str ''remove old log failed: '' @ ?old), ?db1, ?dir1)
      else if \<not> env_open env ?new then (IOError (str ''create new log failed: '' @ ?new), ?db2, ?dir2)
      else (Status_OK, ?db3, ?dir3))"
    unfolding Flush_switch_log_def using w(1) name cl rem cr by (simp add: Let_def case_prod_unfold)
  show ?thesis unfolding run using o1 o2 o3 flc by auto
qed

section \<open>The flush\<close>

lemma FlushMemTable_steps:
  fixes env :: Env and dir :: Dir
  assumes "mem_rel (db_mem db) es" "es \<noteq> []"
  defines "t \<equiv> next_file_number db" and "tmp \<equiv> TempFileName (dbname db) (next_file_number db)"
    and "table \<equiv> TableFileName (dbname db) (next_file_number db)"
    and "db1 \<equiv> db\<lparr>next_file_number := next_file_number db + 2\<rparr>"
  assumes "build_table (env_os env tmp) es fopen_new = (s, tb)"
  defines "dir1 \<equiv> AList.update tmp (TableBuilder_destroy (env_os env tmp) tb) dir"
  shows "FlushMemTable env db dir =
      (if \<not> env_open env tmp then Some (IOError (str ''create tmp table failed: '' @ tmp), db1, dir)
       else if \<not> ok s then Some (s, db1, dir1)
       else if \<not> env_rename env tmp then Some (IOError (str ''rename tmp table failed: '' @ tmp), db1, dir1)
       else
         let dir2 = dir_rename tmp table dir1 in
         case Table_Open (env_read env table) table (fopen_rb env dir2 table) of
           None \<Rightarrow> None
         | Some (os, None) \<Rightarrow> Some (os, db1, dir2)
         | Some (os, Some tbl) \<Rightarrow>
             if \<not> ok os then Some (os, db1, dir2)
             else Flush_switch_log env (t + 1) (db1\<lparr>db_tables := tbl # db_tables db1\<rparr>) dir2)"
  using MemIter_first [OF assms(1)] assms(2,7)
  unfolding t_def tmp_def table_def db1_def dir1_def
  by (auto simp: FlushMemTable_def build_table_def Let_def split: prod.splits if_splits)

text \<open>
  The reads of a file work, or none does: then its table cannot be opened.
\<close>

definition reads_settled :: "Env \<Rightarrow> bool" where
  "reads_settled env \<longleftrightarrow> (\<forall>p. env_read env p = all_read \<or> (\<forall>pos n. 0 < n \<longrightarrow> env_read env p pos n < n))"

lemma Table_Open_short:
  assumes "\<forall>pos n. 0 < n \<longrightarrow> rd pos n < n"
  shows "\<exists>s. Table_Open rd fname (Some b) = Some (s, None) \<and> \<not> ok s"
proof -
  have "0 < kEncodedLength" by (simp add: kEncodedLength_def)
  then have "rd (length b - kEncodedLength) kEncodedLength < kEncodedLength" using assms by blast
  then have "length (fread rd kEncodedLength (length b - kEncodedLength) b) \<noteq> kEncodedLength"
    by (simp add: fread_def)
  then show ?thesis by (simp add: Table_Open_def Let_def)
qed

text \<open>The files of a flush: under its temporary name the table is not seen, under its own it is.\<close>

lemma flush_names:
  assumes "db_up name db dir n bs nums disk tss es0"
  shows "names_ok name (unat (next_file_number db) + 2) dir (set nums) {log_number db}"
  by (rule names_ok_mono [of _ "unat (next_file_number db)"]) (use assms in \<open>auto simp: db_up_def\<close>)

lemma flush_files:
  fixes img :: bytes
  assumes up: "db_up name db dir n bs nums disk tss es0"
  defines "t \<equiv> next_file_number db" and "l \<equiv> log_number db"
  defines "dir1 \<equiv> AList.update (TempFileName name t) img dir"
  defines "dir2 \<equiv> AList.update (TableFileName name t) img (AList.delete (TempFileName name t) dir1)"
  shows "names_ok name (unat t + 2) dir1 (set nums) {l}"
    and "names_ok name (unat t + 1) dir2 (set (t # nums)) {l}"
    and "tables_on_disk name dir1 nums disk" "table_file img es \<Longrightarrow> tables_on_disk name dir2 (t # nums) (es # disk)"
    and "dir_rename (TempFileName name t) (TableFileName name t) dir1 = dir2"
proof -
  have n0: "names_ok name (unat t) dir (set nums) {l}" and d0: "tables_on_disk name dir nums disk"
    using up unfolding db_up_def t_def l_def by blast+
  have n1: "names_ok name (unat t + 1) dir1 (set nums) {l}"
    using names_ok_temp_file [OF n0, of t "unat t + 1"] by (simp add: file_paths dir1_def)
  have nd: "names_ok name (unat t + 1) (AList.delete (TempFileName name t) dir1) (set nums) {l}"
    using names_ok_delete_temp [OF n1, of t] by (simp add: file_paths)
  show "names_ok name (unat t + 2) dir1 (set nums) {l}" by (rule names_ok_mono [OF n1]) simp
  show "names_ok name (unat t + 1) dir2 (set (t # nums)) {l}"
    using names_ok_table_file [OF nd, of t "unat t + 1"] by (simp add: file_paths dir2_def)
  have tmp_not: "TempFileName name t \<noteq> TableFileName name m" for m by (simp add: file_paths)
  show d1: "tables_on_disk name dir1 nums disk" unfolding dir1_def using tables_on_disk_update tmp_not d0 by blast
  show "tables_on_disk name dir2 (t # nums) (es # disk)" if tf: "table_file img es"
    unfolding dir2_def using tables_on_disk_new [OF tables_on_disk_delete [OF d1 tmp_not] tf] names_ok_less [OF n0] by blast
  show "dir_rename (TempFileName name t) (TableFileName name t) dir1 = dir2"
    by (simp add: dir_rename_def AList.update_conv' dir1_def dir2_def)
qed

text \<open>Once the file numbers are taken, any directory that tells the same is as good.\<close>

lemma numbers_taken_outcome:
  assumes up: "db_up name db dir n bs nums disk tss es"
    and f: "f = db_view bs tss" "db_view bs disk' = f"
    and k: "keys_within KS f" "prefix_safe KS"
    and N: "unat (next_file_number db) + 2 \<le> N" "N < 2 ^ 64" "n + num_ops bs \<le> c"
    and d: "names_ok name (unat (next_file_number db) + 2) dir' (set nums') {log_number db}" "tables_on_disk name dir' nums' disk'"
  shows "outcome KS name N c f (s, db\<lparr>next_file_number := next_file_number db + 2\<rparr>, dir')"
proof (rule db_holds_outcome [OF _ k(2)])
  have t2: "unat (next_file_number db + 2) = unat (next_file_number db) + 2" using N(1,2) by (simp add: unat_word_ariths)
  have "db_up name (db\<lparr>next_file_number := next_file_number db + 2\<rparr>) dir' n bs nums' disk' tss es"
    using up d t2 by (simp add: db_up_def)
  then show "db_holds KS name N c (db\<lparr>next_file_number := next_file_number db + 2\<rparr>) dir' f"
    unfolding db_holds_def using k(1) f N(1,3) t2 by fastforce
qed

text \<open>The table is in place and open: from here on the log is redundant.\<close>

lemma table_in_place:
  assumes up: "db_up name db dir n bs nums disk tss es"
    and f: "f = db_view bs disk" "f = db_view bs tss"
    and k: "keys_within KS f" "prefix_safe KS"
    and N: "unat (next_file_number db) + 2 \<le> N" "N < 2 ^ 64" "n + num_ops bs \<le> c"
    and tf: "table_file img es"
  defines "t \<equiv> next_file_number db"
  defines "dir2 \<equiv> AList.update (TableFileName name t) img (AList.delete (TempFileName name t) (AList.update (TempFileName name t) img dir))"
  obtains tbl r where "Table_Open all_read (TableFileName name t) (Some img) = Some (Status_OK, Some tbl)"
    "Flush_switch_log env (t + 1) (db\<lparr>next_file_number := t + 2, db_tables := tbl # db_tables db\<rparr>) dir2 = Some r"
    "outcome KS name N c f r"
    "(\<forall>p. flushes (env_os env p) \<and> env_open env p \<and> env_remove env p) \<longrightarrow>
      ok (fst r) \<and> ApproximateMemoryUsage (db_mem (fst (snd r))) = sizeof_Node"
    "(\<forall>p. \<not> env_remove env p) \<longrightarrow> \<not> ok (fst r) \<and> db_log (fst (snd r)) = None"
proof -
  note u = up [unfolded db_up_def]
  have t2: "unat (t + 2) = unat t + 2" "unat (t + 1) = unat t + 1"
    using N(1,2) by (simp_all add: t_def unat_word_ariths)
  note files = flush_files [OF up, where img = img, folded t_def, folded dir2_def]
  obtain tbl where tbl: "Table_Open all_read (TableFileName name t) (Some img) = Some (Status_OK, Some tbl)" "table_stands tbl es"
    using Table_Open_file [OF tf] by blast
  let ?db2 = "db\<lparr>next_file_number := t + 2, db_tables := tbl # db_tables db\<rparr>"
  have "names_ok name (unat (next_file_number ?db2)) dir2 (set (t # nums)) {log_number db}"
    using names_ok_mono [OF files(2), of "unat (t + 2)"] t2 by simp
  then have up2: "db_up name ?db2 dir2 n bs (t # nums) (es # disk) (es # tss) es"
    using u files(4) [OF tf] tbl(2) by (simp add: db_up_def)
  have new: "names_ok name (unat (t + 1)) dir2 (set (t # nums)) {log_number ?db2}" using files(2) t2 by simp
  have nx: "unat (next_file_number ?db2) = unat (t + 1) + 1" "unat (next_file_number ?db2) \<le> N"
    using t2 N(1) by (simp_all add: t_def)
  have nz: "t + 1 \<noteq> 0" using t2(2) by (metis Suc_eq_plus1 nat.distinct(1) unsigned_0)
  have es: "entries_lookup es = ops_view (concat bs)" using u by blast
  have fv: "f = db_view bs (es # disk)" "f = db_view bs (es # tss)" "f = db_view [] (es # disk)" "f = db_view [] (es # tss)"
    using f db_view_flushed [OF es, of disk] db_view_flushed [OF es, of tss] by simp_all
  from Flush_switch_log_outcome [OF up2 new nx(1) nz fv k nx(2) N(3), of env] that [OF tbl(1)] show ?thesis by blast
qed

text \<open>
  Everything but flushes of the file may fail.  Up to the renaming the table is not seen;
  after it the table and the log tell the same twice.
\<close>

lemma FlushMemTable_outcome:
  assumes up: "db_up name db dir n bs nums disk tss es"
    and f: "f = db_view bs disk" "f = db_view bs tss"
    and k: "keys_within KS f" "prefix_safe KS"
    and N: "unat (next_file_number db) + 2 \<le> N" "N < 2 ^ 64" "n + num_ops bs \<le> c"
    and fl: "\<And>p. flushes (env_os env p)" "reads_settled env" and sz: "ApproximateMemoryUsage (db_mem db) + 64 < 2 ^ 32"
  shows "\<exists>r. FlushMemTable env db dir = Some r \<and> outcome KS name N c f r \<and>
    (good_env env \<and> (\<forall>p. env_rename env p \<and> never_short (env_os env p) \<and> tells (env_os env p)) \<longrightarrow>
      ok (fst r) \<and> (ApproximateMemoryUsage (db_mem (fst (snd r))) = sizeof_Node \<or> es = [])) \<and>
    (es \<noteq> [] \<and> (\<forall>p. env_open env p \<and> env_rename env p \<and> never_short (env_os env p) \<and> tells (env_os env p) \<and>
      \<not> env_remove env p \<and> env_read env p = all_read) \<longrightarrow> \<not> ok (fst r) \<and> db_log (fst (snd r)) = None)"
proof -
  note u = up [unfolded db_up_def]
  have m: "mem_rel (db_mem db) es" and es: "entries_lookup es = ops_view (concat bs)" and name: "dbname db = name"
    using u by blast+
  let ?t = "next_file_number db"
  let ?tmp = "TempFileName name ?t" and ?table = "TableFileName name ?t"
  let ?os = "env_os env ?tmp"
  let ?db1 = "db\<lparr>next_file_number := ?t + 2\<rparr>"
  have t2: "unat (?t + 2) = unat ?t + 2" using N(1,2) by (simp add: unat_word_ariths)
  note same = numbers_taken_outcome [OF up f(2) _ k N]
  show ?thesis
  proof (cases "es = []")
    case True
    have "db_holds KS name N c db dir f" unfolding db_holds_def using up k(1) f N(1,3) by fastforce
    from db_holds_outcome [OF this k(2)] show ?thesis
      using MemIter_first(2) [OF m] True by (intro exI [of _ "(Status_OK, db, dir)"]) (simp add: FlushMemTable_def)
  next
    case False
    obtain s tb where b: "build_table ?os es fopen_new = (s, tb)" by fastforce
    let ?img = "TableBuilder_destroy ?os tb"
    let ?dir1 = "AList.update ?tmp ?img dir"
    let ?dir2 = "AList.update ?table ?img (AList.delete ?tmp ?dir1)"
    note files = flush_files [OF up, where img = ?img]
    note run = FlushMemTable_steps [OF m False, of env s tb dir, unfolded name, OF b, unfolded files(5)]
    have fits: "table_fits es" "entries_ok es" using mem_table_fits [OF m sz] mem_rel_ok [OF m] by blast+
    have d0: "tables_on_disk name dir nums disk" using u by blast
    have same1: "outcome KS name N c f (s', ?db1, ?dir1)" and same0: "outcome KS name N c f (s', ?db1, dir)" for s'
      using same [OF _ files(1,3)] same [OF _ flush_names [OF up] d0] f(1) by simp_all
    show ?thesis
    proof (cases "env_open env ?tmp \<and> ok s \<and> env_rename env ?tmp")
      case False
      have "ok s" if "never_short ?os" "tells ?os"
        using build_table_cases [OF b] that by (simp add: fopen_new_def)
      then show ?thesis unfolding run using False same0 same1 by (auto simp: good_env_def open_env_def)
    next
      case True
      have tf: "table_file ?img es" using build_table_file [OF b _ fl(1) fits(2,1)] True by simp
      have "names_ok name (unat ?t + 2) ?dir2 (set (?t # nums)) {log_number db}" by (rule names_ok_mono [OF files(2)]) simp
      from same [OF _ this files(4) [OF tf]] have same2: "outcome KS name N c f (s', ?db1, ?dir2)" for s'
        using db_view_flushed [OF es] f(1) by simp
      have mo: "fopen_rb env ?dir2 ?table = (if env_open env ?table then Some ?img else None)"
        by (simp add: fopen_rb_def AList.update_conv')
      consider "\<not> env_open env ?table" | "env_open env ?table" "env_read env ?table \<noteq> all_read"
        | "env_open env ?table" "env_read env ?table = all_read" by blast
      then show ?thesis
      proof cases
        case 1
        then show ?thesis
          unfolding run using True same2 mo by (auto simp: good_env_def open_env_def Table_Open_def Let_def)
      next
        case 2
        then have "\<forall>pos n. 0 < n \<longrightarrow> env_read env ?table pos n < n" using fl(2) unfolding reads_settled_def by blast
        from Table_Open_short [OF this] obtain s' where "Table_Open (env_read env ?table) ?table (Some ?img) = Some (s', None)" "\<not> ok s'"
          by blast
        then show ?thesis unfolding run using True same2 mo 2 by (auto simp: good_env_def Let_def)
      next
        case 3
        obtain tbl r where r: "Table_Open all_read ?table (Some ?img) = Some (Status_OK, Some tbl)"
          "Flush_switch_log env (?t + 1) (?db1\<lparr>db_tables := tbl # db_tables db\<rparr>) ?dir2 = Some r" "outcome KS name N c f r"
          "(\<forall>p. flushes (env_os env p) \<and> env_open env p \<and> env_remove env p) \<longrightarrow>
            ok (fst r) \<and> ApproximateMemoryUsage (db_mem (fst (snd r))) = sizeof_Node"
          "(\<forall>p. \<not> env_remove env p) \<longrightarrow> \<not> ok (fst r) \<and> db_log (fst (snd r)) = None"
          by (rule table_in_place [OF up f k N tf, of env])
        have "FlushMemTable env db dir = Some r" unfolding run using True mo r(1,2) 3 by simp
        then show ?thesis using r(3-5) fl(1) by (auto simp: good_env_def open_env_def)
      qed
    qed
  qed
qed

end
