(* ===== verification/DbWrite.thy ===== *)
theory DbWrite
  imports DbFlush
begin

text \<open>
  Writing: a batch goes to the log, then into the memtable, and a full memtable is
  flushed.  The map a database stands for is updated as the operations say, whatever
  becomes of the flush; while the record is being added, a crash leaves the old map or
  the new one.
\<close>

section \<open>Updating the map\<close>

abbreviation apply_ops :: "op list \<Rightarrow> (bytes \<Rightarrow> LookupState) \<Rightarrow> bytes \<Rightarrow> LookupState" where
  "apply_ops \<equiv> fold (apply_op view_put view_delete)"

fun op_key :: "op \<Rightarrow> bytes" where
  "op_key (OpPut k v) = k"
| "op_key (OpDelete k) = k"

lemma apply_op_layer:
  "(\<lambda>uk. layer_over (apply_op view_put view_delete x g uk) (h uk)) =
   apply_op view_put view_delete x (\<lambda>uk. layer_over (g uk) (h uk))"
  by (cases x) (auto simp: view_put_def view_delete_def)

lemma apply_ops_layer:
  "(\<lambda>uk. layer_over (apply_ops ops g uk) (h uk)) = apply_ops ops (\<lambda>uk. layer_over (g uk) (h uk))"
  by (induction ops arbitrary: g) (simp_all add: apply_op_layer)

lemma db_view_snoc: "db_view (bs @ [ops]) tss = apply_ops ops (db_view bs tss)"
  using apply_ops_layer [of ops "ops_view (concat bs)" "layers_lookup tss"]
  by (simp add: db_view_def [abs_def] ops_view_def)

lemma apply_ops_within:
  "keys_within KS f \<Longrightarrow> op_key ` set ops \<subseteq> KS \<Longrightarrow> keys_within KS (apply_ops ops f)"
proof (induction ops arbitrary: f)
  case (Cons x ops)
  then have "keys_within KS (apply_op view_put view_delete x f)"
    by (cases x) (auto simp: keys_within_def view_put_def view_delete_def)
  then show ?case using Cons by simp
qed simp

section \<open>The log record\<close>

lemma next_sequence:
  assumes "unat (q :: u64) + 1 = n"
  shows "q + 1 = word_of_nat n"
proof -
  have "q + 1 = word_of_nat (unat q + 1)" by simp
  then show ?thesis by (simp only: assms)
qed

text \<open>The bytes of a log to which a record was being added, cut anywhere in it.\<close>

lemma AddRecord_crash:
  assumes up: "db_up name db dir n bs nums disk tss es" and w: "db_log db = Some w"
    and run: "LogWriter_AddRecord os (enc_batch (word_of_nat (n + num_ops bs)) ops) w = (s, w')"
    and ops: "batch_ok ops" "ops \<noteq> []" "op_key ` set ops \<subseteq> KS"
    and k: "keys_within KS (db_view bs disk)"
    and N: "unat (next_file_number db) \<le> N" "n + num_ops bs + length ops \<le> c"
    and m: "length (content (lw_file w)) \<le> m"
  defines "dir' \<equiv> AList.update (LogFileName name (log_number db)) (take m (content (lw_file w'))) dir"
  shows "dir_holds KS name N c dir' (db_view bs disk) \<or>
    ok s \<and> dir_holds KS name N c dir' (apply_ops ops (db_view bs disk))"
proof -
  note u = up [unfolded db_up_def]
  obtain fs where fs: "writer_at w fs" "assemble None fs = log_records n bs" using u w by auto
  have c: "content (lw_file w) = layout 0 fs" using fs(1) by (simp add: writer_at_def)
  let ?p = "LogFileName name (log_number db)"
  let ?b = "take m (content (lw_file w'))"
  have in_dir: "?p \<in> fst ` set dir" using u names_ok_log by blast
  have "names_ok name N dir (set nums) {log_number db}" using u names_ok_mono N(1) by blast
  then have names: "names_ok name N dir' (set nums) {log_number db}"
    unfolding dir'_def using in_dir by (rule names_ok_update)
  have tables: "tables_on_disk name dir' nums disk"
    unfolding dir'_def using u log_name_neq tables_on_disk_update by blast
  have mo: "map_of dir' ?p = Some ?b" by (simp add: dir'_def AList.update_conv')
  have holds: "dir_holds KS name N c dir' (db_view bs' disk)"
    if "log_holds ?b (log_records n bs')" "batches_ok bs'" "n + num_ops bs' \<le> c" "keys_within KS (db_view bs' disk)" for bs'
    unfolding dir_holds_def using that names tables mo u
    by (intro conjI exI [of _ nums] exI [of _ disk] exI [of _ n] exI [of _ bs'] exI [of _ "{log_number db}"]) auto
  have "log_records n (bs @ [ops]) = log_records n bs @ [enc_batch (word_of_nat (n + num_ops bs)) ops]"
    by (simp add: log_records_append)
  then have "log_holds ?b (log_records n bs) \<or> ok s \<and> log_holds ?b (log_records n (bs @ [ops]))"
    using log_holds_cut [OF fs(1) run m [unfolded c]] fs(2) by simp
  moreover have "batches_ok (bs @ [ops])" "batches_ok bs" using u ops by (auto simp: batches_ok_def)
  ultimately show ?thesis
    using holds [of bs] holds [of "bs @ [ops]"] k N(2) apply_ops_within [OF k ops(3)] by (auto simp: db_view_snoc)
qed

section \<open>Write\<close>

text \<open>
  A write whose record gets into the log: the memtable has grown by the operations, and what
  follows is the flush, if it is due.
\<close>

lemma DBImpl_Write_run:
  assumes up: "db_up name db dir n bs nums disk tss es"
    and ops: "batch_ok ops" "ops \<noteq> []" and N: "n + num_ops bs + length ops \<le> c" "c \<le> 2 ^ 56"
    and env: "\<And>p. flushes (env_os env p)" and w0: "db_log db = Some w0"
    and taken: "ok (fst (LogWriter_AddRecord (env_os env (LogFileName name (log_number db)))
      (enc_batch (word_of_nat (n + num_ops bs)) ops) w0))"
  obtains db1 es1 where "db_up name db1 dir n (bs @ [ops]) nums disk tss es1"
    "next_file_number db1 = next_file_number db" "log_number db1 = log_number db"
    "ApproximateMemoryUsage (db_mem db1) = ops_usage (concat bs @ ops)"
    "DBImpl_Write env (enc_batch q ops) db dir =
      (if ApproximateMemoryUsage (db_mem db1) \<ge> kMaxMemTableBytes then FlushMemTable env db1 dir else Some (Status_OK, db1, dir))"
proof -
  note u = up [unfolded db_up_def]
  obtain w fs where w: "db_log db = Some w" "writer_at w fs" "assemble None fs = log_records n bs" using u by auto
  have "w0 = w" using w0 w(1) by simp
  have name: "dbname db = name" and last: "unat (last_seq db) + 1 = n + num_ops bs"
    and m: "mem_rel (db_mem db) es" "\<forall>x \<in> set es. unat (entry_seq x) < n + num_ops bs"
      "entries_lookup es = ops_view (concat bs)" and us: "ApproximateMemoryUsage (db_mem db) = ops_usage (concat bs)"
    using u by blast+
  let ?n = "n + num_ops bs"
  let ?data = "enc_batch (word_of_nat ?n) ops"
  let ?os = "env_os env (LogFileName name (log_number db))"
  have stamp: "WriteBatch_set_sequence (last_seq db + 1) (enc_batch q ops) = ?data"
    using next_sequence [OF last] by (simp add: set_sequence_enc_batch)
  obtain s1 w1 where a: "LogWriter_AddRecord ?os ?data w = (s1, w1)" by fastforce
  then have "ok s1" using taken \<open>w0 = w\<close> by simp
  with AddRecord_writer [OF w(2) a] env obtain new where
    new: "chain new" "payload new = ?data" "writer_at w1 (fs @ new)" "ok s1"
      "flushed (lw_file w1) = length (content (lw_file w1))" by blast
  have recs: "assemble None (fs @ new) = log_records n (bs @ [ops])"
    using assemble_append_chain [OF new(1), of None fs "[]"] w(3) new(2) by (simp add: log_records_append)
  have inv: "mem_seq_inv ?n (Some (db_mem db))" using m by (auto simp: mem_seq_inv_def)
  have bound: "?n + length ops \<le> 2 ^ 56" using N by simp
  obtain s' where it: "WriteBatch_Iterate (MemTableInserter_Put (env_char env)) (MemTableInserter_Delete (env_char env))
      ?data (Some (db_mem db)) = (Status_OK, s')"
    and inv': "mem_seq_inv (?n + length ops) s'" and view: "mem_view s' = apply_ops ops (mem_view (Some (db_mem db)))"
    using inserter.iterate_batch [OF ops(1) inv bound] by blast
  have us': "usage_view s' = ops_usage (concat bs @ ops)"
    using inserter_usage.iterate_batch [OF ops(1) inv bound, of "env_char env"] it us
    by (auto simp: usage_view_def ops_usage_def)
  obtain mem' es' where m': "s' = Some mem'" "mem_rel mem' es'" "\<forall>x \<in> set es'. unat (entry_seq x) < ?n + length ops"
    using inv' by (auto simp: mem_seq_inv_def)
  have lk: "entries_lookup es' = ops_view (concat bs @ ops)"
    using view m'(1) mem_view_rel [OF m'(2)] mem_view_rel [OF m(1)] m(3) by (simp add: ops_view_def)
  have um: "ApproximateMemoryUsage mem' = ops_usage (concat bs @ ops)" using us' m'(1) by (simp add: usage_view_def)
  have len: "length ops < 2 ^ 31" using ops(1) by (simp add: batch_ok_def)
  let ?db = "db\<lparr>db_log := Some w1, db_mem := mem', last_seq := last_seq db + word_of_int (int (length ops))\<rparr>"
  have seq: "unat (last_seq db + word_of_int (int (length ops))) + 1 = ?n + length ops"
  proof -
    have "unat (last_seq db) + length ops < 2 ^ 64" using last bound by simp
    moreover have "unat (word_of_nat (length ops) :: u64) = length ops" using len by (intro unat_word_of_nat_less) simp
    ultimately show ?thesis using last by (simp add: unat_word_ariths)
  qed
  have "batches_ok (bs @ [ops])" using u ops by (auto simp: batches_ok_def)
  moreover have "\<exists>w fs. db_log ?db = Some w \<and> writer_at w fs \<and> assemble None fs = log_records n (bs @ [ops]) \<and>
      flushed (lw_file w) = length (content (lw_file w))"
    using new(3,5) recs by (intro exI [of _ w1] exI [of _ "fs @ new"]) simp
  ultimately have up': "db_up name ?db dir n (bs @ [ops]) nums disk tss es'"
    unfolding db_up_def using u m' lk um seq by (simp add: add.assoc)
  have run: "DBImpl_Write env (enc_batch q ops) db dir =
      (if ApproximateMemoryUsage mem' \<ge> kMaxMemTableBytes then FlushMemTable env ?db dir else Some (Status_OK, ?db, dir))"
    using w(1) stamp a name new(4) it m'(1) Count_enc_batch_exact [OF len] by (simp add: DBImpl_Write_def Let_def)
  show ?thesis using up' run um by (intro that [of ?db es']) simp_all
qed

lemma DBImpl_Write_outcome:
  assumes up: "db_up name db dir n bs nums disk tss es"
    and f: "f = db_view bs disk" "f = db_view bs tss" and k: "keys_within KS f" "prefix_safe KS"
    and ops: "batch_ok ops" "ops \<noteq> []" "op_key ` set ops \<subseteq> KS"
    and N: "unat (next_file_number db) + 2 \<le> N" "N < 2 ^ 64" "n + num_ops bs + length ops \<le> c" "c \<le> 2 ^ 56"
    and env: "\<And>p. flushes (env_os env p)" "reads_settled env" and w0: "db_log db = Some w0"
    and taken: "ok (fst (LogWriter_AddRecord (env_os env (LogFileName name (log_number db)))
      (enc_batch (word_of_nat (n + num_ops bs)) ops) w0))"
    and sz: "ops_usage (concat bs @ ops) + 64 < 2 ^ 32"
  shows "\<exists>r. DBImpl_Write env (enc_batch q ops) db dir = Some r \<and> outcome KS name N c (apply_ops ops f) r \<and>
    (good_env env \<and> (\<forall>p. env_rename env p \<and> never_short (env_os env p) \<and> tells (env_os env p)) \<longrightarrow>
      ok (fst r) \<and> ApproximateMemoryUsage (db_mem (fst (snd r))) < kMaxMemTableBytes) \<and>
    (ops_usage (concat bs @ ops) < kMaxMemTableBytes \<longrightarrow>
      ok (fst r) \<and> ApproximateMemoryUsage (db_mem (fst (snd r))) = ops_usage (concat bs @ ops) \<and> snd (snd r) = dir)"
proof -
  obtain db1 es1 where w: "db_up name db1 dir n (bs @ [ops]) nums disk tss es1"
    "next_file_number db1 = next_file_number db" "log_number db1 = log_number db"
    "ApproximateMemoryUsage (db_mem db1) = ops_usage (concat bs @ ops)"
    "DBImpl_Write env (enc_batch q ops) db dir =
      (if ApproximateMemoryUsage (db_mem db1) \<ge> kMaxMemTableBytes then FlushMemTable env db1 dir else Some (Status_OK, db1, dir))"
    by (rule DBImpl_Write_run [OF up ops(1,2) N(3,4) env(1) w0 taken, of q]) blast
  have f': "apply_ops ops f = db_view (bs @ [ops]) disk" "apply_ops ops f = db_view (bs @ [ops]) tss"
    using f by (simp_all add: db_view_snoc)
  have k': "keys_within KS (apply_ops ops f)" using apply_ops_within [OF k(1) ops(3)] .
  have nc: "n + num_ops (bs @ [ops]) \<le> c" using N(3) by simp
  show ?thesis
  proof (cases "ApproximateMemoryUsage (db_mem db1) \<ge> kMaxMemTableBytes")
    case False
    have "db_holds KS name N c db1 dir (apply_ops ops f)"
      unfolding db_holds_def using w(1,2) f' k' nc N(1) by fastforce
    from db_holds_outcome [OF this k(2)] show ?thesis
      unfolding w(5) using False w(4) by (intro exI [of _ "(Status_OK, db1, dir)"]) simp
  next
    case True
    have "mem_rel (db_mem db1) es1" using w(1) unfolding db_up_def by blast
    then have "es1 \<noteq> []"
      using True mem_rel_usage by (fastforce simp: mem_usage_def sizeof_Node_def kMaxHeight_def kMaxMemTableBytes_def)
    moreover have "sizeof_Node < kMaxMemTableBytes" by (simp add: sizeof_Node_def kMaxHeight_def kMaxMemTableBytes_def)
    moreover have "unat (next_file_number db1) + 2 \<le> N" "ApproximateMemoryUsage (db_mem db1) + 64 < 2 ^ 32"
      using N(1) w(2,4) sz by simp_all
    ultimately show ?thesis
      unfolding w(5) using True w(4) FlushMemTable_outcome [OF w(1) f' k' k(2) _ N(2) nc env(1,2)] by auto
  qed
qed

section \<open>Put and Delete\<close>

text \<open>An environment that never fails, and room in memory for an operation.\<close>

definition perfect_env :: "Env \<Rightarrow> bool" where
  "perfect_env env \<longleftrightarrow> good_env env \<and> (\<forall>p. env_rename env p \<and> never_short (env_os env p) \<and>
     flushes (env_os env p) \<and> tells (env_os env p))"

fun op_size :: "op \<Rightarrow> nat" where
  "op_size (OpPut k v) = length k + length v"
| "op_size (OpDelete k) = length k"

definition mem_room :: "DBImpl \<Rightarrow> op \<Rightarrow> bool" where
  "mem_room db x \<longleftrightarrow> ApproximateMemoryUsage (db_mem db) + op_size x + 256 < 2 ^ 32"

text \<open>What a write relies on: no flush fails, and a file can be read or cannot.\<close>

definition write_env :: "Env \<Rightarrow> bool" where
  "write_env env \<longleftrightarrow> (\<forall>p. flushes (env_os env p)) \<and> reads_settled env"

definition DBImpl_op :: "Env \<Rightarrow> op \<Rightarrow> DBImpl \<Rightarrow> Dir \<Rightarrow> (Status \<times> DBImpl \<times> Dir) option" where
  "DBImpl_op env x db dir =
     (case x of OpPut k v \<Rightarrow> DBImpl_Put env k v db dir | OpDelete k \<Rightarrow> DBImpl_Delete env k db dir)"

lemma DBImpl_op_Write: "DBImpl_op env x db dir = DBImpl_Write env (enc_batch 0 [x]) db dir"
  using batch_add_enc [of "[]" x 0]
  by (cases x) (simp_all add: DBImpl_op_def DBImpl_Put_def DBImpl_Delete_def WriteBatch_Clear_enc)

text \<open>
  The record of an operation on its way into the log.  The log takes it if all its bytes,
  padding and headers included, are in the stream afterwards; whether they reach the disk
  is the business of \<open>fflush\<close>.
\<close>

definition log_add :: "Os \<Rightarrow> op \<Rightarrow> DBImpl \<Rightarrow> LogWriter \<Rightarrow> Status \<times> LogWriter" where
  "log_add os x db = LogWriter_AddRecord os (WriteBatch_set_sequence (last_seq db + 1) (batch_add x WriteBatch_Clear))"

definition record_bytes :: "LogWriter \<Rightarrow> bytes \<Rightarrow> bytes" where
  "record_bytes w data = layout (block_offset w) (frags_of (block_offset w) data True)"

definition log_takes :: "Env \<Rightarrow> op \<Rightarrow> DBImpl \<Rightarrow> bool" where
  "log_takes env x db \<longleftrightarrow>
     (case db_log db of
        None \<Rightarrow> False
      | Some w \<Rightarrow>
          content (lw_file (snd (log_add (env_os env (LogFileName (dbname db) (log_number db))) x db w))) =
          content (lw_file w) @ record_bytes w (WriteBatch_set_sequence (last_seq db + 1) (batch_add x WriteBatch_Clear)))"

lemma log_takes_ok:
  assumes "db_holds KS name N c db dir f" "db_log db = Some w"
  shows "log_takes env x db \<longleftrightarrow> ok (fst (log_add (env_os env (LogFileName (dbname db) (log_number db))) x db w))"
proof -
  let ?data = "WriteBatch_set_sequence (last_seq db + 1) (batch_add x WriteBatch_Clear)"
  obtain fs where "writer_at w fs" using assms by (auto simp: db_holds_def db_up_def)
  then have off: "block_offset w \<le> kBlockSize" by (simp add: writer_at_def)
  obtain s w' where a: "LogWriter_AddRecord (env_os env (LogFileName (dbname db) (log_number db))) ?data w = (s, w')" by fastforce
  from AddRecord_spec [OF this off, folded record_bytes_def] obtain k where
    k: "content (lw_file w') = content (lw_file w) @ take k (record_bytes w ?data)"
    "ok s \<Longrightarrow> length (record_bytes w ?data) \<le> k" "\<not> ok s \<Longrightarrow> k < length (record_bytes w ?data)" by blast
  have "content (lw_file w') = content (lw_file w) @ record_bytes w ?data \<longleftrightarrow> length (record_bytes w ?data) \<le> k"
    unfolding k(1) by simp
  then have "content (lw_file w') = content (lw_file w) @ record_bytes w ?data \<longleftrightarrow> ok s"
    using k(2,3) by (cases "ok s") simp_all
  then show ?thesis using assms(2) a by (simp add: log_takes_def log_add_def)
qed

lemma log_takes_never_short:
  assumes h: "db_holds KS name N c db dir f" and n: "never_short (env_os env (LogFileName (dbname db) (log_number db)))"
  shows "log_takes env x db"
proof -
  obtain w fs where w: "db_log db = Some w" "writer_at w fs" using h by (auto simp: db_holds_def db_up_def)
  obtain s w' where a: "log_add (env_os env (LogFileName (dbname db) (log_number db))) x db w = (s, w')" by fastforce
  have "ok s" using AddRecord_writer [OF w(2) a [unfolded log_add_def]] n by blast
  then show ?thesis using log_takes_ok [OF h w(1)] a by simp
qed

text \<open>The record of an operation, in the encoding of batches.\<close>

lemma op_record:
  assumes "db_up name db dir n bs nums disk tss es" "mem_room db x"
  shows "WriteBatch_set_sequence (last_seq db + 1) (batch_add x WriteBatch_Clear) = enc_batch (word_of_nat (n + num_ops bs)) [x]"
    and "batch_ok [x]"
proof -
  have last: "unat (last_seq db) + 1 = n + num_ops bs" using assms(1) unfolding db_up_def by blast
  show "WriteBatch_set_sequence (last_seq db + 1) (batch_add x WriteBatch_Clear) = enc_batch (word_of_nat (n + num_ops bs)) [x]"
    using batch_add_enc [of "[]" x 0] next_sequence [OF last] by (simp add: WriteBatch_Clear_enc)
  show "batch_ok [x]" using assms(2) by (cases x) (simp_all add: batch_ok_def mem_room_def)
qed

lemma DBImpl_op_outcome:
  assumes h: "db_holds KS name N c db dir f" and KS: "prefix_safe KS" "op_key x \<in> KS"
    and N: "N + 2 < 2 ^ 64" "c + 1 \<le> 2 ^ 56" and env: "write_env env" "mem_room db x" "log_takes env x db"
  shows "\<exists>r. DBImpl_op env x db dir = Some r \<and>
    outcome KS name (N + 2) (c + 1) (apply_op view_put view_delete x f) r \<and>
    (perfect_env env \<longrightarrow> ok (fst r) \<and> ApproximateMemoryUsage (db_mem (fst (snd r))) < kMaxMemTableBytes) \<and>
    (ApproximateMemoryUsage (db_mem db) + op_size x + sizeof_Node + 8 < kMaxMemTableBytes \<longrightarrow> ok (fst r) \<and>
      ApproximateMemoryUsage (db_mem (fst (snd r))) = ApproximateMemoryUsage (db_mem db) + op_size x + sizeof_Node + 8 \<and>
      snd (snd r) = dir)"
proof -
  obtain n bs nums disk tss es where up: "db_up name db dir n bs nums disk tss es"
    and f: "f = db_view bs disk" "f = db_view bs tss" and k: "keys_within KS f"
    and b: "unat (next_file_number db) \<le> N" "n + num_ops bs \<le> c"
    using h unfolding db_holds_def by blast
  have us: "ApproximateMemoryUsage (db_mem db) = ops_usage (concat bs)" and name: "dbname db = name"
    using up unfolding db_up_def by blast+
  have ox: "ops_usage (concat bs @ [x]) = ops_usage (concat bs) + op_size x + sizeof_Node + 8"
    by (cases x) (simp_all add: usage_put_def usage_delete_def)
  have sz: "ops_usage (concat bs @ [x]) + 64 < 2 ^ 32"
    using env(2) us ox by (simp add: mem_room_def sizeof_Node_def kMaxHeight_def)
  obtain w where w: "db_log db = Some w" using up by (auto simp: db_up_def)
  have "ok (fst (LogWriter_AddRecord (env_os env (LogFileName name (log_number db))) (enc_batch (word_of_nat (n + num_ops bs)) [x]) w))"
    using env(3) unfolding log_takes_ok [OF h w] log_add_def op_record(1) [OF up env(2)] name .
  note w = w this
  have "batch_ok [x]" using op_record(2) [OF up env(2)] .
  moreover have "op_key ` set [x] \<subseteq> KS" "[x] \<noteq> []" using KS(2) by simp_all
  moreover have "unat (next_file_number db) + 2 \<le> N + 2" "n + num_ops bs + length [x] \<le> c + 1" using b by simp_all
  moreover have "flushes (env_os env p)" "reads_settled env" for p
    using env(1) by (simp_all add: write_env_def)
  ultimately show ?thesis
    using DBImpl_Write_outcome [OF up f k KS(1), of "[x]" "N + 2" "c + 1" env w 0] N sz ox us w
    unfolding DBImpl_op_Write perfect_env_def by auto
qed

end
