(* ===== verification/DbReopen.thy ===== *)
theory DbReopen
  imports DbFlush
begin

text \<open>
  Opening a directory when the system does not do all it is asked: \<open>DB::Open\<close> may then fail,
  but it leaves a directory that stands for the same map, and when it succeeds nothing that
  mattered has failed.
\<close>

section \<open>A success is a success\<close>

text \<open>What \<open>Init\<close> asks for has been done if it reports success: it could all have been done.\<close>

definition willing :: "Env \<Rightarrow> Env" where
  "willing env = env\<lparr>env_scan := True, env_open := (\<lambda>_. True), env_read := (\<lambda>_. all_read),
     env_remove := (\<lambda>_. True), env_truncate := (\<lambda>_. True)\<rparr>"

lemma willing [simp]: "env_scan (willing env)" "env_open (willing env) p" "env_read (willing env) p = all_read"
  "env_remove (willing env) p" "env_truncate (willing env) p" "env_char (willing env) = env_char env"
  "good_env (willing env)" "open_env (willing env)" "can_remove (willing env) dir p \<longleftrightarrow> map_of dir p \<noteq> None"
  "fopen_rb (willing env) dir p = map_of dir p"
  by (simp_all add: willing_def good_env_def open_env_def can_remove_def fopen_rb_def)

lemma fopen_rb_Some: "fopen_rb env dir p = Some b \<Longrightarrow> env_open env p \<and> map_of dir p = Some b"
  by (simp add: fopen_rb_def split: if_splits)

lemma Init_scan_willing:
  "Init_scan env name fs next m dir = (s, r) \<Longrightarrow> ok s \<Longrightarrow> Init_scan (willing env) name fs next m dir = (s, r)"
  by (induction fs arbitrary: "next" m dir) (auto simp: can_remove_def Let_def split: if_splits)

lemma Table_Open_settled:
  assumes "reads_settled env" "Table_Open (env_read env p) fname (Some b) = Some (s, Some t)"
  shows "env_read env p = all_read"
proof (rule ccontr)
  assume "env_read env p \<noteq> all_read"
  then have "\<forall>pos n. 0 < n \<longrightarrow> env_read env p pos n < n" using assms(1) unfolding reads_settled_def by blast
  from Table_Open_short [OF this, of fname b] show False using assms(2) by auto
qed

lemma Table_Open_None: "Table_Open rd fname None = Some (IOError (str ''open table failed: '' @ fname), None)"
  by (simp add: Table_Open_def)

lemma Table_Open_fails: "Table_Open rd fname opened = Some (s, None) \<Longrightarrow> \<not> ok s"
  by (auto simp: Table_Open_def Let_def split: option.splits if_splits prod.splits)

lemma Init_tables_willing:
  assumes "reads_settled env" "Init_tables env name dir fs ts = Some (s, ts')" "ok s"
  shows "Init_tables (willing env) name dir fs ts = Some (s, ts')"
  using assms(2)
proof (induction fs arbitrary: ts)
  case (Cons f fs)
  show ?case
  proof (cases "fi_type f = kTableFile")
    case True
    let ?p = "TableFileName name (fi_number f)"
    show ?thesis
    proof (cases "fopen_rb env dir ?p")
      case None
      then show ?thesis using Cons.prems True assms(3) by (auto simp: Table_Open_None Let_def)
    next
      case (Some b)
      note o = fopen_rb_Some [OF Some]
      obtain s1 t where t: "Table_Open (env_read env ?p) ?p (Some b) = Some (s1, Some t)" "ok s1"
        using Cons.prems True Some assms(3) Table_Open_fails by (fastforce simp: Let_def split: option.splits if_splits)
      then have "Table_Open all_read ?p (Some b) = Some (s1, Some t)" using Table_Open_settled [OF assms(1) t(1)] by simp
      then show ?thesis using Cons True Some o t by (simp add: Let_def)
    qed
  next
    case False
    then show ?thesis using Cons by simp
  qed
qed simp

lemma Init_tables_total:
  assumes "reads_settled env" "\<And>f. f \<in> set fs \<Longrightarrow> fi_type f = kTableFile \<Longrightarrow>
      \<exists>b es. map_of dir (TableFileName name (fi_number f)) = Some b \<and> table_file b es"
  shows "\<exists>s ts'. Init_tables env name dir fs ts = Some (s, ts')"
  using assms(2)
proof (induction fs arbitrary: ts)
  case (Cons f fs)
  show ?case
  proof (cases "fi_type f = kTableFile")
    case True
    let ?p = "TableFileName name (fi_number f)"
    show ?thesis
    proof (cases "env_open env ?p")
      case False
      then show ?thesis using True by (simp add: fopen_rb_def Table_Open_None Let_def)
    next
      case op: True
      obtain b es where b: "map_of dir ?p = Some b" "table_file b es" using Cons.prems [of f] True by auto
      show ?thesis
      proof (cases "env_read env ?p = all_read")
        case rd: True
        obtain t where "Table_Open all_read ?p (Some b) = Some (Status_OK, Some t)" using Table_Open_file [OF b(2)] by blast
        then show ?thesis using True op rd b(1) Cons by (simp add: fopen_rb_def Let_def)
      next
        case False
        then have "\<forall>pos n. 0 < n \<longrightarrow> env_read env ?p pos n < n" using assms(1) unfolding reads_settled_def by blast
        from Table_Open_short [OF this, of ?p b] show ?thesis using True op b(1) by (auto simp: fopen_rb_def Let_def)
      qed
    qed
  next
    case False
    then show ?thesis using Cons by simp
  qed
qed simp

lemma Recover_willing:
  assumes "Recover (willing env) path bytes mem seq = Some (Status_OK, mem', q, bytes')" "env_read env path = all_read"
  shows "Recover env path bytes mem seq =
    (if env_truncate env path then Some (Status_OK, mem', q, bytes')
     else Some (IOError (str ''truncate log tail failed''), mem', q, bytes))"
  using assms by (auto simp: Recover_def split: option.splits prod.splits if_splits)

section \<open>What a failure leaves\<close>

lemma filter_delete: "filter (\<lambda>x. fst x \<notin> T) (AList.delete p al) = filter (\<lambda>x. fst x \<notin> insert p T) al"
  by (induction al) auto

text \<open>The scan removes temporary files, as far as it gets.\<close>

lemma Init_scan_left:
  "Init_scan env name fs next m dir = (s, next', m', dir') \<Longrightarrow>
   \<exists>T. T \<subseteq> temp_paths name fs \<and> dir' = filter (\<lambda>x. fst x \<notin> T) dir"
proof (induction fs arbitrary: "next" m dir)
  case (Cons f fs)
  have sub: "temp_paths name fs \<subseteq> temp_paths name (f # fs)" by (auto simp: temp_paths_def)
  show ?case
  proof (cases "fi_type f = kTempFile")
    case True
    let ?p = "TempFileName name (fi_number f)"
    show ?thesis
    proof (cases "can_remove env dir ?p")
      case cr: True
      have "Init_scan env name fs (if fi_number f \<ge> next then fi_number f + 1 else next) m (AList.delete ?p dir) =
          (s, next', m', dir')" using Cons.prems True cr by (simp add: Let_def)
      from Cons.IH [OF this] obtain T where
        T: "T \<subseteq> temp_paths name fs" "dir' = filter (\<lambda>x. fst x \<notin> T) (AList.delete ?p dir)" by blast
      have "?p \<in> temp_paths name (f # fs)" using True by (auto simp: temp_paths_def)
      moreover have "dir' = filter (\<lambda>x. fst x \<notin> insert ?p T) dir"
        using T(2) filter_delete [of T ?p dir] by (rule trans)
      moreover have "insert ?p T \<subseteq> temp_paths name (f # fs)" using calculation(1) T(1) sub by simp
      ultimately show ?thesis by (intro exI [of _ "insert ?p T"] conjI)
    next
      case False
      then have "dir' = filter (\<lambda>x. fst x \<notin> {}) dir" using Cons.prems True by (simp add: Let_def)
      then show ?thesis by (intro exI [of _ "{}"] conjI empty_subsetI)
    qed
  next
    case False
    have "Init_scan env name fs (if fi_number f \<ge> next then fi_number f + 1 else next)
        (if fi_type f = kLogFile \<and> fi_number f > m then fi_number f else m) dir = (s, next', m', dir')"
      using Cons.prems False by (simp add: Let_def)
    from Cons.IH [OF this] obtain T where T: "T \<subseteq> temp_paths name fs" "dir' = filter (\<lambda>x. fst x \<notin> T) dir" by blast
    show ?thesis using subset_trans [OF T(1) sub] T(2) by (intro exI [of _ T] conjI)
  qed
next
  case Nil
  then have "dir' = filter (\<lambda>x. fst x \<notin> {}) dir" by simp
  then show ?case by (intro exI [of _ "{}"] conjI empty_subsetI)
qed

lemma names_ok_filter:
  assumes "names_ok name N dir tabs logs" "\<And>p. p \<in> T \<Longrightarrow> \<exists>n. p = TempFileName name n"
  shows "names_ok name N (filter (\<lambda>x. fst x \<notin> T) dir) tabs logs"
proof -
  have k: "fst ` set (filter (\<lambda>x. fst x \<notin> T) dir) = fst ` set dir - T" by auto
  have "TableFileName name n \<notin> T" "LogFileName name n \<notin> T" for n using assms(2) by (fastforce simp: file_paths)+
  moreover have "\<forall>p \<in> fst ` set dir - T. \<forall>n t. ParseFileName p = Some (n, t) \<longrightarrow>
      p = file_path name n t \<and> unat n < N \<and> (t = kTableFile \<longrightarrow> n \<in> tabs) \<and> (t = kLogFile \<longrightarrow> n \<in> logs)"
    using names_okD [OF assms(1)] by blast
  moreover have "distinct (map fst (filter (\<lambda>x. fst x \<notin> T) dir))"
    using assms(1) by (simp add: names_ok_def distinct_map_filter_fst)
  ultimately show ?thesis using assms(1) unfolding names_ok_def k by blast
qed

lemma map_of_filter_temps:
  assumes "\<And>p. p \<in> T \<Longrightarrow> \<exists>n. p = TempFileName name n" "t \<noteq> kTempFile"
  shows "map_of (filter (\<lambda>x. fst x \<notin> T) dir) (file_path name n t) = map_of dir (file_path name n t)"
  using assms map_of_filter_key [of "\<lambda>k. k \<notin> T" dir "file_path name n t"] by (fastforce simp: file_paths)

lemma dir_holds_filter:
  assumes "dir_holds KS name N c dir f" "\<And>p. p \<in> T \<Longrightarrow> \<exists>n. p = TempFileName name n"
  shows "dir_holds KS name N c (filter (\<lambda>x. fst x \<notin> T) dir) f"
proof -
  let ?dir = "filter (\<lambda>x. fst x \<notin> T) dir"
  note mo = map_of_filter_temps [where T = T and name = name and dir = dir, OF assms(2)]
  obtain nums disk n bs logs where d: "tables_on_disk name dir nums disk" "names_ok name N dir (set nums) logs"
    "f = db_view bs disk" "batches_ok bs" "1 \<le> n" "n + num_ops bs \<le> c"
    and l: "logs = {} \<and> bs = [] \<or> (\<exists>l b. logs = {l} \<and> l \<noteq> 0 \<and> map_of dir (LogFileName name l) = Some b \<and>
      log_holds b (log_records n bs))" and k: "keys_within KS f"
    using assms(1) unfolding dir_holds_def by blast
  have "tables_on_disk name ?dir nums disk" by (rule tables_on_disk_cong [OF d(1)]) (simp add: file_paths mo)
  moreover have "logs = {} \<and> bs = [] \<or> (\<exists>l b. logs = {l} \<and> l \<noteq> 0 \<and> map_of ?dir (LogFileName name l) = Some b \<and>
      log_holds b (log_records n bs))" using l by (simp add: file_paths mo)
  ultimately show ?thesis
    unfolding dir_holds_def using d k names_ok_filter [OF d(2) assms(2)]
    by (intro conjI exI [of _ nums] exI [of _ disk] exI [of _ n] exI [of _ bs] exI [of _ logs]) assumption+
qed

lemma update_same: "map_of al k = Some v \<Longrightarrow> AList.update k v al = al"
  by (induction al) auto

text \<open>The two parts of an opening that read files: the tables, and the log.\<close>

lemma Init_tables_left:
  assumes "reads_settled env" "tables_on_disk name dir nums disk"
    and "map fi_number (filter (\<lambda>f. fi_type f = kTableFile) (rev files)) = nums"
    and same: "\<And>n. map_of dir1 (TableFileName name n) = map_of dir (TableFileName name n)"
  obtains s ts where "Init_tables env name dir1 (rev files) [] = Some (s, ts)"
proof -
  have "\<exists>b es. map_of dir1 (TableFileName name (fi_number g)) = Some b \<and> table_file b es"
    if g: "g \<in> set (rev files)" "fi_type g = kTableFile" for g
  proof -
    have "fi_number g \<in> set nums" using g unfolding assms(3) [symmetric] by auto
    then obtain i where i: "i < length nums" "nums ! i = fi_number g" by (meson in_set_conv_nth)
    have "\<exists>b. map_of dir (TableFileName name (fi_number g)) = Some b \<and> table_file b (disk ! i)"
      by (rule list_all2_nthD [OF conjunct2 [OF assms(2) [unfolded tables_on_disk_def]] i(1), unfolded i(2)])
    then show ?thesis using same by auto
  qed
  then have "\<exists>s ts. Init_tables env name dir1 (rev files) [] = Some (s, ts)"
    by (rule Init_tables_total [OF assms(1)])
  then show ?thesis using that by blast
qed

lemma Init_logs_left:
  assumes rl: "env_read env (LogFileName name l) = all_read" and db: "dbname db = name" "db_log db = None" "db_mem db = MemTable_new (env_char env)"
    and b: "map_of dir (LogFileName name l) = Some b" "log_holds b (log_records n bs)"
    and bs: "batches_ok bs" "1 \<le> n" "n + num_ops bs \<le> 2 ^ 56"
    and fl: "filter (\<lambda>f. fi_type f = kLogFile) files = [\<lparr>fi_number = l, fi_type = kLogFile\<rparr>]"
  obtains s q db' dir' where "Init_logs env files l 0 db dir = Some (s, q, db', dir')"
    "ok s \<Longrightarrow> Init_logs (willing env) files l 0 db dir = Some (s, q, db', dir')"
    "\<not> ok s \<Longrightarrow> db_log db' = None \<and> dir' = dir"
proof -
  let ?p = "LogFileName name l"
  have "log_reads (env_read (willing env) ?p) b (log_records n bs)" using b(2) by simp
  from Recover_log [OF this bs willing(5)] obtain mem bytes where
    rw: "Recover (willing env) ?p b (MemTable_new (env_char env)) 0 =
      Some (Status_OK, mem, if bs = [] then 0 else word_of_nat (n + num_ops bs - 1), bytes)" by blast
  note re = Recover_willing [OF rw rl]
  have logs: "Init_logs e files l 0 db dir = Init_logs e [\<lparr>fi_number = l, fi_type = kLogFile\<rparr>] l 0 db dir" for e
    by (rule Init_logs_one [OF fl])
  note run = logs fopen_rb_def dir_create_def Let_def b(1) db update_same [OF b(1)] rw re
  consider "\<not> env_open env ?p" | "env_open env ?p" "\<not> env_truncate env ?p"
    | "env_open env ?p" "env_truncate env ?p" by blast
  then have "\<exists>s q db' dir'. Init_logs env files l 0 db dir = Some (s, q, db', dir') \<and>
      (ok s \<longrightarrow> Init_logs (willing env) files l 0 db dir = Some (s, q, db', dir')) \<and>
      (\<not> ok s \<longrightarrow> db_log db' = None \<and> dir' = dir)"
    by cases (simp_all add: run)
  then show ?thesis using that by blast
qed

text \<open>
  \<open>Init\<close> on a directory in order, with a log that can be read: it comes back, a success is
  one the willing system would have had, and a failure leaves no log open and a directory
  in order.
\<close>

lemma Init_any:
  assumes dh: "dir_holds KS name N c dir f" and N: "N + 1 < 2 ^ 64" "1 \<le> N" "c \<le> 2 ^ 56"
    and rs: "reads_settled env" and rl: "\<And>n. env_read env (LogFileName name n) = all_read"
  shows "\<exists>s db dir'. Init env (DBImpl_new env name) dir = Some (s, db, dir') \<and>
    (ok s \<longrightarrow> Init (willing env) (DBImpl_new env name) dir = Some (s, db, dir')) \<and>
    (\<not> ok s \<longrightarrow> db_log db = None \<and> dir_holds KS name N c dir' f)"
proof -
  let ?db = "DBImpl_new env name" and ?names = "map (\<lambda>(p, _). after_slash p) dir"
  have new: "dbname ?db = name" "next_file_number ?db = 1" "db_tables ?db = []" "db_log ?db = None"
    "db_mem ?db = MemTable_new (env_char env)"
    by (simp_all add: DBImpl_new_def)
  obtain nums disk n bs logs where d: "tables_on_disk name dir nums disk" "names_ok name N dir (set nums) logs"
    "f = db_view bs disk" "batches_ok bs" "1 \<le> n" "n + num_ops bs \<le> c"
    and l: "logs = {} \<and> bs = [] \<or> (\<exists>l b. logs = {l} \<and> l \<noteq> 0 \<and> map_of dir (LogFileName name l) = Some b \<and>
      log_holds b (log_records n bs))" and k: "keys_within KS f"
    using dh unfolding dir_holds_def by blast
  obtain l where l': "logs \<subseteq> {l}" "l \<noteq> 0" using l by (metis empty_subsetI one_neq_zero subset_refl)
  have N1: "N < 2 ^ 64" using N(1) by simp
  have sorted: "sorted_wrt (>) nums" using d(1) by (simp add: tables_on_disk_def)
  obtain files next' dirs where w:
    "ListFiles name (Some ?names) = (Status_OK, files)"
    "Init_scan (willing env) name files 1 0 dir = (Status_OK, next', if logs = {} then 0 else l, dirs)"
    "map fi_number (filter (\<lambda>f. fi_type f = kTableFile) (rev files)) = nums"
    "filter (\<lambda>f. fi_type f = kLogFile) files = (if logs = {} then [] else [\<lparr>fi_number = l, fi_type = kLogFile\<rparr>])"
    by (rule Init_scan_names [OF willing(8) d(2) sorted N1 N(2) l', of env]) blast
  show ?thesis
  proof (cases "env_scan env")
    case False
    then show ?thesis using new dh by (simp add: Init_def ListFiles_def)
  next
    case scan: True
    obtain s n1 m1 dir1 where sc: "Init_scan env name files 1 0 dir = (s, n1, m1, dir1)" by (metis prod_cases4)
    obtain T where T: "T \<subseteq> temp_paths name files" "dir1 = filter (\<lambda>x. fst x \<notin> T) dir" using Init_scan_left [OF sc] by blast
    then have temp: "\<exists>n. p = TempFileName name n" if "p \<in> T" for p using that by (auto simp: temp_paths_def)
    have dh1: "dir_holds KS name N c dir1 f" unfolding T(2) by (rule dir_holds_filter [OF dh temp])
    have mo: "map_of dir1 (file_path name n t) = map_of dir (file_path name n t)" if "t \<noteq> kTempFile" for n t
      unfolding T(2) by (rule map_of_filter_temps [OF temp that])
    let ?db1 = "?db\<lparr>next_file_number := n1\<rparr>"
    show ?thesis
    proof (cases "ok s")
      case False
      then show ?thesis using scan w(1) sc new dh1 by (simp add: Init_def)
    next
      case oks: True
      note sw = Init_scan_willing [OF sc oks]
      have s: "s = Status_OK" "m1 = (if logs = {} then 0 else l)" using sw w(2) by simp_all
      obtain s2 ts where t: "Init_tables env name dir1 (rev files) [] = Some (s2, ts)"
        by (rule Init_tables_left [OF rs d(1) w(3), of dir1]) (simp_all add: mo file_paths)
      let ?db2 = "?db1\<lparr>db_tables := ts\<rparr>"
      show ?thesis
      proof (cases "ok s2")
        case False
        then show ?thesis using scan w(1) sc oks t new dh1 by (simp add: Init_def)
      next
        case ok2: True
        note tw = Init_tables_willing [OF rs t ok2]
        note steps = scan w(1) sc oks t ok2 new sw tw
        show ?thesis
        proof (cases "logs = {}")
          case True
          then have "m1 = 0" using s(2) by simp
          show ?thesis
          proof (cases "env_open env (LogFileName name n1)")
            case False
            then show ?thesis using steps \<open>m1 = 0\<close> dh1 by (simp add: Init_def Let_def)
          next
            case op: True
            then show ?thesis using steps \<open>m1 = 0\<close> by (simp add: Init_def Let_def)
          qed
        next
          case False
          then have m1: "m1 = l" and lg: "logs = {l}" using s(2) l'(1) by auto
          obtain b where b: "map_of dir (LogFileName name l) = Some b" "log_holds b (log_records n bs)" using l lg by auto
          have b1: "map_of dir1 (LogFileName name l) = Some b" using mo [of kLogFile l] b(1) by (simp add: file_paths)
          have fl: "filter (\<lambda>f. fi_type f = kLogFile) files = [\<lparr>fi_number = l, fi_type = kLogFile\<rparr>]"
            and n: "n + num_ops bs \<le> 2 ^ 56" using w(4) lg d(6) N(3) by simp_all
          obtain s3 q db' dir' where "Init_logs env files l 0 ?db2 dir1 = Some (s3, q, db', dir')"
            "ok s3 \<Longrightarrow> Init_logs (willing env) files l 0 ?db2 dir1 = Some (s3, q, db', dir')"
            "\<not> ok s3 \<Longrightarrow> db_log db' = None \<and> dir' = dir1"
            by (rule Init_logs_left [OF rl _ _ _ b1 b(2) d(4,5) n fl, of ?db2]) (simp_all add: new)
          then show ?thesis using steps m1 l'(2) dh1 by (simp add: Init_def Let_def)
        qed
      qed
    qed
  qed
qed

text \<open>
  What is asked of the system when a directory is opened: that it reads the log, and that
  the reads of a table work or do not.  Everything else may fail.
\<close>

definition open_reads :: "Env \<Rightarrow> bytes \<Rightarrow> bool" where
  "open_reads env name \<longleftrightarrow> reads_settled env \<and> (\<forall>n. env_read env (LogFileName name n) = all_read)"

lemma DB_Open_any:
  assumes "dir_holds KS name N c dir f" "N + 1 < 2 ^ 64" "1 \<le> N" "c \<le> 2 ^ 56" "open_reads env name"
  shows "\<exists>s opened dir'. DB_Open env name dir = Some (s, opened, dir') \<and>
    (case opened of None \<Rightarrow> \<not> ok s \<and> dir_holds KS name N c dir' f
     | Some db \<Rightarrow> s = Status_OK \<and> db_holds KS name (N + 1) c db dir' f)"
proof -
  obtain s db dir' where i: "Init env (DBImpl_new env name) dir = Some (s, db, dir')"
    "ok s \<Longrightarrow> Init (willing env) (DBImpl_new env name) dir = Some (s, db, dir')"
    "\<not> ok s \<Longrightarrow> db_log db = None \<and> dir_holds KS name N c dir' f"
    using Init_any [OF assms(1-4)] assms(5) unfolding open_reads_def by blast
  show ?thesis
  proof (cases "ok s")
    case True
    have "DBImpl_new (willing env) name = DBImpl_new env name" by (simp add: DBImpl_new_def)
    then have "db_holds KS name (N + 1) c db dir' f"
      using Init_holds [OF willing(7) assms(1-4), of env] i(2) [OF True] by auto
    then show ?thesis using i(1) True by (simp add: DB_Open_def)
  next
    case False
    then have "DBImpl_destroy env db dir' = dir'" using i(3) by (simp add: DBImpl_destroy_def)
    then show ?thesis using i(1,3) False by (simp add: DB_Open_def)
  qed
qed

end
