(* ===== verification/DbRun.thy ===== *)
theory DbRun
  imports DbWrite DbReopen
begin

text \<open>
  The life of a database: opened or not, written with and without success, closed, crashed at
  any moment, opened again.
  A step relation over the states of process and directory, with the map the user should
  see beside it; the invariant is that the code keeps to one of the maps possible.
\<close>

section \<open>The specification: a map\<close>

type_synonym kvmap = "bytes \<rightharpoonup> bytes"

fun map_op :: "op \<Rightarrow> kvmap \<Rightarrow> kvmap" where
  "map_op (OpPut k v) m = m(k \<mapsto> v)"
| "map_op (OpDelete k) m = m(k := None)"

definition map_result :: "kvmap \<Rightarrow> bytes \<Rightarrow> Status \<times> bytes option" where
  "map_result m uk = (case m uk of Some v \<Rightarrow> (Status_OK, Some v) | None \<Rightarrow> (NotFound uk, None))"

definition map_of_view :: "(bytes \<Rightarrow> LookupState) \<Rightarrow> kvmap" where
  "map_of_view f uk = (case f uk of kValue v \<Rightarrow> Some v | _ \<Rightarrow> None)"

lemma map_of_view_op: "map_of_view (apply_op view_put view_delete x f) = map_op x (map_of_view f)"
  by (cases x) (auto simp: map_of_view_def view_put_def view_delete_def fun_eq_iff)

lemma get_result_map: "get_result uk (f uk) = map_result (map_of_view f) uk"
  by (cases "f uk") (simp_all add: get_result_def map_result_def map_of_view_def)

lemma map_of_view_empty: "map_of_view (\<lambda>_. kNotFoundState) = Map.empty"
  by (simp add: fun_eq_iff map_of_view_def)

section \<open>The steps\<close>

text \<open>
  A process is up, or up with a log to which a write has failed, from where on it is only
  asked to read; or there is none.
\<close>

datatype phase = Up DBImpl Dir | Failed DBImpl Dir | Down Dir

definition has_process :: "phase \<Rightarrow> DBImpl \<Rightarrow> Dir \<Rightarrow> bool" where
  "has_process p db dir \<longleftrightarrow> p = Up db dir \<or> p = Failed db dir"

text \<open>
  \<open>F\<close> holds the maps the user may see: one, but two after a crash in the middle of a
  write.  A crash inside a flush leaves the files of a flush that failed at that point, and
  one inside an opening those of an opening that failed, or of one that did not.
\<close>

inductive db_run :: "bytes set \<Rightarrow> bytes \<Rightarrow> nat \<Rightarrow> phase \<Rightarrow> kvmap set \<Rightarrow> bool" for KS name where
  run_start: "distinct (map fst dir) \<Longrightarrow> (\<And>p. p \<in> fst ` set dir \<Longrightarrow> ParseFileName p = None) \<Longrightarrow>
    db_run KS name 0 (Down dir) {Map.empty}"
| run_open: "db_run KS name t (Down dir) F \<Longrightarrow> open_reads env name \<Longrightarrow>
    DB_Open env name dir = Some (s, Some db, dir') \<Longrightarrow> db_run KS name (Suc t) (Up db dir') F"
| run_open_fails: "db_run KS name t (Down dir) F \<Longrightarrow> open_reads env name \<Longrightarrow>
    DB_Open env name dir = Some (s, None, dir') \<Longrightarrow> db_run KS name t (Down dir') F"
| run_write: "db_run KS name t (Up db dir) F \<Longrightarrow> op_key x \<in> KS \<Longrightarrow> mem_room db x \<Longrightarrow>
    log_takes env x db \<Longrightarrow> write_env env \<Longrightarrow>
    DBImpl_op env x db dir = Some (s, db', dir') \<Longrightarrow> db_run KS name (Suc t) (Up db' dir') (map_op x ` F)"
| run_write_fails: "db_run KS name t (Up db dir) F \<Longrightarrow> op_key x \<in> KS \<Longrightarrow> mem_room db x \<Longrightarrow>
    db_log db \<noteq> None \<Longrightarrow> \<not> log_takes env x db \<Longrightarrow>
    DBImpl_op env x db dir = Some (s, db', dir') \<Longrightarrow> db_run KS name (Suc t) (Failed db' dir') F"
| run_crash: "db_run KS name t p F \<Longrightarrow> has_process p db dir \<Longrightarrow> crash_dir db dir dir' \<Longrightarrow> db_run KS name t (Down dir') F"
| run_close: "db_run KS name t p F \<Longrightarrow> has_process p db dir \<Longrightarrow> db_run KS name t (Down (DBImpl_destroy env db dir)) F"
| run_crash_write: "db_run KS name t (Up db dir) F \<Longrightarrow> op_key x \<in> KS \<Longrightarrow> mem_room db x \<Longrightarrow> db_log db = Some w \<Longrightarrow>
    log_add os x db w = (s, w') \<Longrightarrow> length (content (lw_file w)) \<le> m \<Longrightarrow>
    dir' = AList.update (LogFileName (dbname db) (log_number db)) (take m (content (lw_file w'))) dir \<Longrightarrow>
    db_run KS name (Suc t) (Down dir') (F \<union> map_op x ` F)"

inductive_simps db_run_Up: "db_run KS name t (Up db dir) F"
inductive_cases db_run_DownE: "db_run KS name t (Down dir) F"

section \<open>The invariant\<close>

text \<open>A process that only reads: lookups answer from \<open>f\<close>, and \<open>f\<close> is what it leaves.\<close>

definition left_holds :: "bytes set \<Rightarrow> bytes \<Rightarrow> nat \<Rightarrow> nat \<Rightarrow> (bytes \<Rightarrow> LookupState) \<Rightarrow> DBImpl \<Rightarrow> Dir \<Rightarrow> bool" where
  "left_holds KS name N c f db dir \<longleftrightarrow> reads_ok KS db f \<and>
     (\<forall>dir'. crash_dir db dir dir' \<longrightarrow> dir_holds KS name N c dir' f) \<and>
     (\<forall>w. db_log db = Some w \<longrightarrow> file_ok (lw_file w))"

fun run_inv :: "bytes set \<Rightarrow> bytes \<Rightarrow> nat \<Rightarrow> phase \<Rightarrow> kvmap set \<Rightarrow> bool" where
  "run_inv KS name t (Up db dir) F \<longleftrightarrow>
     (\<exists>f. map_of_view f \<in> F \<and> outcome KS name (2 * t + 1) (t + 1) f (IOError [], db, dir))"
| "run_inv KS name t (Failed db dir) F \<longleftrightarrow>
     (\<exists>f. map_of_view f \<in> F \<and> left_holds KS name (2 * t + 1) (t + 1) f db dir)"
| "run_inv KS name t (Down dir) F \<longleftrightarrow>
     (\<exists>f. map_of_view f \<in> F \<and> dir_holds KS name (2 * t + 1) (t + 1) dir f)"

lemma db_holds_mono: "db_holds KS name N c db dir f \<Longrightarrow> N \<le> N' \<Longrightarrow> c \<le> c' \<Longrightarrow> db_holds KS name N' c' db dir f"
  unfolding db_holds_def by (elim conjE exE, intro conjI exI) (assumption | erule (1) order_trans)+

lemma dir_holds_mono:
  assumes "dir_holds KS name N c dir f" "N \<le> N'" "c \<le> c'"
  shows "dir_holds KS name N' c' dir f"
proof -
  obtain nums disk n bs logs where d: "tables_on_disk name dir nums disk" "names_ok name N dir (set nums) logs"
    "f = db_view bs disk" "batches_ok bs" "1 \<le> n" "n + num_ops bs \<le> c"
    and l: "logs = {} \<and> bs = [] \<or> (\<exists>l b. logs = {l} \<and> l \<noteq> 0 \<and> map_of dir (LogFileName name l) = Some b \<and>
      log_holds b (log_records n bs))" and k: "keys_within KS f"
    using assms(1) unfolding dir_holds_def by blast
  show ?thesis
    unfolding dir_holds_def using d l k names_ok_mono [OF d(2) assms(2)] order_trans [OF d(6) assms(3)]
    by (intro conjI exI [of _ nums] exI [of _ disk] exI [of _ n] exI [of _ bs] exI [of _ logs]) assumption+
qed

lemma outcome_weaken: "outcome KS name N c f (s, db, dir) \<Longrightarrow> outcome KS name N c f (IOError m, db, dir)"
  by (simp add: outcome_def)

lemma outcome_mono: "outcome KS name N c f r \<Longrightarrow> N \<le> N' \<Longrightarrow> c \<le> c' \<Longrightarrow> outcome KS name N' c' f r"
  unfolding outcome_def by (auto split: prod.splits intro: db_holds_mono dir_holds_mono)

lemma outcome_holds: "outcome KS name N c f (s, db, dir) \<Longrightarrow> db_log db \<noteq> None \<Longrightarrow> db_holds KS name N c db dir f"
  by (simp add: outcome_def)

lemma start_holds:
  assumes "distinct (map fst dir)" "\<And>p. p \<in> fst ` set dir \<Longrightarrow> ParseFileName p = None"
  shows "dir_holds KS name 1 1 dir (\<lambda>_. kNotFoundState)"
proof -
  have "names_ok name 1 dir (set []) {}" using assms by (intro names_okI) auto
  then show ?thesis
    unfolding dir_holds_def
    by (intro conjI exI [of _ "[]"] exI [of _ 1] exI [of _ "{}"])
      (simp_all add: tables_on_disk_def keys_within_def batches_ok_def db_view_def fun_eq_iff)
qed

lemma DB_Open_holds:
  assumes "good_env env" "dir_holds KS name N c dir f" "N + 1 < 2 ^ 64" "1 \<le> N" "c \<le> 2 ^ 56"
  shows "\<exists>db dir'. DB_Open env name dir = Some (Status_OK, Some db, dir') \<and> db_holds KS name (N + 1) c db dir' f"
proof -
  obtain db dir' where "Init env (DBImpl_new env name) dir = Some (Status_OK, db, dir')" "db_holds KS name (N + 1) c db dir' f"
    using Init_holds [OF assms] by blast
  then show ?thesis by (intro exI [of _ db] exI [of _ dir']) (simp add: DB_Open_def)
qed

text \<open>A clean close leaves what a crash could leave.\<close>

lemma DBImpl_destroy_crash:
  assumes "\<And>w. db_log db = Some w \<Longrightarrow> file_ok (lw_file w)"
  shows "crash_dir db dir (DBImpl_destroy env db dir)"
proof (cases "db_log db")
  case None
  then show ?thesis by (simp add: crash_dir_def DBImpl_destroy_def)
next
  case (Some w)
  then show ?thesis
    using crash_image_closed [OF assms [OF Some]]
    by (auto simp: crash_dir_def DBImpl_destroy_def Let_def case_prod_unfold)
qed

lemma db_holds_file_ok: "db_holds KS name N c db dir f \<Longrightarrow> db_log db = Some w \<Longrightarrow> file_ok (lw_file w)"
  by (auto simp: db_holds_def db_up_def file_ok_def)

lemma outcome_left: "outcome KS name N c f (s, db, dir) \<Longrightarrow> left_holds KS name N c f db dir"
  using db_holds_file_ok by (fastforce simp: outcome_def left_holds_def)

lemma process_left:
  assumes "run_inv KS name t p F" "has_process p db dir"
  shows "\<exists>f. map_of_view f \<in> F \<and> left_holds KS name (2 * t + 1) (t + 1) f db dir"
proof (cases "p = Up db dir")
  case True
  then show ?thesis using assms(1) outcome_left by fastforce
next
  case False
  then show ?thesis using assms by (simp add: has_process_def)
qed

text \<open>A write whose record did not get into the log has changed nothing that counts.\<close>

lemma crash_write_holds:
  assumes h: "db_holds KS name N c db dir f" and x: "op_key x \<in> KS" "mem_room db x" and w: "db_log db = Some w"
    and run: "log_add os x db w = (s, w')"
    and m: "length (content (lw_file w)) \<le> m"
    and dir': "dir' = AList.update (LogFileName (dbname db) (log_number db)) (take m (content (lw_file w'))) dir"
  shows "dir_holds KS name N (c + 1) dir' f \<or> ok s \<and> dir_holds KS name N (c + 1) dir' (apply_op view_put view_delete x f)"
proof -
  obtain n bs nums disk tss es where up: "db_up name db dir n bs nums disk tss es"
    and f: "f = db_view bs disk" and k: "keys_within KS f"
    and b: "unat (next_file_number db) \<le> N" "n + num_ops bs \<le> c"
    using h unfolding db_holds_def by blast
  have name: "dbname db = name" using up unfolding db_up_def by blast
  note run' = run [unfolded log_add_def op_record(1) [OF up x(2)]]
  show ?thesis
    using AddRecord_crash [OF up w run' op_record(2) [OF up x(2)] _ _ k [unfolded f] b(1) _ m, of "c + 1"] x(1) b(2) f dir' name by simp
qed

lemma failed_write_left:
  assumes h: "db_holds KS name N c db dir f" and KS: "prefix_safe KS" "op_key x \<in> KS" and room: "mem_room db x"
    and w: "db_log db = Some w"
    and add: "log_add (env_os env (LogFileName (dbname db) (log_number db))) x db w = (e, w')" "\<not> ok e"
  shows "DBImpl_op env x db dir = Some (e, db\<lparr>db_log := Some w'\<rparr>, dir)"
    and "left_holds KS name N (c + 1) f (db\<lparr>db_log := Some w'\<rparr>) dir"
proof -
  let ?db' = "db\<lparr>db_log := Some w'\<rparr>"
  obtain n bs nums disk tss es where up: "db_up name db dir n bs nums disk tss es" using h unfolding db_holds_def by blast
  obtain fs where fs: "writer_at w fs" "flushed (lw_file w) = length (content (lw_file w))"
    using up w by (auto simp: db_up_def)
  let ?data = "enc_batch (word_of_nat (n + num_ops bs)) [x]"
  have last: "unat (last_seq db) + 1 = n + num_ops bs" using up unfolding db_up_def by blast
  have stamp: "WriteBatch_set_sequence (last_seq db + 1) (enc_batch 0 [x]) = ?data"
    using next_sequence [OF last] by (simp add: set_sequence_enc_batch)
  have a: "LogWriter_AddRecord (env_os env (LogFileName (dbname db) (log_number db))) ?data w = (e, w')"
    using add(1) unfolding log_add_def op_record(1) [OF up room] .
  show "DBImpl_op env x db dir = Some (e, ?db', dir)"
    using add(2) unfolding DBImpl_op_Write DBImpl_Write_def stamp Let_def w option.case a by simp
  obtain k where k: "flushed (lw_file w') = flushed (lw_file w)" "content (lw_file w) = layout 0 fs"
    "length (layout 0 fs) \<le> length (content (lw_file w'))"
    using AddRecord_writer [OF fs(1) a] add(2) by fastforce
  have "DBImpl_Get uk ?db' = DBImpl_Get uk db" for uk
    unfolding DBImpl_Get_def by (simp split: option.split LookupState.split)
  then have "reads_ok KS ?db' f" using db_holds_reads [OF h KS(1)] by (simp add: reads_ok_def)
  moreover have "dir_holds KS name N (c + 1) dir2 f" if cr: "crash_dir ?db' dir dir2" for dir2
  proof -
    obtain m where "flushed (lw_file w') \<le> m"
      "dir2 = AList.update (LogFileName (dbname db) (log_number db)) (take m (content (lw_file w'))) dir"
      using cr unfolding crash_dir_def by (auto simp: crash_image_def)
    then show ?thesis using crash_write_holds [OF h KS(2) room w add(1)] add(2) fs(2) k(1) by simp
  qed
  moreover have "file_ok (lw_file w')" using k fs(2) by (simp add: file_ok_def)
  ultimately show "left_holds KS name N (c + 1) f ?db' dir" by (simp add: left_holds_def)
qed

lemma left_mono: "left_holds KS name N c f db dir \<Longrightarrow> N \<le> N' \<Longrightarrow> c \<le> c' \<Longrightarrow> left_holds KS name N' c' f db dir"
  unfolding left_holds_def using dir_holds_mono by blast

lemma db_run_inv:
  assumes "db_run KS name t p F" "prefix_safe KS" "t < 2 ^ 55"
  shows "run_inv KS name t p F"
  using assms(1,3)
proof (induction rule: db_run.induct)
  case (run_start dir)
  then show ?case
    using start_holds [OF run_start(1,2)] map_of_view_empty by (intro run_inv.simps(3) [THEN iffD2] exI conjI) auto
next
  case (run_open t dir F env s db dir')
  then obtain f where f: "map_of_view f \<in> F" "dir_holds KS name (2 * t + 1) (t + 1) dir f" by auto
  have "db_holds KS name (2 * t + 1 + 1) (t + 1) db dir' f"
    using DB_Open_any [OF f(2) _ _ _ run_open.hyps(2)] run_open.hyps(3) run_open.prems by auto
  then have "db_holds KS name (2 * Suc t + 1) (Suc t + 1) db dir' f" by (rule db_holds_mono) simp_all
  from db_holds_outcome [OF this assms(2)] show ?case using f(1) by auto
next
  case (run_open_fails t dir F env s dir')
  then obtain f where f: "map_of_view f \<in> F" "dir_holds KS name (2 * t + 1) (t + 1) dir f" by auto
  have "dir_holds KS name (2 * t + 1) (t + 1) dir' f"
    using DB_Open_any [OF f(2) _ _ _ run_open_fails.hyps(2)] run_open_fails.hyps(3) run_open_fails.prems by auto
  then show ?case using f(1) by auto
next
  case (run_write_fails t db dir F x env s db' dir')
  then obtain f where f: "map_of_view f \<in> F" "outcome KS name (2 * t + 1) (t + 1) f (IOError [], db, dir)" by auto
  obtain w where w: "db_log db = Some w" using run_write_fails.hyps(4) by blast
  have h: "db_holds KS name (2 * t + 1) (t + 1) db dir f" using outcome_holds [OF f(2)] w by simp
  obtain e w' where add: "log_add (env_os env (LogFileName (dbname db) (log_number db))) x db w = (e, w')" by fastforce
  then have "\<not> ok e" using run_write_fails.hyps(5) log_takes_ok [OF h w] by simp
  from failed_write_left [OF h assms(2) run_write_fails.hyps(2,3) w add this]
  have "left_holds KS name (2 * t + 1) (t + 1 + 1) f db' dir'" using run_write_fails.hyps(6) by simp
  then have "left_holds KS name (2 * Suc t + 1) (Suc t + 1) f db' dir'" by (rule left_mono) simp_all
  then show ?case using f(1) by auto
next
  case (run_write t db dir F x env s db' dir')
  then obtain f where f: "map_of_view f \<in> F" "outcome KS name (2 * t + 1) (t + 1) f (IOError [], db, dir)" by auto
  have "outcome KS name (2 * t + 1 + 2) (t + 1 + 1) (apply_op view_put view_delete x f) (s, db', dir')"
    using DBImpl_op_outcome [OF outcome_holds [OF f(2)] assms(2) run_write.hyps(2) _ _ run_write.hyps(5,3,4)]
      run_write.hyps(4,6) run_write.prems by (force simp: log_takes_def split: option.splits)
  then have "outcome KS name (2 * Suc t + 1) (Suc t + 1) (apply_op view_put view_delete x f) (IOError [], db', dir')"
    using outcome_weaken by simp
  then show ?case using f(1) map_of_view_op by (intro run_inv.simps(1) [THEN iffD2] exI conjI) auto
next
  case (run_crash t p F db dir dir')
  then show ?case using process_left [of KS name t p F db dir] by (auto simp: left_holds_def)
next
  case (run_close t p F db dir env)
  then obtain f where f: "map_of_view f \<in> F" "left_holds KS name (2 * t + 1) (t + 1) f db dir"
    using process_left [of KS name t p F db dir] by auto
  have "crash_dir db dir (DBImpl_destroy env db dir)" using DBImpl_destroy_crash f(2) by (simp add: left_holds_def)
  then show ?case using f by (auto simp: left_holds_def)
next
  case (run_crash_write t db dir F x w os s w' m dir')
  then obtain f where f: "map_of_view f \<in> F" "outcome KS name (2 * t + 1) (t + 1) f (IOError [], db, dir)" by auto
  have "db_holds KS name (2 * t + 1) (t + 1) db dir f" using outcome_holds [OF f(2)] run_crash_write.hyps(4) by simp
  from crash_write_holds [OF this run_crash_write.hyps(2-7)]
  have "dir_holds KS name (2 * Suc t + 1) (Suc t + 1) dir' f \<or>
      dir_holds KS name (2 * Suc t + 1) (Suc t + 1) dir' (apply_op view_put view_delete x f)"
    using dir_holds_mono by fastforce
  then show ?case using f(1) map_of_view_op [of x f] by auto
qed

section \<open>Environments and keys for examples\<close>

definition calm_env :: Env where
  "calm_env = \<lparr>env_os = \<lambda>_. good_os, env_scan = True, env_open = \<lambda>_. True, env_read = \<lambda>_. all_read, env_rename = \<lambda>_. True,
     env_remove = \<lambda>_. True, env_truncate = \<lambda>_. True, env_char = bump_new\<rparr>"

lemma calm_env [simp]: "perfect_env calm_env" "good_env calm_env" "write_env calm_env"
  by (simp_all add: perfect_env_def good_env_def open_env_def write_env_def reads_settled_def calm_env_def)

lemma calm_takes: "db_holds KS name N c db dir f \<Longrightarrow> log_takes calm_env x db"
  by (rule log_takes_never_short) (simp_all add: calm_env_def)

lemma good_env_reads: "good_env env \<Longrightarrow> open_reads env name"
  by (simp add: good_env_def open_reads_def reads_settled_def)

lemma calm_env_reads [simp]: "open_reads calm_env name"
  by (rule good_env_reads) simp

lemma prefix_safe_single [simp]: "prefix_safe {k}"
  by (simp add: prefix_safe_def)

text \<open>Keys without the bytes 0 and 1 are safe, text in particular.\<close>

lemma prefix_safe_text: "prefix_safe {k. \<forall>b \<in> set k. 1 < b}"
  unfolding prefix_safe_def
proof (intro ballI impI)
  fix a b :: bytes assume "b \<in> {k. \<forall>b \<in> set k. 1 < b}" "strict_prefix a b"
  moreover have "length a < length b" using prefix_length_less calculation(2) by blast
  ultimately show "1 < b ! length a" by simp
qed

lemma empty_db_usage:
  assumes "db_holds KS name N c db dir (\<lambda>_. kNotFoundState)"
  shows "ApproximateMemoryUsage (db_mem db) = sizeof_Node"
proof -
  obtain n bs nums disk tss es where up: "db_up name db dir n bs nums disk tss es"
    and v: "(\<lambda>_. kNotFoundState) = db_view bs disk" using assms unfolding db_holds_def by blast
  have m: "mem_rel (db_mem db) es" "entries_lookup es = ops_view (concat bs)" using up unfolding db_up_def by blast+
  have "ops_view (concat bs) uk = kNotFoundState" for uk
    using fun_cong [OF v, of uk] by (simp add: db_view_def layer_over_def split: if_splits)
  then have "es = []" using m(2) entries_lookup_NotFound [of es] by (cases es) auto
  then show ?thesis using mem_rel_usage [OF m(1)] by (simp add: mem_usage_def)
qed

lemma empty_db_room:
  assumes "db_holds KS name N c db dir (\<lambda>_. kNotFoundState)" "op_size x + 512 < 2 ^ 32"
  shows "mem_room db x"
  using assms(2) empty_db_usage [OF assms(1)] by (simp add: mem_room_def sizeof_Node_def kMaxHeight_def)

lemma empty_db:
  obtains db dir where "DB_Open calm_env name [] = Some (Status_OK, Some db, dir)"
    "db_holds KS name 2 1 db dir (\<lambda>_. kNotFoundState)"
proof -
  have "dir_holds KS name 1 1 [] (\<lambda>_. kNotFoundState)" by (rule start_holds) simp_all
  from DB_Open_holds [OF calm_env(2) this] obtain db dir where
    "DB_Open calm_env name [] = Some (Status_OK, Some db, dir)" "db_holds KS name (1 + 1) 1 db dir (\<lambda>_. kNotFoundState)"
    by auto
  then show ?thesis using that by (simp only: one_add_one)
qed

lemma reopen_reads:
  assumes "good_env env" "dir_holds KS name N c dir f" "prefix_safe KS" "N + 1 < 2 ^ 64" "1 \<le> N" "c \<le> 2 ^ 56"
  shows "\<exists>db dir'. DB_Open env name dir = Some (Status_OK, Some db, dir') \<and> reads_ok KS db f"
  using DB_Open_holds [OF assms(1,2,4-6)] db_holds_reads [OF _ assms(3)] by blast

lemma reads_ok_eq: "reads_ok KS db f \<Longrightarrow> reads_ok KS db' f \<Longrightarrow> uk \<in> KS \<Longrightarrow> DBImpl_Get uk db = DBImpl_Get uk db'"
  by (simp add: reads_ok_def)

text \<open>An outcome, seen from outside.\<close>

lemma left_seen:
  assumes "left_holds KS name N c f db dir" "prefix_safe KS" "N + 1 < 2 ^ 64" "1 \<le> N" "c \<le> 2 ^ 56"
  shows "\<forall>dir2 env2. crash_dir db dir dir2 \<longrightarrow> good_env env2 \<longrightarrow>
    (\<exists>db2 dir3. DB_Open env2 name dir2 = Some (Status_OK, Some db2, dir3) \<and>
      (\<forall>uk \<in> KS. DBImpl_Get uk db2 = DBImpl_Get uk db))"
proof (intro allI impI)
  fix dir2 env2 assume "crash_dir db dir dir2" "good_env env2"
  then obtain db2 dir3 where "DB_Open env2 name dir2 = Some (Status_OK, Some db2, dir3)" "reads_ok KS db2 f"
    using reopen_reads [OF _ _ assms(2-5)] assms(1) unfolding left_holds_def by blast
  then show "\<exists>db2 dir3. DB_Open env2 name dir2 = Some (Status_OK, Some db2, dir3) \<and>
      (\<forall>uk \<in> KS. DBImpl_Get uk db2 = DBImpl_Get uk db)"
    using reads_ok_eq assms(1) unfolding left_holds_def by blast
qed

lemmas outcome_seen = left_seen [OF outcome_left]

text \<open>An operation, whether the log takes its record or not.\<close>

lemma op_left:
  assumes h: "db_holds KS name N c db dir f" and KS: "prefix_safe KS" "op_key x \<in> KS"
    and N: "N + 2 < 2 ^ 64" "c + 1 \<le> 2 ^ 56" and env: "write_env env" "mem_room db x"
  shows "\<exists>s db' dir'. DBImpl_op env x db dir = Some (s, db', dir') \<and>
    left_holds KS name (N + 2) (c + 1) (if log_takes env x db then apply_op view_put view_delete x f else f) db' dir' \<and>
    (\<not> log_takes env x db \<longrightarrow> \<not> ok s \<and> dir' = dir) \<and>
    (perfect_env env \<longrightarrow> ok s \<and> ApproximateMemoryUsage (db_mem db') < kMaxMemTableBytes)"
proof (cases "log_takes env x db")
  case True
  from DBImpl_op_outcome [OF h KS N env True] obtain r where "DBImpl_op env x db dir = Some r"
    "outcome KS name (N + 2) (c + 1) (apply_op view_put view_delete x f) r"
    "perfect_env env \<longrightarrow> ok (fst r) \<and> ApproximateMemoryUsage (db_mem (fst (snd r))) < kMaxMemTableBytes" by blast
  then show ?thesis using True outcome_left by (cases r) fastforce
next
  case False
  obtain w where w: "db_log db = Some w" using h by (auto simp: db_holds_def db_up_def)
  obtain e w' where add: "log_add (env_os env (LogFileName (dbname db) (log_number db))) x db w = (e, w')" by fastforce
  then have "\<not> ok e" using False log_takes_ok [OF h w] by simp
  note l = failed_write_left [OF h KS env(2) w add this]
  have "\<not> perfect_env env" using False log_takes_never_short [OF h] by (auto simp: perfect_env_def)
  then show ?thesis using l left_mono [OF l(2), of "N + 2" "c + 1"] False \<open>\<not> ok e\<close> by simp
qed

lemma op_updates:
  assumes "db_holds KS name N c db dir f" "prefix_safe KS" "op_key x \<in> KS" "N + 3 < 2 ^ 64" "c < 2 ^ 56"
    and "write_env env" "mem_room db x"
  shows "\<exists>s db' dir'. DBImpl_op env x db dir = Some (s, db', dir') \<and> (ok s \<longrightarrow> log_takes env x db) \<and>
    (\<forall>uk \<in> KS. DBImpl_Get uk db' = Some (get_result uk ((if log_takes env x db then apply_op view_put view_delete x f else f) uk))) \<and>
    (\<forall>dir2 env2. crash_dir db' dir' dir2 \<longrightarrow> good_env env2 \<longrightarrow>
      (\<exists>db2 dir3. DB_Open env2 name dir2 = Some (Status_OK, Some db2, dir3) \<and>
        (\<forall>uk \<in> KS. DBImpl_Get uk db2 = DBImpl_Get uk db')))"
proof -
  let ?f = "if log_takes env x db then apply_op view_put view_delete x f else f"
  have N: "N + 2 < 2 ^ 64" "c + 1 \<le> 2 ^ 56" "N + 2 + 1 < 2 ^ 64" "1 \<le> N + 2" using assms(4,5) by simp_all
  obtain s db' dir' where r: "DBImpl_op env x db dir = Some (s, db', dir')" "left_holds KS name (N + 2) (c + 1) ?f db' dir'"
    "ok s \<longrightarrow> log_takes env x db"
    using op_left [OF assms(1-3) N(1,2) assms(6,7)] by blast
  have "\<forall>uk \<in> KS. DBImpl_Get uk db' = Some (get_result uk (?f uk))" using r(2) by (simp add: left_holds_def reads_ok_def)
  then show ?thesis using r(1,3) left_seen [OF r(2) assms(2) N(3,4,2)] by blast
qed

section \<open>Properties\<close>

text \<open>
  C1. The database answers as the map it should be, under the conditions in the steps of
  \<open>db_run\<close>: all keys written are of a set \<open>KS\<close> in which no key extends another one by a byte 0
  or 1 (\<open>prefix_safe\<close>), no flush fails in a write the log takes, the log is read whole when it is
  opened, each table file can be read or cannot, memtable and entry are below 4 GiB, and
  the first directory has no files of a database.  Then in every state a process can
  reach, by opening, writing, closing and crashing in any order and at any point of a
  write, each lookup of a key of \<open>KS\<close> returns what one of the possible maps holds, a single one
  for all keys; also when files failed to open, to be renamed, removed or to grow, and
  also after a write the log did not take, from where on the process only reads.
\<close>

theorem db_answers:
  assumes "db_run KS name t p F" "has_process p db dir" "prefix_safe KS" "t < 2 ^ 55"
  shows "\<exists>m \<in> F. \<forall>uk \<in> KS. DBImpl_Get uk db = Some (map_result m uk)"
proof -
  obtain f where "map_of_view f \<in> F" "left_holds KS name (2 * t + 1) (t + 1) f db dir"
    using process_left [OF db_run_inv [OF assms(1,3,4)] assms(2)] by blast
  then show ?thesis by (auto simp: left_holds_def reads_ok_def get_result_map)
qed

theorem db_answers_witness:
  "\<exists>db dir. DB_Open calm_env (str ''db'') [] = Some (Status_OK, Some db, dir) \<and>
     DBImpl_Get (str ''k'') db = Some (NotFound (str ''k''), None)"
proof -
  obtain db dir where o: "DB_Open calm_env (str ''db'') [] = Some (Status_OK, Some db, dir)"
    using empty_db by blast
  have "db_run {str ''k''} (str ''db'') 0 (Down []) {Map.empty}" by (rule run_start) simp_all
  from run_open [OF this calm_env_reads o] have "db_run {str ''k''} (str ''db'') (Suc 0) (Up db dir) {Map.empty}" by simp
  from db_answers [OF this, of db dir] show ?thesis using o by (simp add: has_process_def map_result_def)
qed

text \<open>
  C2. What a process has left behind can be opened again: after any history of \<open>db_run\<close>, so with
  keys of a \<open>prefix_safe\<close> set and with no failed flush in a write the log takes (after one
  C17 can happen), that ends with a close or a crash, \<open>DB::Open\<close> succeeds if the system
  opens, reads, removes and truncates files, and the new process answers the keys of the
  set as one of the possible maps.
\<close>

theorem db_reopens:
  assumes "db_run KS name t (Down dir) F" "prefix_safe KS" "t < 2 ^ 55" "good_env env"
  shows "\<exists>db dir'. DB_Open env name dir = Some (Status_OK, Some db, dir') \<and>
    (\<exists>m \<in> F. \<forall>uk \<in> KS. DBImpl_Get uk db = Some (map_result m uk))"
proof -
  obtain f where f: "map_of_view f \<in> F" "dir_holds KS name (2 * t + 1) (t + 1) dir f"
    using db_run_inv [OF assms(1-3)] by auto
  obtain db dir' where o: "DB_Open env name dir = Some (Status_OK, Some db, dir')"
    "db_holds KS name (2 * t + 1 + 1) (t + 1) db dir' f"
    using DB_Open_holds [OF assms(4) f(2)] assms(3) by auto
  have "reads_ok KS db f" using db_holds_reads [OF o(2) assms(2)] .
  then show ?thesis using o(1) f(1) by (auto simp: reads_ok_def get_result_map)
qed

theorem db_reopens_witness:
  "\<exists>db dir'. DB_Open calm_env (str ''db'') [(str ''db/LOCK'', [1])] = Some (Status_OK, Some db, dir')"
proof -
  have "ParseFileName (str ''db/LOCK'') = None" by code_simp
  then have "db_run {} (str ''db'') 0 (Down [(str ''db/LOCK'', [1])]) {Map.empty}" by (intro run_start) simp_all
  from db_reopens [OF this _ _ calm_env(2)] show ?thesis by (auto simp: prefix_safe_def)
qed



text \<open>
  C9. An opening that fails does no harm.  Assume that the log is read whole (C19 is what a failed
  read of it does), that each table file can be read or cannot, and that all keys written
  are of a \<open>prefix_safe\<close> set.  Then, whether or not the system scans the directory, opens
  files, removes and truncates them, \<open>DB::Open\<close> comes back, and either the new process
  answers these keys as one of the possible maps, or it reports the failure and leaves a
  directory from which the next opening, if that is let, brings up one of them.
\<close>

theorem db_open_fails_cleanly:
  assumes "db_run KS name t (Down dir) F" "prefix_safe KS" "t < 2 ^ 55" "open_reads env name" "good_env env2"
  shows "(\<exists>db dir'. DB_Open env name dir = Some (Status_OK, Some db, dir') \<and>
      (\<exists>m \<in> F. \<forall>uk \<in> KS. DBImpl_Get uk db = Some (map_result m uk))) \<or>
    (\<exists>s dir' db dir2. DB_Open env name dir = Some (s, None, dir') \<and> \<not> ok s \<and>
      DB_Open env2 name dir' = Some (Status_OK, Some db, dir2) \<and>
      (\<exists>m \<in> F. \<forall>uk \<in> KS. DBImpl_Get uk db = Some (map_result m uk)))"
proof -
  obtain f where f: "map_of_view f \<in> F" "dir_holds KS name (2 * t + 1) (t + 1) dir f"
    using db_run_inv [OF assms(1-3)] by auto
  have N: "2 * t + 1 + 1 < 2 ^ 64" "1 \<le> 2 * t + 1" "t + 1 \<le> 2 ^ 56" using assms(3) by simp_all
  have ans: "\<exists>m \<in> F. \<forall>uk \<in> KS. DBImpl_Get uk db = Some (map_result m uk)" if "reads_ok KS db f" for db
    using that f(1) by (auto simp: reads_ok_def get_result_map)
  obtain s opened dir' where o: "DB_Open env name dir = Some (s, opened, dir')"
    "case opened of None \<Rightarrow> \<not> ok s \<and> dir_holds KS name (2 * t + 1) (t + 1) dir' f
     | Some db \<Rightarrow> s = Status_OK \<and> db_holds KS name (2 * t + 1 + 1) (t + 1) db dir' f"
    using DB_Open_any [OF f(2) N assms(4)] by blast
  show ?thesis
  proof (cases opened)
    case None
    then have n: "\<not> ok s" "dir_holds KS name (2 * t + 1) (t + 1) dir' f" using o(2) by simp_all
    obtain db dir2 where "DB_Open env2 name dir' = Some (Status_OK, Some db, dir2)" "reads_ok KS db f"
      using reopen_reads [OF assms(5) n(2) assms(2) N] by blast
    then show ?thesis using o(1) None n(1) ans [of db] by blast
  next
    case (Some db)
    then have "s = Status_OK" "db_holds KS name (2 * t + 1 + 1) (t + 1) db dir' f" using o(2) by simp_all
    then show ?thesis using o(1) Some ans [OF db_holds_reads [OF _ assms(2)]] by blast
  qed
qed

theorem db_open_fails_cleanly_witness:
  "\<exists>s dir' db dir2. DB_Open (calm_env\<lparr>env_open := \<lambda>_. False\<rparr>) (str ''db'') [] = Some (s, None, dir') \<and>
     \<not> ok s \<and> DB_Open calm_env (str ''db'') dir' = Some (Status_OK, Some db, dir2)"
proof -
  let ?env = "calm_env\<lparr>env_open := \<lambda>_. False\<rparr>"
  have "db_run {} (str ''db'') 0 (Down []) {Map.empty}" by (rule run_start) simp_all
  moreover have "open_reads ?env (str ''db'')" by (simp add: open_reads_def reads_settled_def calm_env_def)
  moreover have "\<exists>s dir'. DB_Open ?env (str ''db'') [] = Some (s, None, dir')"
    by (simp add: DB_Open_def Init_def DBImpl_new_def calm_env_def ListFiles_def List.map_filter_simps Let_def)
  ultimately show ?thesis
    using db_open_fails_cleanly [of "{}" "str ''db''" 0 "[]" "{Map.empty}" ?env calm_env] by (auto simp: prefix_safe_def)
qed

text \<open>
  C8. A write the log does not take does nothing: when a short \<open>fwrite\<close> keeps some byte of its
  record out of the stream of the log, \<open>Put\<close> and \<open>Delete\<close> return an error, and the keys of a
  \<open>prefix_safe\<close> set are answered as before, by the process and by the database opened
  after a crash, whatever part of the record the file has got.  (A record that is in the
  stream but does not reach the disk since \<open>fflush\<close> fails is another matter, see C33.)
\<close>

theorem db_failed_write_no_effect:
  assumes "db_holds KS name N c db dir f" "prefix_safe KS" "op_key x \<in> KS" "N + 1 < 2 ^ 64" "1 \<le> N" "c + 1 \<le> 2 ^ 56"
    and "mem_room db x" "\<not> log_takes env x db"
  shows "\<exists>s db'. DBImpl_op env x db dir = Some (s, db', dir) \<and> \<not> ok s \<and>
    (\<forall>uk \<in> KS. DBImpl_Get uk db' = DBImpl_Get uk db) \<and>
    (\<forall>dir2 env2. crash_dir db' dir dir2 \<longrightarrow> good_env env2 \<longrightarrow>
      (\<exists>db2 dir3. DB_Open env2 name dir2 = Some (Status_OK, Some db2, dir3) \<and>
        (\<forall>uk \<in> KS. DBImpl_Get uk db2 = DBImpl_Get uk db)))"
proof -
  obtain w where w: "db_log db = Some w" using assms(1) by (auto simp: db_holds_def db_up_def)
  obtain e w' where add: "log_add (env_os env (LogFileName (dbname db) (log_number db))) x db w = (e, w')" by fastforce
  then have e: "\<not> ok e" using assms(8) log_takes_ok [OF assms(1) w] by simp
  note r = failed_write_left(1) [OF assms(1-3,7) w add e] and l = failed_write_left(2) [OF assms(1-3,7) w add e]
  have "reads_ok KS db f" using db_holds_reads [OF assms(1,2)] .
  then have get: "DBImpl_Get uk db' = DBImpl_Get uk db" if "reads_ok KS db' f" "uk \<in> KS" for db' uk
    using that by (simp add: reads_ok_def)
  have "\<exists>db2 dir3. DB_Open env2 name dir2 = Some (Status_OK, Some db2, dir3) \<and>
      (\<forall>uk \<in> KS. DBImpl_Get uk db2 = DBImpl_Get uk db)"
    if "crash_dir (db\<lparr>db_log := Some w'\<rparr>) dir dir2" "good_env env2" for dir2 env2
    using reopen_reads [OF that(2) _ assms(2,4-6)] l that(1) get unfolding left_holds_def by metis
  then show ?thesis using r e l get unfolding left_holds_def by blast
qed

theorem db_failed_write_no_effect_witness:
  "\<exists>db dir s db'. DB_Open calm_env (str ''db'') [] = Some (Status_OK, Some db, dir) \<and>
     DBImpl_Put (calm_env\<lparr>env_os := \<lambda>_. good_os\<lparr>os_write := \<lambda>_ _. 3\<rparr>\<rparr>) (str ''k'') (str ''v'') db dir = Some (s, db', dir) \<and>
     \<not> ok s \<and> DBImpl_Get (str ''k'') db' = DBImpl_Get (str ''k'') db"
proof -
  obtain db dir where o: "DB_Open calm_env (str ''db'') [] = Some (Status_OK, Some db, dir)"
    "db_holds {str ''k''} (str ''db'') 2 1 db dir (\<lambda>_. kNotFoundState)"
    using empty_db by blast
  let ?x = "OpPut (str ''k'') (str ''v'')" and ?os = "good_os\<lparr>os_write := \<lambda>_ _. 3\<rparr>"
  obtain w where w: "db_log db = Some w" using o(2) by (auto simp: db_holds_def db_up_def)
  have room: "mem_room db ?x" using empty_db_room [OF o(2)] by (simp add: str_def)
  have "\<not> ok (fst (LogWriter_AddRecord ?os data w))" for data
    by (simp add: LogWriter_AddRecord_def AddRecord_loop.simps pad_block_def EmitPhysicalRecord_def fwrite_def
        kHeaderSize_def Let_def)
  then have "\<not> log_takes (calm_env\<lparr>env_os := \<lambda>_. ?os\<rparr>) ?x db"
    unfolding log_takes_ok [OF o(2) w] log_add_def by simp
  from db_failed_write_no_effect [OF o(2) prefix_safe_single _ _ _ _ room this] o(1) show ?thesis
    by (auto simp: DBImpl_op_def)
qed

text \<open>
  C3. One \<open>Put\<close> of a key of a \<open>prefix_safe\<close> set, seen from outside, when no flush fails and each file
  can be read or cannot: if the log takes its record, which is so whenever it reports
  success, the key has the value and no other key of the set has changed; otherwise no
  key has changed.  The database opened after a crash answers the same.  This holds also
  if the flush of the memtable it has started fails in opening, writing, renaming or
  removing a file.
\<close>

theorem db_put_updates:
  assumes "db_holds KS name N c db dir f" "prefix_safe KS" "key \<in> KS" "N + 3 < 2 ^ 64" "c < 2 ^ 56"
    and "write_env env" "mem_room db (OpPut key value)"
  shows "\<exists>s db' dir'. DBImpl_Put env key value db dir = Some (s, db', dir') \<and>
    (ok s \<longrightarrow> log_takes env (OpPut key value) db) \<and>
    (\<forall>uk \<in> KS. DBImpl_Get uk db' =
      (if uk = key \<and> log_takes env (OpPut key value) db then Some (Status_OK, Some value) else DBImpl_Get uk db)) \<and>
    (\<forall>dir2 env2. crash_dir db' dir' dir2 \<longrightarrow> good_env env2 \<longrightarrow>
      (\<exists>db2 dir3. DB_Open env2 name dir2 = Some (Status_OK, Some db2, dir3) \<and>
        (\<forall>uk \<in> KS. DBImpl_Get uk db2 = DBImpl_Get uk db')))"
proof -
  have "DBImpl_Get uk db = Some (get_result uk (f uk))" if "uk \<in> KS" for uk
    using that db_holds_reads [OF assms(1,2)] by (simp add: reads_ok_def)
  moreover have "op_key (OpPut key value) \<in> KS" using assms(3) by simp
  from op_updates [OF assms(1,2) this assms(4-7)] show ?thesis
    unfolding DBImpl_op_def op.case by (elim exE conjE, intro exI conjI) (assumption | simp add: calculation view_put_def get_result_def)+
qed

theorem db_put_updates_witness:
  "\<exists>db dir s db' dir'. DB_Open calm_env (str ''db'') [] = Some (Status_OK, Some db, dir) \<and>
     DBImpl_Put calm_env (str ''k'') (str ''v'') db dir = Some (s, db', dir') \<and>
     DBImpl_Get (str ''k'') db' = Some (Status_OK, Some (str ''v''))"
proof -
  obtain db dir where o: "DB_Open calm_env (str ''db'') [] = Some (Status_OK, Some db, dir)"
    "db_holds {str ''k''} (str ''db'') 2 1 db dir (\<lambda>_. kNotFoundState)"
    using empty_db by blast
  have "mem_room db (OpPut (str ''k'') (str ''v''))" using empty_db_room [OF o(2)] by (simp add: str_def)
  from db_put_updates [OF o(2) prefix_safe_single _ _ _ calm_env(3) this] show ?thesis
    using o(1) calm_takes [OF o(2)] by auto
qed

text \<open>
  C4. \<open>Delete\<close> likewise, under the same conditions: if the log takes the record, which is so
  whenever success is reported, the key is gone, also if tables below still hold values
  of it, and it does not come back with a crash; the other keys of the set have not
  changed.
\<close>

theorem db_delete_hides:
  assumes "db_holds KS name N c db dir f" "prefix_safe KS" "key \<in> KS" "N + 3 < 2 ^ 64" "c < 2 ^ 56"
    and "write_env env" "mem_room db (OpDelete key)"
  shows "\<exists>s db' dir'. DBImpl_Delete env key db dir = Some (s, db', dir') \<and>
    (ok s \<longrightarrow> log_takes env (OpDelete key) db) \<and>
    (\<forall>uk \<in> KS. DBImpl_Get uk db' =
      (if uk = key \<and> log_takes env (OpDelete key) db then Some (NotFound key, None) else DBImpl_Get uk db)) \<and>
    (\<forall>dir2 env2. crash_dir db' dir' dir2 \<longrightarrow> good_env env2 \<longrightarrow>
      (\<exists>db2 dir3. DB_Open env2 name dir2 = Some (Status_OK, Some db2, dir3) \<and>
        (\<forall>uk \<in> KS. DBImpl_Get uk db2 = DBImpl_Get uk db')))"
proof -
  have "DBImpl_Get uk db = Some (get_result uk (f uk))" if "uk \<in> KS" for uk
    using that db_holds_reads [OF assms(1,2)] by (simp add: reads_ok_def)
  moreover have "op_key (OpDelete key) \<in> KS" using assms(3) by simp
  from op_updates [OF assms(1,2) this assms(4-7)] show ?thesis
    unfolding DBImpl_op_def op.case by (elim exE conjE, intro exI conjI) (assumption | simp add: calculation view_delete_def get_result_def)+
qed

theorem db_delete_hides_witness:
  "\<exists>db dir s db' dir'. DB_Open calm_env (str ''db'') [] = Some (Status_OK, Some db, dir) \<and>
     DBImpl_Delete calm_env (str ''k'') db dir = Some (s, db', dir') \<and>
     DBImpl_Get (str ''k'') db' = Some (NotFound (str ''k''), None)"
proof -
  obtain db dir where o: "DB_Open calm_env (str ''db'') [] = Some (Status_OK, Some db, dir)"
    "db_holds {str ''k''} (str ''db'') 2 1 db dir (\<lambda>_. kNotFoundState)"
    using empty_db by blast
  have "mem_room db (OpDelete (str ''k''))" using empty_db_room [OF o(2)] by (simp add: str_def)
  from db_delete_hides [OF o(2) prefix_safe_single _ _ _ calm_env(3) this] show ?thesis
    using o(1) calm_takes [OF o(2)] by auto
qed

text \<open>
  C5. A flush in which no \<open>fflush\<close> and \<open>fclose\<close> fails and each file can be read or cannot changes nothing
  that lookups of the keys of a \<open>prefix_safe\<close> set show: wherever else \<open>FlushMemTable\<close> fails,
  in opening, writing short, renaming, removing or reading back, and when it succeeds,
  they are answered as before, and so they are by the database that is opened after a
  crash at that point.  (A failed flush is C17.)
\<close>

theorem db_flush_keeps_map:
  assumes "db_holds KS name N c db dir f" "prefix_safe KS" "N + 3 < 2 ^ 64" "c \<le> 2 ^ 56"
    and "\<And>p. flushes (env_os env p)" "reads_settled env" "ApproximateMemoryUsage (db_mem db) + 64 < 2 ^ 32"
  shows "\<exists>s db' dir'. FlushMemTable env db dir = Some (s, db', dir') \<and>
    (\<forall>uk \<in> KS. DBImpl_Get uk db' = DBImpl_Get uk db) \<and>
    (\<forall>dir2 env2. crash_dir db' dir' dir2 \<longrightarrow> good_env env2 \<longrightarrow>
      (\<exists>db2 dir3. DB_Open env2 name dir2 = Some (Status_OK, Some db2, dir3) \<and>
        (\<forall>uk \<in> KS. DBImpl_Get uk db2 = DBImpl_Get uk db')))"
proof -
  obtain n bs nums disk tss es where up: "db_up name db dir n bs nums disk tss es"
    and f: "f = db_view bs disk" "f = db_view bs tss" and k: "keys_within KS f"
    and b: "unat (next_file_number db) \<le> N" "n + num_ops bs \<le> c"
    using assms(1) unfolding db_holds_def by blast
  have N: "unat (next_file_number db) + 2 \<le> N + 2" "N + 2 < 2 ^ 64" "N + 2 + 1 < 2 ^ 64" "1 \<le> N + 2"
    using b(1) assms(3) by simp_all
  obtain r where r: "FlushMemTable env db dir = Some r" "outcome KS name (N + 2) c f r"
    using FlushMemTable_outcome [OF up f k assms(2) N(1,2) b(2) assms(5-7)] by blast
  obtain s db' dir' where r': "r = (s, db', dir')" by (cases r)
  have "reads_ok KS db f" using db_holds_reads [OF assms(1,2)] .
  moreover have "reads_ok KS db' f" using r(2) r' by (simp add: outcome_def)
  ultimately have "\<forall>uk \<in> KS. DBImpl_Get uk db' = DBImpl_Get uk db" by (simp add: reads_ok_def)
  then show ?thesis
    using r outcome_seen [of KS name "N + 2" c f s db' dir'] assms(2,4) N r' by simp
qed

theorem db_flush_keeps_map_witness:
  "\<exists>db dir s db' dir'. DB_Open calm_env (str ''db'') [] = Some (Status_OK, Some db, dir) \<and>
     FlushMemTable calm_env db dir = Some (s, db', dir') \<and> DBImpl_Get (str ''k'') db' = DBImpl_Get (str ''k'') db"
proof -
  obtain db dir where o: "DB_Open calm_env (str ''db'') [] = Some (Status_OK, Some db, dir)"
    "db_holds {str ''k''} (str ''db'') 2 1 db dir (\<lambda>_. kNotFoundState)"
    using empty_db by blast
  have "ApproximateMemoryUsage (db_mem db) + 64 < 2 ^ 32"
    using empty_db_room [OF o(2), of "OpDelete []"] by (simp add: mem_room_def)
  from db_flush_keeps_map [OF o(2) prefix_safe_single _ _ _ _ this, of calm_env] show ?thesis
    using o(1) by (auto simp: calm_env_def reads_settled_def)
qed

text \<open>
  C6. A crash in the middle of a write is all or nothing, for the keys of a \<open>prefix_safe\<close> set: whatever
  part of the record has reached the log by then, whether or not \<open>AddRecord\<close> would have
  succeeded, the database opens again and answers everywhere as before the write or
  everywhere as after it; as after it only if it would have.
\<close>

theorem db_crash_write_atomic:
  assumes "db_holds KS name N c db dir f" "prefix_safe KS" "op_key x \<in> KS" "N + 1 < 2 ^ 64" "1 \<le> N" "c + 1 \<le> 2 ^ 56"
    and "mem_room db x" "db_log db = Some w"
    and "log_add os x db w = (s, w')"
    and "length (content (lw_file w)) \<le> m" "good_env env"
  shows "\<exists>db2 dir2. DB_Open env name (AList.update (LogFileName (dbname db) (log_number db))
      (take m (content (lw_file w'))) dir) = Some (Status_OK, Some db2, dir2) \<and>
    ((\<forall>uk \<in> KS. DBImpl_Get uk db2 = Some (map_result (map_of_view f) uk)) \<or>
     ok s \<and> (\<forall>uk \<in> KS. DBImpl_Get uk db2 = Some (map_result (map_op x (map_of_view f)) uk)))"
proof -
  let ?dir = "AList.update (LogFileName (dbname db) (log_number db)) (take m (content (lw_file w'))) dir"
  have "dir_holds KS name N (c + 1) ?dir f \<or> ok s \<and> dir_holds KS name N (c + 1) ?dir (apply_op view_put view_delete x f)"
    using crash_write_holds [OF assms(1,3,7,8,9,10) refl] .
  then show ?thesis
    using reopen_reads [OF assms(11) _ assms(2,4-6)] by (fastforce simp: reads_ok_def get_result_map map_of_view_op)
qed

theorem db_crash_write_atomic_witness:
  "\<exists>db dir w db2 dir2. DB_Open calm_env (str ''db'') [] = Some (Status_OK, Some db, dir) \<and> db_log db = Some w \<and>
     DB_Open calm_env (str ''db'') (AList.update (LogFileName (dbname db) (log_number db))
       (content (lw_file (snd (log_add good_os (OpPut (str ''k'') (str ''v'')) db w)))) dir) =
       Some (Status_OK, Some db2, dir2)"
proof -
  obtain db dir where o: "DB_Open calm_env (str ''db'') [] = Some (Status_OK, Some db, dir)"
    "db_holds {str ''k''} (str ''db'') 2 1 db dir (\<lambda>_. kNotFoundState)"
    using empty_db by blast
  let ?x = "OpPut (str ''k'') (str ''v'')"
  obtain w where w: "db_log db = Some w" using o(2) by (auto simp: db_holds_def db_up_def)
  let ?r = "log_add good_os ?x db w"
  have "mem_room db ?x" using empty_db_room [OF o(2)] by (simp add: str_def)
  moreover obtain s w' where r: "?r = (s, w')" by fastforce
  moreover have "length (content (lw_file w)) \<le> length (content (lw_file w')) + length (content (lw_file w))" by simp
  ultimately show ?thesis
    using db_crash_write_atomic [OF o(2) prefix_safe_single _ _ _ _ _ w r, of
      "length (content (lw_file w')) + length (content (lw_file w))" calm_env] o(1) w r by force
qed

text \<open>
  C10. Numbers in a reachable state: file numbers grow by at most two and the sequence number
  by at most one with each step, the current log is in the directory under a number
  below the next one, and no file name is there twice.
\<close>

theorem db_run_numbers:
  assumes "db_run KS name t (Up db dir) F" "prefix_safe KS" "t < 2 ^ 55" "db_log db \<noteq> None"
  shows "unat (last_seq db) \<le> t \<and> unat (next_file_number db) \<le> 2 * t + 1 \<and>
    log_number db < next_file_number db \<and> LogFileName name (log_number db) \<in> fst ` set dir \<and>
    distinct (map fst dir) \<and>
    (\<forall>p \<in> fst ` set dir. \<forall>n ft. ParseFileName p = Some (n, ft) \<longrightarrow> n < next_file_number db)"
proof -
  obtain f where "outcome KS name (2 * t + 1) (t + 1) f (IOError [], db, dir)"
    using db_run_inv [OF assms(1-3)] by auto
  from outcome_holds [OF this assms(4)] obtain n bs nums disk tss es where
    up: "db_up name db dir n bs nums disk tss es" and b: "unat (next_file_number db) \<le> 2 * t + 1" "n + num_ops bs \<le> t + 1"
    unfolding db_holds_def by blast
  have names: "names_ok name (unat (next_file_number db)) dir (set nums) {log_number db}"
    and "unat (last_seq db) + 1 = n + num_ops bs" using up unfolding db_up_def by blast+
  moreover have "n' < next_file_number db" if "p \<in> fst ` set dir" "ParseFileName p = Some (n', ft)" for p n' ft
    using names_okD [OF names that] by (simp only: word_less_nat_alt)
  moreover have "LogFileName name (log_number db) \<in> fst ` set dir" using names_ok_log [OF names] by simp
  moreover have "log_number db < next_file_number db"
    using calculation(3) [OF calculation(4), of "log_number db" kLogFile] by simp
  ultimately show ?thesis using b names_ok_files(3) [OF names] by auto
qed

theorem db_run_numbers_witness:
  "\<exists>db dir. DB_Open calm_env (str ''db'') [] = Some (Status_OK, Some db, dir) \<and> unat (last_seq db) \<le> 1"
proof -
  obtain db dir where o: "DB_Open calm_env (str ''db'') [] = Some (Status_OK, Some db, dir)"
    "db_holds {} (str ''db'') 2 1 db dir (\<lambda>_. kNotFoundState)"
    using empty_db by blast
  have r: "db_run {} (str ''db'') (Suc 0) (Up db dir) {Map.empty}"
    by (rule run_open [OF run_start calm_env_reads o(1)]) simp_all
  have "db_log db \<noteq> None" using o(2) by (auto simp: db_holds_def db_up_def)
  from db_run_numbers [OF r _ _ this] show ?thesis using o(1) by (auto simp: prefix_safe_def)
qed

end
