(* ===== verification/DbFaults.thy ===== *)
theory DbFaults
  imports DbRun
begin

text \<open>
  What the failures of the system that the code does not handle lead to: a log that is
  gone makes the next write undefined, and a flush whose bytes never reach the disk
  leaves a database that cannot be opened.
\<close>

section \<open>The log is gone\<close>

lemma mem_nonempty: "mem_rel m es \<Longrightarrow> sizeof_Node < ApproximateMemoryUsage m \<Longrightarrow> es \<noteq> []"
  using mem_rel_usage [of m es] by (auto simp: mem_usage_def)

text \<open>
  C16. If the old log cannot be removed after its table is in place, \<open>FlushMemTable\<close> reports
  the error but has closed the log already; the next \<open>Put\<close> or \<open>Delete\<close> uses the null
  pointer: undefined behaviour.
\<close>

theorem write_after_lost_log_undefined:
  assumes "db_holds KS name N c db dir f" "prefix_safe KS" "N + 2 < 2 ^ 64"
    and "sizeof_Node < ApproximateMemoryUsage (db_mem db)" "ApproximateMemoryUsage (db_mem db) + 64 < 2 ^ 32"
    and "\<And>p. flushes (env_os env p) \<and> never_short (env_os env p) \<and> tells (env_os env p)"
    and "\<And>p. env_open env p \<and> env_rename env p \<and> \<not> env_remove env p \<and> env_read env p = all_read"
  shows "\<exists>s db' dir'. FlushMemTable env db dir = Some (s, db', dir') \<and> \<not> ok s \<and>
    (\<forall>env2 key value. DBImpl_Put env2 key value db' dir' = None \<and> DBImpl_Delete env2 key db' dir' = None)"
proof -
  obtain n bs nums disk tss es where up: "db_up name db dir n bs nums disk tss es"
    and f: "f = db_view bs disk" "f = db_view bs tss" and k: "keys_within KS f"
    and b: "unat (next_file_number db) \<le> N" "n + num_ops bs \<le> c"
    using assms(1) unfolding db_holds_def by blast
  have "mem_rel (db_mem db) es" using up unfolding db_up_def by blast
  from mem_nonempty [OF this assms(4)] have ne: "es \<noteq> []" .
  have N: "unat (next_file_number db) + 2 \<le> N + 2" using b(1) by simp
  obtain r where r: "FlushMemTable env db dir = Some r" "\<not> ok (fst r)" "db_log (fst (snd r)) = None"
    using FlushMemTable_outcome [OF up f k assms(2) N assms(3) b(2) _ _ assms(5), of env] assms(6,7) ne unfolding reads_settled_def by blast
  then show ?thesis
    by (cases r) (simp add: DBImpl_Put_def DBImpl_Delete_def DBImpl_Write_def Let_def)
qed

text \<open>A new database, and one with a value in its memtable.\<close>

lemma calm_open_empty: "DB_Open calm_env name [] = Some (s, Some db, dir) \<Longrightarrow> dir = [(LogFileName name 1, [])]"
  by (simp add: DB_Open_def Init_def DBImpl_new_def calm_env_def ListFiles_def List.map_filter_simps dir_create_def
      Let_def split: if_splits)

lemma one_value_db:
  obtains db dir f where
    "db_holds {str ''k''} (str ''db'') 4 2 db dir f" "sizeof_Node < ApproximateMemoryUsage (db_mem db)"
    "ApproximateMemoryUsage (db_mem db) < 1024" "dir = [(LogFileName (str ''db'') 1, [])]"
    "\<exists>db0 dir0. DB_Open calm_env (str ''db'') [] = Some (Status_OK, Some db0, dir0) \<and>
      (\<exists>s. DBImpl_Put calm_env (str ''k'') (str ''v'') db0 dir0 = Some (s, db, dir))"
proof -
  obtain db dir where o: "DB_Open calm_env (str ''db'') [] = Some (Status_OK, Some db, dir)"
    "db_holds {str ''k''} (str ''db'') 2 1 db dir (\<lambda>_. kNotFoundState)"
    using empty_db by blast
  let ?x = "OpPut (str ''k'') (str ''v'')"
  have us: "ApproximateMemoryUsage (db_mem db) = sizeof_Node" using empty_db_usage [OF o(2)] .
  have room: "mem_room db ?x" using empty_db_room [OF o(2)] by (simp add: str_def)
  obtain s db' dir' where r: "DBImpl_op calm_env ?x db dir = Some (s, db', dir')"
    "outcome {str ''k''} (str ''db'') (2 + 2) (1 + 1) (apply_op view_put view_delete ?x (\<lambda>_. kNotFoundState)) (s, db', dir')"
    "ok s" "ApproximateMemoryUsage (db_mem db') = sizeof_Node + op_size ?x + sizeof_Node + 8" "dir' = dir"
    using DBImpl_op_outcome [OF o(2) prefix_safe_single _ _ _ calm_env(3) room calm_takes [OF o(2)]] us
    by (fastforce simp: str_def sizeof_Node_def kMaxHeight_def kMaxMemTableBytes_def)
  have "db_log db' \<noteq> None" using r(2,3) by (simp add: outcome_def)
  then have "db_holds {str ''k''} (str ''db'') 4 2 db' dir' (apply_op view_put view_delete ?x (\<lambda>_. kNotFoundState))"
    by (intro db_holds_mono [OF outcome_holds [OF r(2)]]) simp_all
  from that [OF this] show ?thesis
    using o(1) r(1,4,5) calm_open_empty [OF o(1)] by (auto simp: DBImpl_op_def str_def sizeof_Node_def kMaxHeight_def)
qed

theorem write_after_lost_log_undefined_witness:
  "\<exists>db0 dir0 s0 db dir s db' dir'. DB_Open calm_env (str ''db'') [] = Some (Status_OK, Some db0, dir0) \<and>
     DBImpl_Put calm_env (str ''k'') (str ''v'') db0 dir0 = Some (s0, db, dir) \<and>
     FlushMemTable (calm_env\<lparr>env_remove := \<lambda>_. False\<rparr>) db dir = Some (s, db', dir') \<and> \<not> ok s \<and>
     DBImpl_Put calm_env (str ''k'') (str ''w'') db' dir' = None"
proof -
  obtain db dir f where h: "db_holds {str ''k''} (str ''db'') 4 2 db dir f" "sizeof_Node < ApproximateMemoryUsage (db_mem db)"
    "ApproximateMemoryUsage (db_mem db) < 1024"
    and o: "\<exists>db0 dir0. DB_Open calm_env (str ''db'') [] = Some (Status_OK, Some db0, dir0) \<and>
      (\<exists>s. DBImpl_Put calm_env (str ''k'') (str ''v'') db0 dir0 = Some (s, db, dir))"
    by (rule one_value_db)
  have "ApproximateMemoryUsage (db_mem db) + 64 < 2 ^ 32" using h(3) by simp
  from write_after_lost_log_undefined [OF h(1) prefix_safe_single _ h(2) this, of "calm_env\<lparr>env_remove := \<lambda>_. False\<rparr>"] o
  show ?thesis by (auto simp: calm_env_def)
qed

section \<open>A flush that never reaches the disk\<close>

lemma never_flushed:
  assumes nf: "\<And>k. \<not> os_flush os k"
  shows "flushed (snd (fflush os f)) = flushed f"
    and "flushed (snd (snd (WriteBlock os contents h f))) = flushed f"
    and "flushed (tb_file (snd (FlushDataBlock os tb))) = flushed (tb_file tb)"
    and "flushed (tb_file (snd (TableBuilder_Add os key val tb))) = flushed (tb_file tb)"
    and "flushed (tb_file (snd (TableBuilder_Finish os tb))) = flushed (tb_file tb)"
proof -
  show fl: "flushed (snd (fflush os f)) = flushed f" for f using nf by (simp add: fflush_def)
  show wb: "flushed (snd (snd (WriteBlock os contents h f))) = flushed f" for contents h f
    by (simp add: WriteBlock_def fwrite_def Let_def split: option.split)
  show fd: "flushed (tb_file (snd (FlushDataBlock os tb))) = flushed (tb_file tb)" for tb
    using wb [of "fst (BlockBuilder_Finish (tb_data tb))" BlockHandle_new "tb_file tb"]
    by (auto simp: FlushDataBlock_def Let_def split: prod.splits)
  show "flushed (tb_file (snd (TableBuilder_Add os key val tb))) = flushed (tb_file tb)"
    using fd [of "tb\<lparr>tb_data := BlockBuilder_Add key val (tb_data tb), tb_last_key := key\<rparr>"]
    by (auto simp: TableBuilder_Add_def Let_def)
  obtain s1 tb1 where f: "FlushDataBlock os tb = (s1, tb1)" by fastforce
  obtain d ib where i: "BlockBuilder_Finish (tb_index tb1) = (d, ib)" by fastforce
  obtain s2 h f2 where w: "WriteBlock os d BlockHandle_new (tb_file tb1) = (s2, h, f2)" by (metis prod_cases3)
  have "flushed (tb_file tb1) = flushed (tb_file tb)" "flushed f2 = flushed (tb_file tb1)"
    using fd [of tb] f wb [of d BlockHandle_new "tb_file tb1"] w by simp_all
  then show "flushed (tb_file (snd (TableBuilder_Finish os tb))) = flushed (tb_file tb)"
    using f i w nf by (simp add: TableBuilder_Finish_def Let_def fwrite_def fflush_def)
qed

lemma build_table_unflushed:
  assumes "\<And>k. \<not> os_flush os k \<and> os_close os k < n" "build_table os es fopen_new = (s, tb)"
  shows "length (TableBuilder_destroy os tb) < n"
proof -
  have nf: "\<not> os_flush os k" for k using assms(1) by blast
  have a: "flushed (tb_file (snd (add_all os es tb))) = flushed (tb_file tb)" for tb
  proof (induction es arbitrary: tb)
    case (Cons e es)
    then show ?case using never_flushed(4) [OF nf, of "fst e" "snd e" tb] by (auto split: prod.splits)
  qed simp
  have "flushed (tb_file tb) = 0"
    using assms(2) a [of "TableBuilder_new fopen_new"] never_flushed(5) [OF nf, of "snd (add_all os es (TableBuilder_new fopen_new))"]
    by (auto simp: build_table_def TableBuilder_new_def fopen_new_def split: prod.splits if_splits)
  then show ?thesis using assms(1) by (simp add: TableBuilder_destroy_def fflush_def fclose_def min_less_iff_disj)
qed

lemma Table_Open_too_small:
  "length b < kEncodedLength \<Longrightarrow> Table_Open rd fname (Some b) = Some (Corruption (str ''file too small to be sstable''), None)"
  by (simp add: Table_Open_def)

text \<open>The newest table is mounted first.\<close>

lemma Init_tables_first:
  assumes "map fi_number (filter (\<lambda>f. fi_type f = kTableFile) fs) = n # ns" "env_open env (TableFileName name n)"
    and "map_of dir (TableFileName name n) = Some b" "length b < kEncodedLength"
  shows "Init_tables env name dir fs ts = Some (Corruption (str ''file too small to be sstable''), ts)"
  using assms(1)
proof (induction fs)
  case (Cons f fs)
  then show ?case using assms(2-4) by (cases "fi_type f = kTableFile") (simp_all add: fopen_rb_def Table_Open_too_small)
qed simp

text \<open>
  C17. A table file whose bytes never reach the disk makes the database unusable: \<open>Finish\<close> ignores
  the result of \<open>fflush\<close> and the destructor those of its \<open>fflush\<close> and \<open>fclose\<close>.  If all of them fail
  for this one file, as on a full disk, and leave less of it than the 48 bytes of a
  footer, the file is still renamed into place.  \<open>FlushMemTable\<close> reports it, but
  every \<open>DB::Open\<close> of what a crash then leaves fails, also when the system refuses nothing.
\<close>

theorem unflushed_table_blocks_open:
  assumes "db_holds KS name N c db dir f" "N + 3 < 2 ^ 64" "sizeof_Node < ApproximateMemoryUsage (db_mem db)"
    and "good_env env" "env_rename env (TempFileName name (next_file_number db))"
    and "env_os env (TempFileName name (next_file_number db)) = os" "never_short os" "tells os"
    and "\<And>k. \<not> os_flush os k \<and> os_close os k < 48"
  shows "\<exists>s db' dir'. FlushMemTable env db dir = Some (s, db', dir') \<and> \<not> ok s \<and>
    (\<forall>dir2 env2. crash_dir db' dir' dir2 \<longrightarrow> good_env env2 \<longrightarrow>
      (\<exists>s2 dir3. DB_Open env2 name dir2 = Some (s2, None, dir3) \<and> \<not> ok s2))"
proof -
  obtain n bs nums disk tss es where up: "db_up name db dir n bs nums disk tss es"
    and b: "unat (next_file_number db) \<le> N" using assms(1) unfolding db_holds_def by blast
  have m: "mem_rel (db_mem db) es" and name: "dbname db = name" and l0: "log_number db \<noteq> 0"
    and names: "names_ok name (unat (next_file_number db)) dir (set nums) {log_number db}"
    and tod: "tables_on_disk name dir nums disk" and w: "\<exists>w. db_log db = Some w" using up unfolding db_up_def by blast+
  let ?t = "next_file_number db"
  let ?tmp = "TempFileName name ?t" and ?table = "TableFileName name ?t"
  let ?db1 = "db\<lparr>next_file_number := ?t + 2\<rparr>"
  obtain s tb where bt: "build_table os es fopen_new = (s, tb)" by fastforce
  define img where "img = TableBuilder_destroy os tb"
  have "ok s" using build_table_cases [OF bt] assms(7,8) by (simp add: fopen_new_def)
  have img: "length img < kEncodedLength"
    unfolding img_def by (rule build_table_unflushed [OF _ bt])
      (use assms(9) in \<open>simp add: kEncodedLength_def kMaxEncodedLength_def\<close>)
  let ?dir1 = "AList.update ?tmp img dir"
  let ?dir2 = "AList.update ?table img (AList.delete ?tmp ?dir1)"
  have ren: "dir_rename ?tmp ?table ?dir1 = ?dir2" by (simp add: dir_rename_def AList.update_conv')
  have fo: "fopen_rb env ?dir2 ?table = Some img" using assms(4) by (simp add: fopen_rb_def good_env_def open_env_def AList.update_conv')
  have run: "FlushMemTable env db dir = Some (Corruption (str ''file too small to be sstable''), ?db1, ?dir2)"
    using FlushMemTable_steps [OF m mem_nonempty [OF m assms(3)], of env s tb dir, unfolded name] bt \<open>ok s\<close>
      assms(4-6) ren fo Table_Open_too_small [OF img] by (simp add: good_env_def open_env_def Let_def img_def)
  have tN: "unat ?t < N + 1" using b by simp
  have n1: "names_ok name (N + 1) ?dir1 (set nums) {log_number db}"
    using names_ok_temp_file [OF names, of ?t "N + 1"] tN b by (simp add: file_paths)
  have "names_ok name (N + 1) (AList.delete ?tmp ?dir1) (set nums) {log_number db}"
    using names_ok_delete_temp [OF n1, of ?t] by (simp add: file_paths)
  from names_ok_table_file [OF this tN order_refl, of img]
  have n2: "names_ok name (N + 1) ?dir2 (set (?t # nums)) {log_number db}" by (simp add: file_paths)
  have sorted: "sorted_wrt (>) (?t # nums)"
    using tod names_ok_less [OF names] by (simp add: tables_on_disk_def)
  have "\<exists>s2 dir4. DB_Open env2 name dir3 = Some (s2, None, dir4) \<and> \<not> ok s2"
    if cr: "crash_dir ?db1 ?dir2 dir3" and ge: "good_env env2" for dir3 env2
  proof -
    have oe2: "open_env env2" using ge by (simp add: good_env_def)
    obtain bytes where d3: "dir3 = AList.update (LogFileName name (log_number db)) bytes ?dir2"
      using cr w name by (auto simp: crash_dir_def)
    have n3: "names_ok name (N + 1) dir3 (set (?t # nums)) {log_number db}"
      unfolding d3 by (rule names_ok_update [OF n2 names_ok_log [OF n2]]) simp
    have mo: "map_of dir3 ?table = Some img" unfolding d3 by (simp add: AList.update_conv' file_paths)
    have N: "N + 1 < 2 ^ 64" "1 \<le> N + 1" using assms(2) by simp_all
    obtain files next' dir' where i:
      "ListFiles name (Some (map (\<lambda>(p, _). after_slash p) dir3)) = (Status_OK, files)"
      "Init_scan env2 name files 1 0 dir3 = (Status_OK, next', if {log_number db} = {} then 0 else log_number db, dir')"
      "map fi_number (filter (\<lambda>f. fi_type f = kTableFile) (rev files)) = ?t # nums"
      "\<forall>n t. t \<noteq> kTempFile \<longrightarrow> map_of dir' (file_path name n t) = map_of dir3 (file_path name n t)"
      by (rule Init_scan_names [OF oe2 n3 sorted N order_refl l0])
    have "map_of dir' ?table = Some img" using i(4) mo by (simp add: file_paths)
    moreover have "env_open env2 ?table" using oe2 by (simp add: open_env_def)
    ultimately have "Init_tables env2 name dir' (rev files) [] = Some (Corruption (str ''file too small to be sstable''), [])"
      using Init_tables_first [OF i(3)] img by blast
    then show ?thesis
      using i(1,2) oe2 by (simp add: DB_Open_def Init_def DBImpl_new_def open_env_def Let_def)
  qed
  then show ?thesis using run by auto
qed

theorem unflushed_table_blocks_open_witness:
  "\<exists>db0 dir0 s0 db dir s db' dir'. DB_Open calm_env (str ''db'') [] = Some (Status_OK, Some db0, dir0) \<and>
     DBImpl_Put calm_env (str ''k'') (str ''v'') db0 dir0 = Some (s0, db, dir) \<and>
     FlushMemTable (calm_env\<lparr>env_os := (\<lambda>_. good_os)(TempFileName (str ''db'') (next_file_number db) := good_os\<lparr>os_flush := \<lambda>_. False\<rparr>)\<rparr>) db dir = Some (s, db', dir') \<and> \<not> ok s \<and>
     (\<forall>dir2. crash_dir db' dir' dir2 \<longrightarrow> (\<exists>s2 dir3. DB_Open calm_env (str ''db'') dir2 = Some (s2, None, dir3) \<and> \<not> ok s2))"
proof -
  obtain db dir f where h: "db_holds {str ''k''} (str ''db'') 4 2 db dir f" "sizeof_Node < ApproximateMemoryUsage (db_mem db)"
    and o: "\<exists>db0 dir0. DB_Open calm_env (str ''db'') [] = Some (Status_OK, Some db0, dir0) \<and>
      (\<exists>s. DBImpl_Put calm_env (str ''k'') (str ''v'') db0 dir0 = Some (s, db, dir))"
    by (rule one_value_db)
  let ?env = "calm_env\<lparr>env_os := (\<lambda>_. good_os)(TempFileName (str ''db'') (next_file_number db) := good_os\<lparr>os_flush := \<lambda>_. False\<rparr>)\<rparr>"
  have "good_env ?env" "env_rename ?env (TempFileName (str ''db'') (next_file_number db))"
    "env_os ?env (TempFileName (str ''db'') (next_file_number db)) = good_os\<lparr>os_flush := \<lambda>_. False\<rparr>"
    "never_short (good_os\<lparr>os_flush := \<lambda>_. False\<rparr>)" "tells (good_os\<lparr>os_flush := \<lambda>_. False\<rparr>)"
    "\<not> os_flush (good_os\<lparr>os_flush := \<lambda>_. False\<rparr>) k \<and> os_close (good_os\<lparr>os_flush := \<lambda>_. False\<rparr>) k < 48" for k
    by (simp_all add: good_env_def open_env_def calm_env_def good_os_def never_short_def tells_def)
  from unflushed_table_blocks_open [OF h(1) _ h(2) this] o show ?thesis by simp (metis calm_env(2))
qed

section \<open>A table that can no longer be read\<close>

lemma single_chunk:
  assumes "concat css = [x]" "[] \<notin> set css"
  shows "css = [[x]]"
proof (cases css)
  case (Cons cs list)
  then have "cs = [x]" "concat list = []" using assms by (cases cs; simp)+
  then show ?thesis using Cons assms(2) by (cases list) auto
qed (use assms(1) in simp)

lemma Table_Get_block_error:
  assumes "BlockIter_Seek (tbl_index t) uk NewIterator = Some it" "it_valid it"
    and "BlockHandle_DecodeFrom BlockHandle_new (it_value it) = (Status_OK, h, r)"
    and "ReadBlock (tbl_read t) (tbl_file t) h = Some (s, c)" "\<not> ok s"
  shows "Table_Get uk t = Some kNotFoundState"
  using assms by (simp add: Table_Get_def)

lemma damaged_single_table:
  assumes t: "table_stands t [e]" and tf: "tbl_file t = b # rest" and b': "b' \<noteq> b"
    and e: "\<not> fst e < uk"
  shows "Table_Get uk (t\<lparr>tbl_file := b' # rest\<rparr>) = Some kNotFoundState"
    and "Table_Get uk (t\<lparr>tbl_read := none_read\<rparr>) = Some kNotFoundState"
proof -
  obtain css where "concat css = [e]" "[] \<notin> set css" and css: "tbl_file t = table_bytes css"
    "block_holds (tbl_index t) (index_entries 0 css)" "tbl_read t = all_read" and fit: "table_fits [e]"
    using t unfolding table_stands_def by blast
  then have c: "css = [[e]]" by (intro single_chunk)
  let ?enc = "enc_block [e]"
  have idx: "index_entries 0 css = [(fst e, BlockHandle_EncodeTo \<lparr>bh_offset = 0, bh_size = word_of_nat (length ?enc)\<rparr> [])]"
    by (simp add: c last_key_of_last)
  have "sorted_wrt (\<lambda>x y. fst y < uk \<longrightarrow> fst x < uk) (index_entries 0 css)" by (simp add: idx)
  from BlockIter_Seek_at [OF css(2) this] obtain it where
    it: "BlockIter_Seek (tbl_index t) uk NewIterator = Some it" "it_at (index_entries 0 css) it 0"
    using e by (auto simp: idx)
  have v: "it_valid it" "it_value it = BlockHandle_EncodeTo \<lparr>bh_offset = 0, bh_size = word_of_nat (length ?enc)\<rparr> []"
    using it(2) by (simp_all add: it_at_def idx)
  have ne: "?enc \<noteq> []" using length_enc_block [of "[e]"] by auto
  then obtain y where enc: "?enc = b # y"
    using tf css(1) by (cases ?enc) (auto simp: c table_bytes_def chunk_image_def block_image_def)
  let ?tail = "EncodeFixed32 (MaskCrc32c (Value (kNoCompression # b # y)))"
  have "Value ([kNoCompression] @ [b'] @ y) \<noteq> Value ([kNoCompression] @ [b] @ y)"
    using b' by (intro Value_burst) simp_all
  then have crc: "UnmaskCrc32c (DecodeFixed32 ?tail) \<noteq> Value (kNoCompression # b' # y)" by simp
  have rest: "b' # rest = [] @ (b' # y) @ [kNoCompression] @ ?tail @
      (chunk_image (index_entries 0 css) @ Footer_EncodeTo (index_footer css) [])"
    using tf css(1) enc by (simp add: c table_bytes_def chunk_image_def block_image_def)
  have "length (b' # y) + kBlockTrailerSize < 2 ^ 63"
    using enc_block_size [of "[e]"] fit enc by (simp add: table_fits_def kBlockTrailerSize_def)
  from ReadBlock_at [of "[]", OF _ this, of ?tail kNoCompression] crc
  have "\<exists>m. ReadBlock all_read (b' # rest) \<lparr>bh_offset = 0, bh_size = word_of_nat (length ?enc)\<rparr> = Some (Corruption m, [])"
    unfolding rest enc by (intro exI [of _ "str ''block checksum mismatch''"]) simp
  then show "Table_Get uk (t\<lparr>tbl_file := b' # rest\<rparr>) = Some kNotFoundState"
    using Table_Get_block_error [of "t\<lparr>tbl_file := b' # rest\<rparr>" uk it] it(1) v(1) css(3) by (auto simp: v(2) BlockHandle_Decode_exact)
  have "length ?enc < 2 ^ 32" using enc_block_size [of "[e]"] fit by (simp add: table_fits_def)
  then have "\<exists>s. ReadBlock none_read (tbl_file t) \<lparr>bh_offset = 0, bh_size = word_of_nat (length ?enc)\<rparr> = Some (s, []) \<and> \<not> ok s"
    by (simp add: ReadBlock_def Let_def unat_word_of_nat_less kBlockTrailerSize_def)
  then show "Table_Get uk (t\<lparr>tbl_read := none_read\<rparr>) = Some kNotFoundState"
    using Table_Get_block_error [of "t\<lparr>tbl_read := none_read\<rparr>" uk it] it(1) v(1) by (auto simp: v(2) BlockHandle_Decode_exact)
qed

text \<open>
  C18. A table that can no longer be read is passed over in silence: when one byte of a data
  block goes bad, and also when reading the file fails, \<open>Table::Get\<close> answers that it does
  not have the key, and \<open>DBImpl::Get\<close> reports success with the value of an older table
  that the key has no longer.
\<close>

theorem damaged_table_answers_stale:
  assumes "table_stands t [mk_entry s kTypeValue key new]" "table_stands t0 [mk_entry s0 kTypeValue key old]"
    and "tbl_file t = b # rest" "b' \<noteq> b"
    and "MemTable_Get key (db_mem db) = Some kNotFoundState" "db_tables db = [t, t0]"
  shows "DBImpl_Get key db = Some (Status_OK, Some new) \<and>
    DBImpl_Get key (db\<lparr>db_tables := [t\<lparr>tbl_file := b' # rest\<rparr>, t0]\<rparr>) = Some (Status_OK, Some old) \<and>
    DBImpl_Get key (db\<lparr>db_tables := [t\<lparr>tbl_read := none_read\<rparr>, t0]\<rparr>) = Some (Status_OK, Some old)"
proof -
  have sk: "seekable [mk_entry q kTypeValue key v] key" for q v by (simp add: seekable_def)
  have "Table_Get key t = Some (kValue new)" "Table_Get key t0 = Some (kValue old)"
    using table_layer.get_lookup [OF assms(1) sk] table_layer.get_lookup [OF assms(2) sk] by (simp_all add: entries_lookup_Cons)
  moreover have "\<not> fst (mk_entry s kTypeValue key new) < key" using le_append [of key] by (simp add: mk_entry_def not_less)
  from damaged_single_table [OF assms(1,3,4) this]
  have "Table_Get key (t\<lparr>tbl_file := b' # rest\<rparr>) = Some kNotFoundState"
    "Table_Get key (t\<lparr>tbl_read := none_read\<rparr>) = Some kNotFoundState" .
  ultimately show ?thesis using assms(5,6) by (simp add: DBImpl_Get_def)
qed

lemma single_table:
  assumes "s \<le> kMaxSequenceNumber" "length key + length v < 1000"
  obtains t b rest where "table_stands t [mk_entry s kTypeValue key v]" "tbl_file t = b # rest"
proof -
  have "entries_ok (concat [[mk_entry s kTypeValue key v]])" using assms(1) by simp
  moreover have "table_fits (concat [[mk_entry s kTypeValue key v]])" using assms(2) by (simp add: table_fits_def)
  ultimately obtain t where t: "table_stands t (concat [[mk_entry s kTypeValue key v]])"
    using Table_Open_table [of "[[mk_entry s kTypeValue key v]]"] by auto
  then obtain css where "tbl_file t = table_bytes css" unfolding table_stands_def by blast
  then have "length (tbl_file t) \<noteq> 0" by (simp add: table_bytes_def length_Footer_EncodeTo kEncodedLength_def)
  then obtain b rest where "tbl_file t = b # rest" by (cases "tbl_file t") simp_all
  moreover have "table_stands t [mk_entry s kTypeValue key v]" using t by simp
  ultimately show ?thesis by (intro that)
qed

theorem damaged_table_answers_stale_witness:
  "\<exists>db t' t0. DBImpl_Get (str ''k'') db = Some (Status_OK, Some [2]) \<and>
     DBImpl_Get (str ''k'') (db\<lparr>db_tables := [t', t0]\<rparr>) = Some (Status_OK, Some [1])"
proof -
  have s: "(1 :: u64) \<le> kMaxSequenceNumber" "(2 :: u64) \<le> kMaxSequenceNumber" by (simp_all add: kMaxSequenceNumber_def)
  obtain t b rest where t: "table_stands t [mk_entry 2 kTypeValue (str ''k'') [2]]" "tbl_file t = b # rest"
    using single_table [OF s(2), of "str ''k''" "[2]"] by (auto simp: str_def)
  obtain t0 b0 rest0 where t0: "table_stands t0 [mk_entry 1 kTypeValue (str ''k'') [1]]" "tbl_file t0 = b0 # rest0"
    using single_table [OF s(1), of "str ''k''" "[1]"] by (auto simp: str_def)
  let ?db = "(DBImpl_new calm_env [])\<lparr>db_tables := [t, t0]\<rparr>"
  have "MemTable_Get (str ''k'') (db_mem ?db) = Some kNotFoundState"
    using mem_layer.get_lookup [OF mem_rel_new] by (simp add: DBImpl_new_def)
  from damaged_table_answers_stale [OF t(1) t0(1) t(2) _ this, of "b + 1"] show ?thesis by fastforce
qed

section \<open>A log that cannot be read for once\<close>

lemma ReadRecord_none_read:
  "ReadRecord (LogReader_new none_read file) = Some (None, LogReader_new none_read file)"
proof -
  let ?r = "LogReader_new none_read file"
  have r: "lr_pos ?r = 0" "lr_eof ?r" "buffer ?r = []" "lr_res ?r = []"
    by (simp_all add: LogReader_new_def Refill_def kBlockSize_def)
  then have "?r\<lparr>lr_res := []\<rparr> = ?r" by (cases ?r) simp
  moreover have "ReadPhysicalRecord ?r = (kEof, ?r)"
    using r by (subst ReadPhysicalRecord.simps) (simp add: kHeaderSize_def)
  ultimately show ?thesis by (simp add: ReadRecord_def ReadRecord_loop.simps)
qed

lemma log_reads_none: "log_reads none_read file []"
proof -
  have "lr_valid_end (LogReader_new none_read file) = 0" by (simp add: LogReader_new_def Refill_def kBlockSize_def)
  then show ?thesis unfolding log_reads_def by (intro exI [of _ "[]"]) (simp add: ReadRecord_none_read)
qed

lemma Recover_none_read:
  assumes "env_read env path = none_read" "env_truncate env path"
  shows "Recover env path file mem seq = Some (Status_OK, mem, 0, [])"
proof -
  have "lr_valid_end (LogReader_new none_read file) = 0" by (simp add: LogReader_new_def Refill_def kBlockSize_def)
  then show ?thesis
    using assms by (simp add: Recover_def Recover_loop.simps ReadRecord_none_read resize_def)
qed

lemma keys_within_tables: "keys_within KS (db_view bs disk) \<Longrightarrow> keys_within KS (db_view [] disk)"
  unfolding keys_within_def db_view_def layer_over_def by auto

text \<open>
  C19. An error while reading the log destroys it.  A read that fails is taken for the end of the
  file, and \<open>Recover\<close> then cuts the file there: \<open>DB::Open\<close> reports success, only the tables
  answer, and what \<open>Put\<close> and \<open>Delete\<close> had acknowledged since the last flush is gone for good,
  also for every later opening that can read.
\<close>

theorem read_error_destroys_log:
  assumes "db_holds KS name N c db dir f" "prefix_safe KS" "N + 1 < 2 ^ 64" "1 \<le> N" "c \<le> 2 ^ 56"
    and "db_log db \<noteq> None" "crash_dir db dir dir2" "open_env env"
    and "env_read env (LogFileName name (log_number db)) = none_read"
    and "\<And>n. env_read env (TableFileName name n) = all_read"
  shows "\<exists>db2 dir3. DB_Open env name dir2 = Some (Status_OK, Some db2, dir3) \<and>
    map_of dir3 (LogFileName name (log_number db)) = Some [] \<and>
    (\<forall>uk. DBImpl_Get uk db2 = Get_tables uk (db_tables db2)) \<and>
    ((\<forall>n. TableFileName name n \<notin> fst ` set dir) \<longrightarrow> db_tables db2 = []) \<and>
    (\<forall>dir4 env3. crash_dir db2 dir3 dir4 \<longrightarrow> good_env env3 \<longrightarrow>
      (\<exists>db3 dir5. DB_Open env3 name dir4 = Some (Status_OK, Some db3, dir5) \<and>
        (\<forall>uk \<in> KS. DBImpl_Get uk db3 = DBImpl_Get uk db2)))"
proof -
  obtain n bs nums disk tss es where up: "db_up name db dir n bs nums disk tss es" and k: "keys_within KS (db_view bs disk)"
    and b: "unat (next_file_number db) \<le> N" "n + num_ops bs \<le> c" using assms(1) unfolding db_holds_def by blast
  let ?l = "log_number db"
  let ?log = "LogFileName name ?l"
  have name: "dbname db = name" and l0: "?l \<noteq> 0" and names: "names_ok name (unat (next_file_number db)) dir (set nums) {?l}"
    and tod: "tables_on_disk name dir nums disk" using up unfolding db_up_def by blast+
  obtain bytes where dir2: "dir2 = AList.update ?log bytes dir"
    using assms(6,7) name by (auto simp: crash_dir_def)
  have n2: "names_ok name N dir2 (set nums) {?l}"
    unfolding dir2 by (rule names_ok_update [OF names_ok_mono [OF names b(1)] names_ok_log [OF names]]) simp
  have t2: "tables_on_disk name dir2 nums disk" "map_of dir2 ?log = Some bytes"
    unfolding dir2 using tod by (auto intro!: tables_on_disk_update simp: file_paths AList.update_conv')
  have N: "N < 2 ^ 64" using assms(3) by simp
  obtain files next' dir' ts where i:
    "ListFiles name (Some (map (\<lambda>(p, _). after_slash p) dir2)) = (Status_OK, files)"
    "Init_scan env name files 1 0 dir2 = (Status_OK, next', if {?l} = {} then 0 else ?l, dir')"
    "Init_tables env name dir' (rev files) [] = Some (Status_OK, ts)" "list_all2 table_stands ts disk"
    "filter (\<lambda>f. fi_type f = kLogFile) files = (if {?l} = {} then [] else [\<lparr>fi_number = ?l, fi_type = kLogFile\<rparr>])"
    "map_of dir' ?log = map_of dir2 ?log"
    using Init_scan_dir [OF assms(8) n2 t2(1) N assms(4) order_refl l0 assms(10)] by metis
  let ?db0 = "(DBImpl_new env name)\<lparr>next_file_number := next', db_tables := ts\<rparr>"
  let ?db2 = "?db0\<lparr>log_number := ?l, db_log := Some (LogWriter_new (fopen_append []) 0), last_seq := 0\<rparr>"
  let ?dir3 = "AList.update ?log [] dir'"
  have tr: "env_truncate env ?log" "env_open env ?log" using assms(8) by (simp_all add: open_env_def)
  have "Init_logs env files ?l 0 ?db0 dir' = Some (Status_OK, 0, ?db2\<lparr>last_seq := 0\<rparr>, ?dir3)"
    using Init_logs_one [of files "\<lparr>fi_number = ?l, fi_type = kLogFile\<rparr>" env ?l 0 ?db0 dir'] i(5,6) t2(2) tr
      Recover_none_read [OF assms(9) tr(1)]
    by (simp add: DBImpl_new_def fopen_rb_def dir_create_def Let_def)
  then have run: "Init env (DBImpl_new env name) dir2 = Some (Status_OK, ?db2, ?dir3)"
    using assms(8) l0 i(1-3) by (simp add: Init_def Let_def open_env_def DBImpl_new_def)
  have "log_reads (env_read env ?log) bytes (log_records 1 [])" using log_reads_none assms(9) by simp
  from Init_with_log [OF assms(8) n2 l0 N assms(4) t2 this _ _ _ assms(10)] run obtain n' es' where
    "db_up name ?db2 ?dir3 n' [] nums disk disk es'" "unat (next_file_number ?db2) \<le> N" "n' \<le> 1"
    by (auto simp: batches_ok_def)
  moreover have "1 \<le> c" using up b(2) unfolding db_up_def by linarith
  ultimately have "db_holds KS name N c ?db2 ?dir3 (db_view [] disk)"
    unfolding db_holds_def using keys_within_tables [OF k]
    by (intro conjI exI [of _ n'] exI [of _ "[]"] exI [of _ nums] exI [of _ disk] exI [of _ es']) simp_all
  from outcome_seen [OF db_holds_outcome [OF this assms(2)] assms(2-5)]
  have seen: "\<forall>dir4 env3. crash_dir ?db2 ?dir3 dir4 \<longrightarrow> good_env env3 \<longrightarrow>
      (\<exists>db3 dir5. DB_Open env3 name dir4 = Some (Status_OK, Some db3, dir5) \<and>
        (\<forall>uk \<in> KS. DBImpl_Get uk db3 = DBImpl_Get uk ?db2))" .
  have "MemTable_Get uk (db_mem ?db2) = Some kNotFoundState" for uk
    using mem_layer.get_lookup [OF mem_rel_new] by (simp add: DBImpl_new_def)
  then have "DBImpl_Get uk ?db2 = Get_tables uk (db_tables ?db2)" for uk by (simp add: DBImpl_Get_def)
  moreover have "db_tables ?db2 = []" if none: "\<forall>n. TableFileName name n \<notin> fst ` set dir"
  proof -
    have "nums = []" using names none by (cases nums) (auto simp: names_ok_def)
    then have "disk = []" using tod by (simp add: tables_on_disk_def)
    then show ?thesis using i(4) by simp
  qed
  moreover have "map_of ?dir3 ?log = Some []" by (simp add: AList.update_conv')
  ultimately show ?thesis
    using run seen by (intro exI [of _ ?db2] exI [of _ ?dir3]) (simp add: DB_Open_def del: DBImpl.update_convs)
qed

theorem read_error_destroys_log_witness:
  "\<exists>db0 dir0 s db dir env db2 dir3. DB_Open calm_env (str ''db'') [] = Some (Status_OK, Some db0, dir0) \<and>
     DBImpl_Put calm_env (str ''k'') (str ''v'') db0 dir0 = Some (s, db, dir) \<and>
     DB_Open env (str ''db'') (DBImpl_destroy calm_env db dir) = Some (Status_OK, Some db2, dir3) \<and>
     DBImpl_Get (str ''k'') db2 = Some (NotFound (str ''k''), None) \<and>
     (\<forall>dir4. crash_dir db2 dir3 dir4 \<longrightarrow> (\<exists>db3 dir5. DB_Open calm_env (str ''db'') dir4 = Some (Status_OK, Some db3, dir5) \<and>
       DBImpl_Get (str ''k'') db3 = Some (NotFound (str ''k''), None)))"
proof -
  obtain db dir f where h: "db_holds {str ''k''} (str ''db'') 4 2 db dir f" "dir = [(LogFileName (str ''db'') 1, [])]"
    and o: "\<exists>db0 dir0. DB_Open calm_env (str ''db'') [] = Some (Status_OK, Some db0, dir0) \<and>
      (\<exists>s. DBImpl_Put calm_env (str ''k'') (str ''v'') db0 dir0 = Some (s, db, dir))"
    by (rule one_value_db)
  let ?log = "LogFileName (str ''db'') (log_number db)"
  let ?env = "calm_env\<lparr>env_read := (\<lambda>p. if p = ?log then none_read else all_read)\<rparr>"
  have log: "db_log db \<noteq> None" using h(1) by (auto simp: db_holds_def db_up_def)
  have cr: "crash_dir db dir (DBImpl_destroy calm_env db dir)" using DBImpl_destroy_crash db_holds_file_ok [OF h(1)] by blast
  have env: "open_env ?env" "env_read ?env ?log = none_read" "\<And>n. env_read ?env (TableFileName (str ''db'') n) = all_read"
    by (simp_all add: open_env_def calm_env_def file_paths)
  have "\<forall>n. TableFileName (str ''db'') n \<notin> fst ` set dir" unfolding h(2) by (simp add: file_paths)
  with read_error_destroys_log [OF h(1) prefix_safe_single _ _ _ log cr env]
  obtain db2 dir3 where r: "DB_Open ?env (str ''db'') (DBImpl_destroy calm_env db dir) = Some (Status_OK, Some db2, dir3)"
    "\<forall>uk. DBImpl_Get uk db2 = Get_tables uk (db_tables db2)" "db_tables db2 = []"
    "\<forall>dir4 env3. crash_dir db2 dir3 dir4 \<longrightarrow> good_env env3 \<longrightarrow>
      (\<exists>db3 dir5. DB_Open env3 (str ''db'') dir4 = Some (Status_OK, Some db3, dir5) \<and>
        (\<forall>uk \<in> {str ''k''}. DBImpl_Get uk db3 = DBImpl_Get uk db2))"
    by auto
  have nf: "DBImpl_Get (str ''k'') db2 = Some (NotFound (str ''k''), None)" using r(2,3) by simp
  then have "\<forall>dir4. crash_dir db2 dir3 dir4 \<longrightarrow> (\<exists>db3 dir5. DB_Open calm_env (str ''db'') dir4 = Some (Status_OK, Some db3, dir5) \<and>
       DBImpl_Get (str ''k'') db3 = Some (NotFound (str ''k''), None))"
    using r(4) calm_env(2) by fastforce
  then show ?thesis using o r(1) nf by blast
qed

end
