(* ===== verification/DbTypes.thy ===== *)
theory DbTypes
  imports DbFaults
begin

text \<open>
  What the memtable of a running database holds: well-formed internal keys of the two types,
  in the order a table needs, with sequence numbers that have been given out.
\<close>

text \<open>The positions a loop over the memtable comes to.\<close>

inductive MemIter_reaches :: "MemTable \<Rightarrow> nat option \<Rightarrow> bool" for m where
  reach_first: "MemIter_reaches m (MemIter_SeekToFirst m)"
| reach_next: "MemIter_reaches m it \<Longrightarrow> Iter_Valid it \<Longrightarrow> MemIter_reaches m (MemIter_Next m it)"

inductive_cases MemIter_reachesE: "MemIter_reaches m it"

lemma MemIter_reaches_at:
  assumes "MemIter_reaches m it" "sl_rel MemTable_Cmp (mt_table m) ks"
  shows "\<exists>i. iter_at MemTable_Cmp (mt_table m) it (drop i ks)"
  using assms(1)
proof induction
  case reach_first
  then show ?case
    using iter_at_SeekToFirst [OF assms(2), folded MemIter_SeekToFirst_def] by (intro exI [of _ 0]) simp
next
  case (reach_next it)
  then obtain i where i: "iter_at MemTable_Cmp (mt_table m) it (drop i ks)" by blast
  then have "i < length ks" using iter_at_Valid [OF i] reach_next.hyps(2) by simp
  then have "iter_at MemTable_Cmp (mt_table m) (MemIter_Next m it) (drop (Suc i) ks)"
    using iter_at_Next [of MemTable_Cmp "mt_table m" it "ks ! i" "drop (Suc i) ks"] i
    by (simp add: Cons_nth_drop_Suc MemIter_Next_def)
  then show ?case by blast
qed

lemma MemIter_entries:
  assumes "mem_rel m es" "MemIter_reaches m it" "Iter_Valid it"
  shows "\<exists>i < length es. MemIter_ikey m it = fst (es ! i) \<and>
    (Iter_Valid (MemIter_Next m it) \<longrightarrow> i + 1 < length es \<and> MemIter_ikey m (MemIter_Next m it) = fst (es ! (i + 1)))"
proof -
  obtain ks where ks: "sl_rel MemTable_Cmp (mt_table m) ks" "es = map mem_entry ks" using assms(1) by (auto simp: mem_rel_def)
  obtain i where i: "iter_at MemTable_Cmp (mt_table m) it (drop i ks)" using MemIter_reaches_at [OF assms(2) ks(1)] by blast
  have l: "i < length ks" using iter_at_Valid [OF i] assms(3) by simp
  then have i': "iter_at MemTable_Cmp (mt_table m) it (ks ! i # drop (i + 1) ks)" using i by (simp add: Cons_nth_drop_Suc)
  note next_it = iter_at_Next [OF i', folded MemIter_Next_def]
  have "i + 1 < length ks \<and> Iter_key (mt_table m) (MemIter_Next m it) = ks ! (i + 1)" if v: "Iter_Valid (MemIter_Next m it)"
  proof -
    have "i + 1 < length ks" using iter_at_Valid [OF next_it] v by simp
    moreover from this have "drop (i + 1) ks = ks ! (i + 1) # drop (i + 2) ks" by (simp add: Cons_nth_drop_Suc)
    ultimately show ?thesis using iter_at_key next_it by metis
  qed
  then show ?thesis
    using iter_at_key [OF i'] l ks(2) by (intro exI [of _ i]) (simp add: MemIter_ikey_def)
qed

lemma entry_ok_parse:
  assumes "entry_ok e"
  shows "\<exists>p. ParseInternalKey (fst e) = Some p \<and> user_key p = entry_user e \<and> sequence p = entry_seq e \<and>
    (vtype p = kTypeValue \<or> vtype p = kTypeDeletion)"
proof -
  obtain uk s t where e: "fst e = uk @ EncodeFixed64 (PackSequenceAndType s t)" "s \<le> kMaxSequenceNumber"
    "t = kTypeValue \<or> t = kTypeDeletion" using assms by (auto simp: entry_ok_def)
  then show ?thesis using entry_ok_length [OF assms] by (auto simp: ParseInternalKey_def entry_seq_def Let_def not_less)
qed

text \<open>
  C15. The memtable is well typed in every reachable state with a log: whatever entry its
  iterator comes to, its internal key parses, with a type that is value or deletion, a
  user key of those written and a sequence number already given out, and the entry after
  it is not smaller in the order of the comparator, as \<open>TableBuilder::Add\<close> needs.
\<close>

theorem db_memtable_typed:
  assumes "db_run KS name t (Up db dir) F" "prefix_safe KS" "t < 2 ^ 55" "db_log db \<noteq> None"
    and "MemIter_reaches (db_mem db) it" "Iter_Valid it"
  shows "\<exists>p. ParseInternalKey (MemIter_ikey (db_mem db) it) = Some p \<and> user_key p \<in> KS \<and>
    sequence p \<le> last_seq db \<and> (vtype p = kTypeValue \<or> vtype p = kTypeDeletion) \<and>
    (Iter_Valid (MemIter_Next (db_mem db) it) \<longrightarrow>
      \<not> InternalKeyComparator (MemIter_ikey (db_mem db) (MemIter_Next (db_mem db) it)) (MemIter_ikey (db_mem db) it))"
proof -
  obtain f where "outcome KS name (2 * t + 1) (t + 1) f (IOError [], db, dir)"
    using db_run_inv [OF assms(1-3)] by auto
  from outcome_holds [OF this assms(4)] obtain n bs nums disk tss es where
    up: "db_up name db dir n bs nums disk tss es" and k: "keys_within KS (db_view bs disk)"
    unfolding db_holds_def by blast
  have m: "mem_rel (db_mem db) es" "\<forall>x \<in> set es. unat (entry_seq x) < n + num_ops bs"
    "entries_lookup es = ops_view (concat bs)" and last: "unat (last_seq db) + 1 = n + num_ops bs"
    using up unfolding db_up_def by blast+
  obtain i where at: "i < length es" "MemIter_ikey (db_mem db) it = fst (es ! i)"
    "Iter_Valid (MemIter_Next (db_mem db) it) \<Longrightarrow> i + 1 < length es \<and>
      MemIter_ikey (db_mem db) (MemIter_Next (db_mem db) it) = fst (es ! (i + 1))"
    using MemIter_entries [OF m(1) assms(5,6)] by blast
  have ok: "entries_ok es" using mem_rel_ok [OF m(1)] .
  have i: "es ! i \<in> set es" using at(1) by simp
  then have "entry_ok (es ! i)" using ok by (simp add: entries_ok_def list_all_iff)
  from entry_ok_parse [OF this] obtain p where p: "ParseInternalKey (MemIter_ikey (db_mem db) it) = Some p"
    "user_key p = entry_user (es ! i)" "sequence p = entry_seq (es ! i)" "vtype p = kTypeValue \<or> vtype p = kTypeDeletion"
    unfolding at(2) by blast
  have "sequence p \<le> last_seq db" using m(2) i last unfolding p(3) word_le_nat_alt by fastforce
  moreover have "user_key p \<in> KS"
  proof -
    have "ops_view (concat bs) (user_key p) \<noteq> kNotFoundState"
      using i p(2) unfolding m(3) [symmetric] by (simp add: entries_lookup_NotFound)
    then show ?thesis using k unfolding keys_within_def db_view_def layer_over_def by auto
  qed
  moreover have "\<not> InternalKeyComparator (MemIter_ikey (db_mem db) (MemIter_Next (db_mem db) it)) (MemIter_ikey (db_mem db) it)"
    if v: "Iter_Valid (MemIter_Next (db_mem db) it)"
  proof -
    have "view_ikey (fst (es ! i)) \<le> view_ikey (MemIter_ikey (db_mem db) (MemIter_Next (db_mem db) it))"
      using ok at(3) [OF v] by (simp add: entries_ok_def sorted_wrt_iff_nth_less)
    then show ?thesis by (simp add: InternalKeyComparator_view at(2) not_less)
  qed
  ultimately show ?thesis using p(1,4) by blast
qed

theorem db_memtable_typed_witness:
  "\<exists>db0 dir0 s db dir p. DB_Open calm_env (str ''db'') [] = Some (Status_OK, Some db0, dir0) \<and>
     DBImpl_Put calm_env (str ''k'') (str ''v'') db0 dir0 = Some (s, db, dir) \<and>
     ParseInternalKey (MemIter_ikey (db_mem db) (MemIter_SeekToFirst (db_mem db))) = Some p \<and>
     user_key p = str ''k'' \<and> sequence p \<le> last_seq db"
proof -
  let ?x = "OpPut (str ''k'') (str ''v'')"
  obtain db dir f where h: "db_holds {str ''k''} (str ''db'') 4 2 db dir f" "sizeof_Node < ApproximateMemoryUsage (db_mem db)"
    and o: "\<exists>db0 dir0. DB_Open calm_env (str ''db'') [] = Some (Status_OK, Some db0, dir0) \<and>
      (\<exists>s. DBImpl_Put calm_env (str ''k'') (str ''v'') db0 dir0 = Some (s, db, dir))"
    by (rule one_value_db)
  then obtain db0 dir0 s where d: "DB_Open calm_env (str ''db'') [] = Some (Status_OK, Some db0, dir0)"
    "DBImpl_Put calm_env (str ''k'') (str ''v'') db0 dir0 = Some (s, db, dir)" by blast
  have h0: "db_holds {str ''k''} (str ''db'') 2 1 db0 dir0 (\<lambda>_. kNotFoundState)"
    using empty_db [of "str ''db''" "{str ''k''}"] d(1) by (metis option.inject prod.inject)
  have "db_run {str ''k''} (str ''db'') (Suc 0) (Up db0 dir0) {Map.empty}"
    by (rule run_open [OF run_start calm_env_reads d(1)]) simp_all
  moreover have "db_log db0 \<noteq> None" using h0 by (auto simp: db_holds_def db_up_def)
  moreover have "mem_room db0 ?x" using empty_db_room [OF h0] by (simp add: str_def)
  ultimately have r: "db_run {str ''k''} (str ''db'') (Suc (Suc 0)) (Up db dir) (map_op ?x ` {Map.empty})"
    using d(2) by (intro run_write [of _ _ _ _ _ _ ?x calm_env]) (simp_all add: DBImpl_op_def calm_takes [OF h0])
  have l: "db_log db \<noteq> None" using h(1) by (auto simp: db_holds_def db_up_def)
  obtain es where m: "mem_rel (db_mem db) es" using h(1) by (auto simp: db_holds_def db_up_def)
  have v: "Iter_Valid (MemIter_SeekToFirst (db_mem db))" using MemIter_first(2) [OF m] mem_nonempty [OF m h(2)] by simp
  from db_memtable_typed [OF r prefix_safe_single _ l reach_first v] show ?thesis using d by auto
qed

end
