(* ===== verification/LogDamage.thy ===== *)
theory LogDamage
  imports Wal
begin

text \<open>
  Damage inside a log.  The reader of \<open>src/db/log_reader.cc\<close> drops the rest of the block and
  goes on with the next one, so what is lost is confined to the records that have a
  fragment behind the damage in that block, and all others come back, those after it too.
\<close>

section \<open>Reading on\<close>

text \<open>The records of some fragments, and what is pending after them.\<close>

fun frag_run :: "bytes option \<Rightarrow> frag list \<Rightarrow> bytes list \<times> bytes option" where
  "frag_run st [] = ([], st)"
| "frag_run st ((t, p) # fs) =
     (if t = kFullType then apfst ((#) p) (frag_run None fs)
      else if t = kFirstType then frag_run (Some p) fs
      else case st of
             None \<Rightarrow> frag_run None fs
           | Some r \<Rightarrow> if t = kLastType then apfst ((#) (r @ p)) (frag_run None fs) else frag_run (Some (r @ p)) fs)"

lemma fst_frag_run: "fst (frag_run st fs) = assemble st fs"
  by (induction st fs rule: frag_run.induct) (auto split: option.split)

text \<open>Reading all records from a state in the middle of one, with a first part pending or not.\<close>

definition read_on :: "bytes option \<Rightarrow> LogReader \<Rightarrow> bytes list \<Rightarrow> (bytes list \<times> nat) option" where
  "read_on st r acc =
     (case ReadRecord_loop (st \<noteq> None) (r\<lparr>lr_res := case st of None \<Rightarrow> [] | Some x \<Rightarrow> x\<rparr>) of
        None \<Rightarrow> None
      | Some (None, r) \<Rightarrow> Some (acc, lr_valid_end r)
      | Some (Some x, r) \<Rightarrow> read_all r (acc @ [x]))"

lemma read_all_on: "read_all r acc = read_on None r acc"
  by (subst read_all.simps) (simp add: read_on_def ReadRecord_def)

lemma read_on_res: "read_on st (r\<lparr>lr_res := x\<rparr>) acc = read_on st r acc"
  by (simp add: read_on_def)

lemma read_on_frag:
  assumes "\<And>res. ReadPhysicalRecord (lr_at f base pos ve res) = (kOk t p, lr_at f base' pos' ve' res)"
  shows "read_on st (lr_at f base pos ve res) acc =
    (case frag_run st [(t, p)] of (xs, st') \<Rightarrow> read_on st' (lr_at f base' pos' ve' res) (acc @ xs))"
proof -
  note step = assms [of "case st of None \<Rightarrow> [] | Some x \<Rightarrow> x"]
  consider (full) "t = kFullType" | (first) "t \<noteq> kFullType" "t = kFirstType"
    | (orphan) "t \<noteq> kFullType" "t \<noteq> kFirstType" "st = None"
    | (more) r where "t \<noteq> kFullType" "t \<noteq> kFirstType" "st = Some r" by (cases st) auto
  then show ?thesis
  proof cases
    case full
    then show ?thesis
      using step unfolding read_on_def
      by (subst ReadRecord_loop.simps) (simp add: read_all_on read_on_def)
  next
    case first
    then show ?thesis
      using step unfolding read_on_def by (subst ReadRecord_loop.simps) (simp split: option.split prod.split)
  next
    case orphan
    then show ?thesis
      using step unfolding read_on_def by (subst ReadRecord_loop.simps) (simp split: option.split prod.split)
  next
    case more
    then show ?thesis
      using step unfolding read_on_def
      by (subst ReadRecord_loop.simps) (simp add: Let_def read_all_on read_on_def split: option.split prod.split)
  qed
qed

lemma frag_run_Cons: "frag_run st (fr # fs) = (case frag_run st [fr] of (xs, st') \<Rightarrow> apfst ((@) xs) (frag_run st' fs))"
  by (cases fr; cases st) (auto simp: apfst_def map_prod_def split: prod.split)

lemma read_on_layout:
  assumes "fits pos fs" "drop (base + pos) f = layout pos fs @ rest" "base + pos \<le> length f"
  shows "\<exists>base' ve'. read_on st (lr_at f base pos ve res) acc =
      read_on (snd (frag_run st fs)) (lr_at f base' (end_off pos fs) ve' res) (acc @ fst (frag_run st fs)) \<and>
    base' + end_off pos fs = base + pos + length (layout pos fs) \<and> drop (base' + end_off pos fs) f = rest"
  using assms
proof (induction fs arbitrary: st base pos ve acc)
  case Nil
  then show ?case by (intro exI [of _ base] exI [of _ ve]) simp
next
  case (Cons fr fs)
  have fits: "frag_fits pos fr" "fits (next_off pos fr) fs" using Cons.prems(1) by simp_all
  have f: "drop (base + pos) f = replicate (pad_len pos) 0 @ enc_phys fr @ (layout (next_off pos fr) fs @ rest)"
    using Cons.prems(2) by simp
  obtain base1 where b1: "base1 + next_off pos fr = base + pos + pad_len pos + length (enc_phys fr)"
    "drop (base1 + next_off pos fr) f = layout (next_off pos fr) fs @ rest"
    "\<And>res. ReadPhysicalRecord (lr_at f base pos ve res) =
      (kOk (fst fr) (snd fr), lr_at f base1 (next_off pos fr) (base1 + next_off pos fr) res)"
    using read_phys_ok [OF fits(1) f] by (metis add_right_cancel)
  have le: "base1 + next_off pos fr \<le> length f"
  proof -
    have "length (drop (base + pos) f) \<ge> pad_len pos + length (enc_phys fr)" unfolding f by simp
    then show ?thesis using b1(1) Cons.prems(3) by simp
  qed
  obtain xs st' where x: "frag_run st [fr] = (xs, st')" by fastforce
  have s: "read_on st (lr_at f base pos ve res) acc =
      read_on st' (lr_at f base1 (next_off pos fr) (base1 + next_off pos fr) res) (acc @ xs)"
    using read_on_frag [OF b1(3), of st res acc] x by simp
  from Cons.IH [OF fits(2) b1(2) le, of st' "base1 + next_off pos fr" "acc @ xs"] obtain base' ve' where
    r: "read_on st' (lr_at f base1 (next_off pos fr) (base1 + next_off pos fr) res) (acc @ xs) =
        read_on (snd (frag_run st' fs)) (lr_at f base' (end_off (next_off pos fr) fs) ve' res) ((acc @ xs) @ fst (frag_run st' fs))"
    "base' + end_off (next_off pos fr) fs = base1 + next_off pos fr + length (layout (next_off pos fr) fs)"
    "drop (base' + end_off (next_off pos fr) fs) f = rest" by blast
  have "frag_run st (fr # fs) = apfst ((@) xs) (frag_run st' fs)" using frag_run_Cons [of st fr fs] x by simp
  then show ?case
    using s r b1(1) by (intro exI [of _ base'] exI [of _ ve']) (simp add: add.assoc)
qed

section \<open>Where a block ends\<close>

lemma read_on_cong:
  "(\<And>res. ReadPhysicalRecord (r\<lparr>lr_res := res\<rparr>) = ReadPhysicalRecord (r'\<lparr>lr_res := res\<rparr>)) \<Longrightarrow> read_on st r acc = read_on st r' acc"
  unfolding read_on_def by (subst (1 2) ReadRecord_loop.simps) simp

lemma read_on_eof:
  "(\<And>res. fst (ReadPhysicalRecord (r\<lparr>lr_res := res\<rparr>)) = kEof \<and> lr_valid_end (snd (ReadPhysicalRecord (r\<lparr>lr_res := res\<rparr>))) = ve) \<Longrightarrow>
   read_on st r acc = Some (acc, ve)"
proof -
  assume e: "\<And>res. fst (ReadPhysicalRecord (r\<lparr>lr_res := res\<rparr>)) = kEof \<and> lr_valid_end (snd (ReadPhysicalRecord (r\<lparr>lr_res := res\<rparr>))) = ve"
  obtain y r' where "ReadPhysicalRecord (r\<lparr>lr_res := case st of None \<Rightarrow> [] | Some x \<Rightarrow> x\<rparr>) = (y, r')" by fastforce
  moreover from this have "y = kEof" "lr_valid_end r' = ve" using e [of "case st of None \<Rightarrow> [] | Some x \<Rightarrow> x"] by simp_all
  ultimately show ?thesis unfolding read_on_def by (subst ReadRecord_loop.simps) simp
qed

lemma read_on_bad:
  assumes "\<And>res. ReadPhysicalRecord (lr_at f base pos ve res) = (kBad, lr_at f base pos ve res)"
  shows "read_on st (lr_at f base pos ve res) acc = read_on None (lr_at f base kBlockSize ve res) acc"
  unfolding read_on_def by (subst ReadRecord_loop.simps) (simp add: assms)

text \<open>At the end of a block the reader goes to the next one, if there is one.\<close>

lemma read_on_block_end:
  assumes "pos \<le> kBlockSize" "kBlockSize - pos < kHeaderSize"
  shows "read_on st (lr_at f base pos ve res) acc =
    (if length f \<le> base + kBlockSize then Some (acc, ve) else read_on st (lr_at f (base + kBlockSize) 0 ve res) acc)"
proof (cases "length (take kBlockSize (drop base f)) = kBlockSize")
  case True
  note step = read_phys_refill [OF assms True]
  show ?thesis
  proof (cases "length f \<le> base + kBlockSize")
    case e: True
    then show ?thesis using step by (intro read_on_eof [THEN trans]) simp_all
  next
    case False
    then have "ReadPhysicalRecord (lr_at f base pos ve res) = ReadPhysicalRecord (lr_at f (base + kBlockSize) 0 ve res)" for res
      using step by simp
    then show ?thesis using False by (simp add: read_on_cong [of "lr_at f base pos ve res" "lr_at f (base + kBlockSize) 0 ve res"])
  qed
next
  case False
  then have l: "length f < base + kBlockSize" by auto
  have "kBlockSize < pos + kHeaderSize" using assms by linarith
  then have "length (take kBlockSize (drop base f)) < pos + kHeaderSize" by (simp add: min_def)
  then have "ReadPhysicalRecord (lr_at f base pos ve res) = (kEof, lr_at f base pos ve res)" for res
    using False by (subst ReadPhysicalRecord.simps) (simp add: min_def split: if_splits)
  then show ?thesis using l by (intro read_on_eof [THEN trans]) simp_all
qed

lemma read_on_end:
  assumes "pos \<le> kBlockSize" "length f = base + pos"
  shows "read_on st (lr_at f base pos ve res) acc = Some (acc, ve)"
proof (rule read_on_eof)
  fix res'
  have fits: "frag_fits pos (kFullType, [])"
    using assms(1) by (auto simp: frag_fits_def pad_off_def kBlockSize_def kHeaderSize_def kFullType_def kLastType_def)
  have "drop (base + pos) f = take 0 (replicate (pad_len pos) 0 @ enc_phys (kFullType, []))"
    "0 < pad_len pos + length (enc_phys (kFullType, []))" using assms(2) by (simp_all add: kHeaderSize_def)
  from read_phys_eof [OF fits this] assms(2)
  show "fst (ReadPhysicalRecord (lr_at f base pos ve res\<lparr>lr_res := res'\<rparr>)) = kEof \<and>
      lr_valid_end (snd (ReadPhysicalRecord (lr_at f base pos ve res\<lparr>lr_res := res'\<rparr>))) = ve" by simp
qed

text \<open>Fragments that stay in the block they begin in.\<close>

fun in_block :: "nat \<Rightarrow> frag list \<Rightarrow> bool" where
  "in_block off [] \<longleftrightarrow> True"
| "in_block off (f # fs) \<longleftrightarrow> kHeaderSize \<le> kBlockSize - off \<and> in_block (next_off off f) fs"

lemma in_block_length: "in_block off fs \<Longrightarrow> off + length (layout off fs) = end_off off fs"
proof (induction fs arbitrary: off)
  case (Cons f fs)
  then have "pad_len off = 0" "next_off off f = off + kHeaderSize + length (snd f)"
    by (auto simp: pad_len_def pad_off_def next_off_def)
  then show ?case using Cons.IH [of "next_off off f"] Cons.prems by (simp add: add.assoc)
qed simp

lemma layout_block_start:
  assumes "pad_off off = 0" "fs \<noteq> []"
  shows "layout off fs = replicate (pad_len off) 0 @ layout 0 fs"
proof -
  have "pad_len 0 = 0" "pad_off 0 = 0" by (simp_all add: pad_len_def pad_off_def kBlockSize_def kHeaderSize_def)
  then show ?thesis using assms by (cases fs) (simp_all add: next_off_def)
qed

lemma fits_block_start: "pad_off off = 0 \<Longrightarrow> fits off fs \<Longrightarrow> fits 0 fs"
proof -
  have "pad_off 0 = 0" by (simp add: pad_off_def)
  then show "pad_off off = 0 \<Longrightarrow> fits off fs \<Longrightarrow> fits 0 fs"
    by (cases fs) (simp_all add: frag_fits_def next_off_def)
qed

text \<open>Over the padding in front of a fragment; and from the end of one block through the rest.\<close>

lemma read_on_padding:
  assumes "pos \<le> kBlockSize" "drop (b + pos) f = replicate (pad_len pos) 0 @ tail" "tail \<noteq> []"
  shows "\<exists>b2. read_on st (lr_at f b pos ve res) acc = read_on st (lr_at f b2 (pad_off pos) ve res) acc \<and>
    drop (b2 + pad_off pos) f = tail"
proof (cases "kHeaderSize \<le> kBlockSize - pos")
  case True
  then have "pad_off pos = pos" "pad_len pos = 0" by (auto simp: pad_off_def pad_len_def)
  then show ?thesis using assms(2) by auto
next
  case False
  then have p: "pad_off pos = 0" "pad_len pos = kBlockSize - pos" by (auto simp: pad_off_def pad_len_def)
  have "drop (kBlockSize - pos) (drop (b + pos) f) = tail" using assms(2) p(2) by simp
  then have d: "drop (b + kBlockSize) f = tail" using assms(1) by (simp add: add.commute)
  then have "\<not> length f \<le> b + kBlockSize" using assms(3) by auto
  then show ?thesis
    using d p(1) read_on_block_end [OF assms(1), of st f b ve res acc] False by (intro exI [of _ "b + kBlockSize"]) simp
qed

lemma read_on_next_block:
  assumes "fits 0 fs" "drop (b + kBlockSize) f = layout 0 fs"
  shows "\<exists>e. read_on None (lr_at f b kBlockSize ve []) acc = Some (acc @ assemble None fs, e)"
proof -
  have step: "read_on None (lr_at f b kBlockSize ve []) acc =
      (if length f \<le> b + kBlockSize then Some (acc, ve) else read_on None (lr_at f (b + kBlockSize) 0 ve []) acc)"
    by (rule read_on_block_end) (simp_all add: kHeaderSize_def)
  show ?thesis
  proof (cases "fs = []")
    case True
    then show ?thesis using step assms(2) by simp
  next
    case False
    then have "layout 0 fs \<noteq> []" by (cases fs) (simp_all add: enc_phys_def)
    then have len: "b + kBlockSize < length f" "length f = b + kBlockSize + length (layout 0 fs)"
      using arg_cong [OF assms(2), of length] by (simp_all flip: length_greater_0_conv)
    have "drop (b + kBlockSize + 0) f = layout 0 fs @ []" using assms(2) by simp
    from read_on_layout [OF assms(1) this] len(2) obtain b3 ve3 where
      "read_on None (lr_at f (b + kBlockSize) 0 ve []) acc =
        read_on (snd (frag_run None fs)) (lr_at f b3 (end_off 0 fs) ve3 []) (acc @ assemble None fs)"
      "b3 + end_off 0 fs = length f" by (fastforce simp: fst_frag_run)
    then show ?thesis using step len(1) read_on_end [of "end_off 0 fs" f b3] fits_end [OF assms(1)] by simp
  qed
qed

text \<open>What stands in the rest of a block behind a fragment, damaged or not.\<close>

lemma rest_of_block:
  assumes "in_block n fs2" "end_off n fs2 \<le> kBlockSize" "fs3 = [] \<or> pad_off (end_off n fs2) = 0" "0 < n" "n \<le> kBlockSize"
  shows "drop (kBlockSize - n) (layout n (fs2 @ fs3)) = layout 0 fs3"
proof -
  let ?e = "end_off n fs2"
  have l: "n + length (layout n fs2) = ?e" using in_block_length assms(1) by blast
  show ?thesis
  proof (cases "fs3 = []")
    case True
    then show ?thesis using l assms(2) by simp
  next
    case False
    then have pe: "pad_off ?e = 0" using assms(3) by simp
    have "0 < ?e" using l assms(4) by simp
    then have "pad_len ?e = kBlockSize - ?e" using pe by (auto simp: pad_off_def pad_len_def split: if_splits)
    then have "layout n (fs2 @ fs3) = (layout n fs2 @ replicate (kBlockSize - ?e) 0) @ layout 0 fs3"
      using layout_block_start [OF pe False] by (simp add: layout_append)
    moreover have "length (layout n fs2 @ replicate (kBlockSize - ?e) 0) = kBlockSize - n" using l assms(2) by simp
    ultimately show ?thesis by simp
  qed
qed

section \<open>A damaged fragment\<close>

text \<open>
  C27. Damage in a log costs no more than what stands behind it in the block: if up to four
  consecutive bytes of type and payload of a fragment are changed, the reader returns the
  records that are complete before it and all that begin in the blocks after it.  So the
  records that come back need not be the first ones written.
\<close>

theorem log_damage_contained:
  assumes "fits 0 (fs1 @ fr # fs2 @ fs3)"
    and "fst fr # snd fr = pre @ as @ post" "t' # p' = pre @ bs @ post"
    and "length as = length bs" "length as \<le> 4" "as \<noteq> bs"
    and "in_block (next_off (end_off 0 fs1) fr) fs2" "fs3 = [] \<or> pad_off (end_off 0 (fs1 @ fr # fs2)) = 0"
  defines "f \<equiv> layout 0 fs1 @ replicate (pad_len (end_off 0 fs1)) 0 @ take 6 (enc_phys fr) @ (t' # p') @
      layout (next_off (end_off 0 fs1) fr) (fs2 @ fs3)"
  shows "\<exists>e. read_log all_read f = Some (assemble None fs1 @ assemble None fs3, e)"
proof -
  define off where "off = end_off 0 fs1"
  define n where "n = next_off off fr"
  define tail where "tail = take 6 (enc_phys fr) @ (t' # p') @ layout n (fs2 @ fs3)"
  have f: "f = layout 0 fs1 @ replicate (pad_len off) 0 @ tail" by (simp add: f_def off_def n_def tail_def)
  have fit: "fits 0 fs1" "frag_fits off fr" "fits n fs2" "fits (end_off n fs2) fs3"
    using assms(1) by (simp_all add: fits_append off_def n_def)
  have hd: "frag_fits (pad_off off) fr" "kHeaderSize \<le> kBlockSize - pad_off off" and offB: "off \<le> kBlockSize"
    using fit(2) by (auto simp: frag_fits_def pad_off_def kBlockSize_def kHeaderSize_def split: if_splits)
  have n: "n = pad_off off + kHeaderSize + length (snd fr)" "n \<le> kBlockSize"
    using frag_fits_next fit(2) by (auto simp: n_def next_off_def)
  let ?acc = "assemble None fs1"
  let ?st = "snd (frag_run None fs1)"
  obtain b ve where s1: "read_log all_read f = read_on ?st (lr_at f b off ve []) ?acc" "drop (b + off) f = replicate (pad_len off) 0 @ tail"
    using read_on_layout [OF fit(1), of 0 f "replicate (pad_len off) 0 @ tail" None 0 "[]" "[]"]
    by (auto simp: f read_log_def lr_at_new read_all_on fst_frag_run off_def)
  have "tail \<noteq> []" by (simp add: tail_def)
  from read_on_padding [OF offB s1(2) this] obtain b2 where
    s2: "read_log all_read f = read_on ?st (lr_at f b2 (pad_off off) ve []) ?acc" "drop (b2 + pad_off off) f = tail"
    using s1(1) by metis
  have "ReadPhysicalRecord (lr_at f b2 (pad_off off) ve res) = (kBad, lr_at f b2 (pad_off off) ve res)" for res
    using read_phys_damaged [OF hd assms(2-6)] s2(2) by (simp add: tail_def)
  from read_on_bad [OF this] have s3: "read_log all_read f = read_on None (lr_at f b2 kBlockSize ve []) ?acc"
    using s2(1) by simp
  have pe: "fs3 = [] \<or> pad_off (end_off n fs2) = 0" using assms(8) by (simp add: end_off_append n_def off_def)
  have "in_block n fs2" "0 < n" using assms(7) n(1) by (simp_all add: n_def off_def kHeaderSize_def)
  from rest_of_block [OF this(1) fits_end [OF fit(3)] pe this(2) n(2)]
  have rest: "drop (kBlockSize - n) (layout n (fs2 @ fs3)) = layout 0 fs3" .
  have "length p' = length (snd fr)"
    using arg_cong [OF assms(2), of length] arg_cong [OF assms(3), of length] assms(4) by simp
  then have "length (take 6 (enc_phys fr) @ t' # p') = n - pad_off off" by (simp add: n(1) kHeaderSize_def)
  then have "drop (n - pad_off off) tail = layout n (fs2 @ fs3)" by (simp add: tail_def flip: append_assoc append_Cons)
  moreover have "kBlockSize - n + (n - pad_off off + (b2 + pad_off off)) = b2 + kBlockSize" using n by linarith
  then have "drop (b2 + kBlockSize) f = drop (kBlockSize - n) (drop (n - pad_off off) (drop (b2 + pad_off off) f))"
    by (simp only: drop_drop)
  ultimately have "drop (b2 + kBlockSize) f = layout 0 fs3" by (simp only: s2(2) rest)
  moreover have "fits 0 fs3" using fits_block_start pe fit(4) by (cases "fs3 = []") auto
  ultimately show ?thesis using read_on_next_block s3 by metis
qed

theorem log_damage_contained_witness:
  "\<exists>p e. read_log all_read (layout 0 [(kFullType, [1])] @ take 6 (enc_phys (kFullType, 9 # p)) @ (kFullType # 8 # p) @
      layout kBlockSize [(kFullType, [2])]) = Some ([[1], [2]], e)"
proof -
  let ?p = "replicate (kBlockSize - 16) (0 :: byte)"
  let ?fr = "(kFullType, 9 # ?p)"
  have B: "kBlockSize = 32768" and H: "kHeaderSize = 7" by (simp_all add: kBlockSize_def kHeaderSize_def)
  have o: "end_off 0 [(kFullType, [1])] = 8" "next_off 8 ?fr = kBlockSize" "pad_len 8 = 0"
    by (simp_all add: next_off_def pad_off_def pad_len_def B H)
  have "frag_fits 0 (kFullType, [1])" "frag_fits 8 ?fr" "frag_fits kBlockSize (kFullType, [2])"
    by (simp_all add: frag_fits_def pad_off_def B H kFullType_def kLastType_def)
  then have "fits 0 ([(kFullType, [1])] @ ?fr # [] @ [(kFullType, [2])])"
    using frag_fits_next by (simp add: next_off_def pad_off_def B H)
  moreover have "fst ?fr # snd ?fr = [kFullType] @ [9] @ ?p" "kFullType # 8 # ?p = [kFullType] @ [8] @ ?p" by simp_all
  moreover have "pad_off (end_off 0 ([(kFullType, [1])] @ ?fr # [])) = 0"
    by (simp add: next_off_def pad_off_def B H)
  ultimately have "\<exists>e. read_log all_read (layout 0 [(kFullType, [1])] @ replicate (pad_len (end_off 0 [(kFullType, [1])])) 0 @
      take 6 (enc_phys ?fr) @ (kFullType # 8 # ?p) @ layout (next_off (end_off 0 [(kFullType, [1])]) ?fr) ([] @ [(kFullType, [2])])) =
      Some (assemble None [(kFullType, [1])] @ assemble None [(kFullType, [2])], e)"
    by (intro log_damage_contained [where pre = "[kFullType]" and as = "[9]" and bs = "[8]" and post = ?p]) simp_all
  then show ?thesis unfolding o by (intro exI [of _ ?p]) (simp only: assemble.simps simp_thms if_True replicate_0 append_Nil append_Cons)
qed

end
