(* ===== verification/Threads.thy ===== *)
theory Threads
  imports DbRun
begin

text \<open>
  Threads.  \<open>Write\<close> and \<open>Get\<close> of \<open>src/db/db_impl.cc\<close> take \<open>mutex_\<close> with a \<open>std::lock_guard\<close> and
  work on the shared members until they return.  Here their bodies are split into the
  statements that touch the shared state, the statements of all threads are interleaved in
  any way, and the results are shown to be those of the calls made one after the other.
\<close>

section \<open>The statements under the mutex\<close>

datatype call = CallOp op | CallGet bytes

type_synonym result = "Status \<times> bytes option"

text \<open>Where a thread stands inside \<open>Write\<close>, with its batch, and inside \<open>Get\<close>, with the key
  and the position in \<open>tables_\<close>; \<open>Leaves\<close> is about to release the mutex.\<close>

datatype body =
    Stamps bytes
  | Logs bytes
  | Inserts bytes
  | Counts bytes
  | Checks
  | Looks bytes
  | Tables bytes nat
  | Leaves result

text \<open>The batch of \<open>Put\<close> and \<open>Delete\<close> is built before the mutex is taken.\<close>

fun enters :: "call \<Rightarrow> body" where
  "enters (CallOp x) = Stamps (batch_add x WriteBatch_Clear)"
| "enters (CallGet key) = Looks key"

fun statement :: "Env \<Rightarrow> body \<Rightarrow> DBImpl \<Rightarrow> Dir \<Rightarrow> (body \<times> DBImpl \<times> Dir) option" where
  "statement env (Stamps batch) db dir = Some (Logs (WriteBatch_set_sequence (last_seq db + 1) batch), db, dir)"
| "statement env (Logs batch) db dir =
     (case db_log db of
        None \<Rightarrow> None
      | Some w \<Rightarrow>
          let (s1, w) = LogWriter_AddRecord (env_os env (LogFileName (dbname db) (log_number db))) batch w
          in Some (if ok s1 then Inserts batch else Leaves (s1, None), db\<lparr>db_log := Some w\<rparr>, dir))"
| "statement env (Inserts batch) db dir =
     (let (s2, mo) = WriteBatch_Iterate (MemTableInserter_Put (env_char env)) (MemTableInserter_Delete (env_char env))
            batch (Some (db_mem db))
      in case mo of
           None \<Rightarrow> None
         | Some mem \<Rightarrow> Some (if ok s2 then Counts batch else Leaves (s2, None), db\<lparr>db_mem := mem\<rparr>, dir))"
| "statement env (Counts batch) db dir =
     Some (Checks, db\<lparr>last_seq := last_seq db + word_of_int (WriteBatch_Count batch)\<rparr>, dir)"
| "statement env Checks db dir =
     (if ApproximateMemoryUsage (db_mem db) \<ge> kMaxMemTableBytes
      then map_option (\<lambda>(s, db, dir). (Leaves (s, None), db, dir)) (FlushMemTable env db dir)
      else Some (Leaves (Status_OK, None), db, dir))"
| "statement env (Looks key) db dir =
     (case MemTable_Get key (db_mem db) of
        None \<Rightarrow> None
      | Some (kValue v) \<Rightarrow> Some (Leaves (Status_OK, Some v), db, dir)
      | Some kDeleted \<Rightarrow> Some (Leaves (NotFound key, None), db, dir)
      | Some kNotFoundState \<Rightarrow> Some (Tables key 0, db, dir))"
| "statement env (Tables key i) db dir =
     (if i < length (db_tables db) then
        (case Table_Get key (db_tables db ! i) of
           None \<Rightarrow> None
         | Some (kValue v) \<Rightarrow> Some (Leaves (Status_OK, Some v), db, dir)
         | Some kDeleted \<Rightarrow> Some (Leaves (NotFound key, None), db, dir)
         | Some kNotFoundState \<Rightarrow> Some (Tables key (i + 1), db, dir))
      else Some (Leaves (NotFound key, None), db, dir))"
| "statement env (Leaves r) db dir = None"

section \<open>Interleaving\<close>

text \<open>
  A thread is idle, waits for the mutex, or is inside.  The history lists the calls that have
  returned, in the order in which they released the mutex.
\<close>

datatype pc = Idle | Waits Env call | Inside Env call body

type_synonym history = "(nat \<times> Env \<times> call \<times> result) list"

record Process =
  owner :: "nat option"
  shared :: DBImpl
  files :: Dir
  pcs :: "nat \<Rightarrow> pc"
  past :: history

definition Process_start :: "DBImpl \<Rightarrow> Dir \<Rightarrow> Process" where
  "Process_start db dir = \<lparr>owner = None, shared = db, files = dir, pcs = \<lambda>_. Idle, past = []\<rparr>"

text \<open>
  Nothing but the mutex keeps the statements of one thread apart from those of another: the
  rule for a statement does not ask who owns it.
\<close>

inductive interleaved :: "Process \<Rightarrow> Process \<Rightarrow> bool" for p0 where
  start: "interleaved p0 p0"
| calls: "interleaved p0 p \<Longrightarrow> pcs p t = Idle \<Longrightarrow> interleaved p0 (p\<lparr>pcs := (pcs p)(t := Waits env c)\<rparr>)"
| locks: "interleaved p0 p \<Longrightarrow> pcs p t = Waits env c \<Longrightarrow> owner p = None \<Longrightarrow>
    interleaved p0 (p\<lparr>owner := Some t, pcs := (pcs p)(t := Inside env c (enters c))\<rparr>)"
| works: "interleaved p0 p \<Longrightarrow> pcs p t = Inside env c b \<Longrightarrow> statement env b (shared p) (files p) = Some (b', db, dir) \<Longrightarrow>
    interleaved p0 (p\<lparr>shared := db, files := dir, pcs := (pcs p)(t := Inside env c b')\<rparr>)"
| unlocks: "interleaved p0 p \<Longrightarrow> pcs p t = Inside env c (Leaves r) \<Longrightarrow>
    interleaved p0 (p\<lparr>owner := None, pcs := (pcs p)(t := Idle), past := past p @ [(t, env, c, r)]\<rparr>)"

section \<open>One call after the other\<close>

fun performs :: "Env \<Rightarrow> call \<Rightarrow> DBImpl \<Rightarrow> Dir \<Rightarrow> (result \<times> DBImpl \<times> Dir) option" where
  "performs env (CallOp x) db dir = map_option (\<lambda>(s, db, dir). ((s, None), db, dir)) (DBImpl_op env x db dir)"
| "performs env (CallGet key) db dir = map_option (\<lambda>r. (r, db, dir)) (DBImpl_Get key db)"

text \<open>The state after the calls of a history, if they have the results it says.\<close>

fun serial :: "history \<Rightarrow> DBImpl \<Rightarrow> Dir \<Rightarrow> (DBImpl \<times> Dir) option" where
  "serial [] db dir = Some (db, dir)"
| "serial ((t, env, c, r) # h) db dir =
     (case performs env c db dir of
        None \<Rightarrow> None
      | Some (r', db, dir) \<Rightarrow> if r' = r then serial h db dir else None)"

lemma serial_append:
  "serial (h @ h') db dir = (case serial h db dir of None \<Rightarrow> None | Some (db, dir) \<Rightarrow> serial h' db dir)"
  by (induction h db dir rule: serial.induct) (auto split: option.split)

text \<open>What a thread inside has still to do, as a function of the state it finds.\<close>

type_synonym remainder = "DBImpl \<Rightarrow> Dir \<Rightarrow> (result \<times> DBImpl \<times> Dir) option"

definition from_checks :: "Env \<Rightarrow> remainder" where
  "from_checks env db dir =
     (if ApproximateMemoryUsage (db_mem db) \<ge> kMaxMemTableBytes
      then map_option (\<lambda>(s, db, dir). ((s, None), db, dir)) (FlushMemTable env db dir)
      else Some ((Status_OK, None), db, dir))"

definition from_counts :: "Env \<Rightarrow> bytes \<Rightarrow> remainder" where
  "from_counts env batch db = from_checks env (db\<lparr>last_seq := last_seq db + word_of_int (WriteBatch_Count batch)\<rparr>)"

definition from_inserts :: "Env \<Rightarrow> bytes \<Rightarrow> remainder" where
  "from_inserts env batch db dir =
     (case WriteBatch_Iterate (MemTableInserter_Put (env_char env)) (MemTableInserter_Delete (env_char env))
            batch (Some (db_mem db)) of
        (s2, None) \<Rightarrow> None
      | (s2, Some mem) \<Rightarrow>
          if ok s2 then from_counts env batch (db\<lparr>db_mem := mem\<rparr>) dir else Some ((s2, None), db\<lparr>db_mem := mem\<rparr>, dir))"

definition from_logs :: "Env \<Rightarrow> bytes \<Rightarrow> remainder" where
  "from_logs env batch db dir =
     (case db_log db of
        None \<Rightarrow> None
      | Some w \<Rightarrow>
          (case LogWriter_AddRecord (env_os env (LogFileName (dbname db) (log_number db))) batch w of
             (s1, w) \<Rightarrow> if ok s1 then from_inserts env batch (db\<lparr>db_log := Some w\<rparr>) dir
                         else Some ((s1, None), db\<lparr>db_log := Some w\<rparr>, dir)))"

fun remains :: "Env \<Rightarrow> body \<Rightarrow> remainder" where
  "remains env (Stamps batch) db dir = from_logs env (WriteBatch_set_sequence (last_seq db + 1) batch) db dir"
| "remains env (Logs batch) db dir = from_logs env batch db dir"
| "remains env (Inserts batch) db dir = from_inserts env batch db dir"
| "remains env (Counts batch) db dir = from_counts env batch db dir"
| "remains env Checks db dir = from_checks env db dir"
| "remains env (Looks key) db dir = map_option (\<lambda>r. (r, db, dir)) (DBImpl_Get key db)"
| "remains env (Tables key i) db dir = map_option (\<lambda>r. (r, db, dir)) (Get_tables key (drop i (db_tables db)))"
| "remains env (Leaves r) db dir = Some (r, db, dir)"

text \<open>It is the whole call at the beginning, and a statement leaves it as it is.\<close>

lemma remains_enters: "remains env (enters c) db dir = performs env c db dir"
proof (cases c)
  case (CallOp x)
  have "DBImpl_op env x db dir = DBImpl_Write env (batch_add x WriteBatch_Clear) db dir"
    by (cases x) (simp_all add: DBImpl_op_def DBImpl_Put_def DBImpl_Delete_def)
  then show ?thesis
    by (auto simp: CallOp DBImpl_Write_def from_logs_def from_inserts_def from_counts_def from_checks_def Let_def
      split: option.split prod.split)
qed simp

lemma statement_remains:
  assumes "statement env b db dir = Some (b', db', dir')"
  shows "remains env b db dir = remains env b' db' dir'"
proof (cases b)
  case (Tables key i)
  show ?thesis
  proof (cases "i < length (db_tables db)")
    case True
    then show ?thesis
      using assms by (subst (asm) Tables, simp add: Tables flip: Cons_nth_drop_Suc) (auto split: option.splits LookupState.splits)
  next
    case False
    then show ?thesis using assms by (auto simp: Tables)
  qed
next
  case (Looks key)
  then show ?thesis using assms by (auto simp: DBImpl_Get_def split: option.splits LookupState.splits)
qed (use assms in \<open>auto simp: from_logs_def from_inserts_def from_counts_def from_checks_def Let_def
    split: option.splits prod.splits if_splits\<close>)

text \<open>Where the statements of a call lead, from a state in which nobody is inside.\<close>

inductive began :: "Env \<Rightarrow> call \<Rightarrow> DBImpl \<Rightarrow> Dir \<Rightarrow> body \<Rightarrow> DBImpl \<Rightarrow> Dir \<Rightarrow> bool" for env c db dir where
  began_enters: "began env c db dir (enters c) db dir"
| began_statement: "began env c db dir b db1 dir1 \<Longrightarrow> statement env b db1 dir1 = Some (b', db2, dir2) \<Longrightarrow>
    began env c db dir b' db2 dir2"

lemma began_remains: "began env c db dir b db1 dir1 \<Longrightarrow> remains env b db1 dir1 = performs env c db dir"
  by (induction rule: began.induct) (simp_all add: remains_enters flip: statement_remains)

section \<open>The invariant\<close>

fun inside :: "pc \<Rightarrow> bool" where
  "inside (Inside env c b) \<longleftrightarrow> True"
| "inside _ \<longleftrightarrow> False"

text \<open>
  The thread inside is the owner, and the others have left the state where the calls of the
  history lead; what the owner has done since has not changed what its call will give.
\<close>

definition in_order :: "DBImpl \<Rightarrow> Dir \<Rightarrow> Process \<Rightarrow> bool" where
  "in_order db0 dir0 p \<longleftrightarrow> (\<forall>t. inside (pcs p t) \<longleftrightarrow> owner p = Some t) \<and>
     (\<exists>db dir. serial (past p) db0 dir0 = Some (db, dir) \<and>
       (owner p = None \<longrightarrow> shared p = db \<and> files p = dir) \<and>
       (\<forall>t env c b. pcs p t = Inside env c b \<longrightarrow> began env c db dir b (shared p) (files p)))"

lemma inside_iff: "inside x \<longleftrightarrow> (\<exists>env c b. x = Inside env c b)"
  by (cases x) auto

lemma in_order_owner: "in_order db0 dir0 p \<Longrightarrow> pcs p t = Inside env c b \<Longrightarrow> owner p = Some t"
  unfolding in_order_def by (metis inside.simps(1))

lemma interleaved_in_order:
  assumes "interleaved (Process_start db0 dir0) p"
  shows "in_order db0 dir0 p"
  using assms
proof (induction rule: interleaved.induct)
  case start
  then show ?case by (simp add: in_order_def Process_start_def)
next
  case (calls p t env c)
  then have "\<not> inside (pcs p t)" by simp
  then show ?case using calls.IH by (auto simp: in_order_def)
next
  case (locks p t env c)
  then have "inside (pcs p u) \<longleftrightarrow> False" for u by (simp add: in_order_def)
  then have "\<not> (\<exists>env c b. pcs p u = Inside env c b)" for u by (simp add: inside_iff)
  then show ?case using locks by (auto simp: in_order_def intro: began_enters)
next
  case (works p t env c b b' db' dir')
  have o: "owner p = Some t" using in_order_owner works by blast
  obtain db dir where s: "serial (past p) db0 dir0 = Some (db, dir)" "\<forall>u. inside (pcs p u) \<longleftrightarrow> owner p = Some u"
    "began env c db dir b (shared p) (files p)"
    using works.IH works.hyps(2) unfolding in_order_def by blast
  have "began env c db dir b' db' dir'" using began_statement [OF s(3) works.hyps(3)] .
  moreover have "\<not> inside (pcs p u)" if "u \<noteq> t" for u using s(2) o that by simp
  ultimately show ?case using s(1,2) o by (auto simp: in_order_def inside_iff)
next
  case (unlocks p t env c r)
  have o: "owner p = Some t" using in_order_owner unlocks by blast
  obtain db dir where s: "serial (past p) db0 dir0 = Some (db, dir)" "\<forall>u. inside (pcs p u) \<longleftrightarrow> owner p = Some u"
    "began env c db dir (Leaves r) (shared p) (files p)"
    using unlocks.IH unlocks.hyps(2) unfolding in_order_def by blast
  have "\<not> inside (pcs p u)" if "u \<noteq> t" for u using s(2) o that by simp
  moreover have "performs env c db dir = Some (r, shared p, files p)" using began_remains [OF s(3)] by simp
  then have "serial (past p @ [(t, env, c, r)]) db0 dir0 = Some (shared p, files p)" using s(1) by (simp add: serial_append)
  ultimately show ?case by (auto simp: in_order_def inside_iff)
qed

section \<open>Progress\<close>

text \<open>A thread inside whose call has a result gets to it, by its own statements alone.\<close>

fun steps_left :: "body \<Rightarrow> DBImpl \<Rightarrow> nat" where
  "steps_left (Stamps batch) db = 5"
| "steps_left (Logs batch) db = 4"
| "steps_left (Inserts batch) db = 3"
| "steps_left (Counts batch) db = 2"
| "steps_left Checks db = 1"
| "steps_left (Looks key) db = length (db_tables db) + 2"
| "steps_left (Tables key i) db = length (db_tables db) - i + 1"
| "steps_left (Leaves r) db = 0"

lemma statement_exists:
  assumes "remains env b db dir = Some x" "\<And>r. b \<noteq> Leaves r"
  shows "\<exists>b' db' dir'. statement env b db dir = Some (b', db', dir') \<and> steps_left b' db' < steps_left b db"
proof (cases b)
  case (Tables key i)
  show ?thesis
  proof (cases "i < length (db_tables db)")
    case True
    then show ?thesis
      using assms by (subst (asm) Tables, simp add: Tables flip: Cons_nth_drop_Suc) (auto split: option.splits LookupState.splits)
  next
    case False
    then show ?thesis by (simp add: Tables)
  qed
next
  case (Looks key)
  then show ?thesis using assms by (auto simp: DBImpl_Get_def split: option.splits LookupState.splits)
qed (use assms in \<open>auto simp: from_logs_def from_inserts_def from_counts_def from_checks_def Let_def
    split: option.splits prod.splits if_splits\<close>)

lemma works_to_the_end:
  assumes "interleaved p0 p" "pcs p t = Inside env c b" "remains env b (shared p) (files p) = Some (r, db, dir)"
  shows "\<exists>p'. interleaved p0 p' \<and> pcs p' = (pcs p)(t := Inside env c (Leaves r)) \<and> shared p' = db \<and> files p' = dir \<and>
    owner p' = owner p \<and> past p' = past p"
  using assms
proof (induction "steps_left b (shared p)" arbitrary: p b rule: less_induct)
  case less
  show ?case
  proof (cases "\<exists>r'. b = Leaves r'")
    case True
    then have "b = Leaves r" "shared p = db" "files p = dir" using less.prems(3) by auto
    then show ?thesis using less.prems(1,2) by (intro exI [of _ p]) (auto simp: fun_eq_iff)
  next
    case False
    then obtain b' db' dir' where s: "statement env b (shared p) (files p) = Some (b', db', dir')"
      "steps_left b' db' < steps_left b (shared p)"
      using statement_exists [OF less.prems(3)] by blast
    let ?p = "p\<lparr>shared := db', files := dir', pcs := (pcs p)(t := Inside env c b')\<rparr>"
    have "interleaved p0 ?p" using works [OF less.prems(1,2) s(1)] .
    moreover have "remains env b' db' dir' = Some (r, db, dir)" using statement_remains [OF s(1)] less.prems(3) by simp
    ultimately show ?thesis using less.hyps [of b' ?p] s(2) by simp
  qed
qed

lemma call_runs:
  assumes "interleaved p0 p" "pcs p t = Idle" "owner p = None" "performs env c (shared p) (files p) = Some (r, db, dir)"
  obtains p' where "interleaved p0 p'" "pcs p' = pcs p" "owner p' = None" "shared p' = db" "files p' = dir"
    "past p' = past p @ [(t, env, c, r)]"
proof -
  let ?p1 = "p\<lparr>pcs := (pcs p)(t := Waits env c)\<rparr>"
  let ?p2 = "?p1\<lparr>owner := Some t, pcs := (pcs ?p1)(t := Inside env c (enters c))\<rparr>"
  have "interleaved p0 ?p1" using calls [OF assms(1,2)] .
  then have i2: "interleaved p0 ?p2" by (rule locks) (simp_all add: assms(3))
  have "remains env (enters c) (shared ?p2) (files ?p2) = Some (r, db, dir)" using assms(4) by (simp add: remains_enters)
  from works_to_the_end [OF i2 _ this, of t c] obtain p3 where p3: "interleaved p0 p3"
    "pcs p3 = (pcs p)(t := Inside env c (Leaves r))" "shared p3 = db" "files p3 = dir" "past p3 = past p" by auto
  have "interleaved p0 (p3\<lparr>owner := None, pcs := (pcs p3)(t := Idle), past := past p3 @ [(t, env, c, r)]\<rparr>)"
    by (rule unlocks [OF p3(1)]) (simp add: p3(2))
  then show ?thesis using that p3 assms(2) by (fastforce simp: fun_upd_idem)
qed

section \<open>Properties\<close>

text \<open>
  C11. Calls of several threads are linearizable: however the statements of all threads are
  interleaved, at most one thread is inside, the calls that have returned have the results
  they have when made one after the other in the order in which they released the mutex, and
  when nobody is inside the database and the directory are those of that sequence.  The
  thread inside can always finish, if its call does when made alone.
\<close>

theorem threads_linearizable:
  assumes "interleaved (Process_start db0 dir0) p"
  shows "\<exists>db dir. serial (past p) db0 dir0 = Some (db, dir) \<and>
    (owner p = None \<longrightarrow> shared p = db \<and> files p = dir) \<and>
    (\<forall>t. inside (pcs p t) \<longleftrightarrow> owner p = Some t) \<and>
    (\<forall>t env c b r db' dir'. pcs p t = Inside env c b \<longrightarrow> performs env c db dir = Some (r, db', dir') \<longrightarrow>
      (\<exists>p'. interleaved (Process_start db0 dir0) p' \<and> owner p' = None \<and> past p' = past p @ [(t, env, c, r)]))"
proof -
  have "in_order db0 dir0 p" using interleaved_in_order [OF assms] .
  then obtain db dir where o: "serial (past p) db0 dir0 = Some (db, dir)" "owner p = None \<longrightarrow> shared p = db \<and> files p = dir"
    "\<forall>t. inside (pcs p t) \<longleftrightarrow> owner p = Some t"
    "\<forall>t env c b. pcs p t = Inside env c b \<longrightarrow> began env c db dir b (shared p) (files p)"
    unfolding in_order_def by (elim conjE exE)
  have step: "\<exists>p'. interleaved (Process_start db0 dir0) p' \<and> owner p' = None \<and> past p' = past p @ [(t, env, c, r)]"
    if i: "pcs p t = Inside env c b" "performs env c db dir = Some (r, db', dir')" for t env c b r db' dir'
  proof -
    have "remains env b (shared p) (files p) = Some (r, db', dir')" using o(4) i began_remains by metis
    from works_to_the_end [OF assms i(1) this] obtain p1 where
      p1: "interleaved (Process_start db0 dir0) p1" "pcs p1 = (pcs p)(t := Inside env c (Leaves r))" "past p1 = past p" by blast
    have "pcs p1 t = Inside env c (Leaves r)" by (simp add: p1(2))
    from unlocks [OF p1(1) this] p1(3) show ?thesis by (intro exI conjI) (assumption | simp)+
  qed
  have "\<forall>t env c b r db' dir'. pcs p t = Inside env c b \<longrightarrow> performs env c db dir = Some (r, db', dir') \<longrightarrow>
      (\<exists>p'. interleaved (Process_start db0 dir0) p' \<and> owner p' = None \<and> past p' = past p @ [(t, env, c, r)])"
    by (intro allI impI) (rule step)
  with o(1-3) show ?thesis by (intro exI [of _ db] exI [of _ dir] conjI)
qed

theorem threads_linearizable_witness:
  "\<exists>p. interleaved (Process_start (DBImpl_new calm_env []) []) p \<and> pcs p 2 = Waits calm_env (CallGet [7]) \<and>
    pcs p 1 = Inside calm_env (CallOp (OpDelete [7])) (Stamps (WriteBatch_Delete [7] WriteBatch_Clear)) \<and> \<not> inside (pcs p 2) \<and>
    serial (past p) (DBImpl_new calm_env []) [] = Some (DBImpl_new calm_env [], [])"
proof -
  let ?p0 = "Process_start (DBImpl_new calm_env []) []"
  let ?p1 = "?p0\<lparr>pcs := (pcs ?p0)(1 := Waits calm_env (CallOp (OpDelete [7])))\<rparr>"
  let ?p2 = "?p1\<lparr>pcs := (pcs ?p1)(2 := Waits calm_env (CallGet [7]))\<rparr>"
  let ?p3 = "?p2\<lparr>owner := Some 1, pcs := (pcs ?p2)(1 := Inside calm_env (CallOp (OpDelete [7])) (enters (CallOp (OpDelete [7]))))\<rparr>"
  have "interleaved ?p0 ?p1" by (rule calls [OF start]) (simp add: Process_start_def)
  then have "interleaved ?p0 ?p2" by (rule calls) (simp add: Process_start_def)
  then have i: "interleaved ?p0 ?p3" by (rule locks) (simp_all add: Process_start_def)
  from threads_linearizable [OF i] show ?thesis using i
    by (intro exI [of _ ?p3]) (auto simp: Process_start_def)
qed

text \<open>The results of a history are those of a map, if every call succeeds.\<close>

fun answers :: "history \<Rightarrow> kvmap \<Rightarrow> bool" where
  "answers [] m \<longleftrightarrow> True"
| "answers ((t, env, CallOp x, r) # h) m \<longleftrightarrow> ok (fst r) \<and> answers h (map_op x m)"
| "answers ((t, env, CallGet key, r) # h) m \<longleftrightarrow> r = map_result m key \<and> answers h m"

text \<open>The map after them.\<close>

fun map_after :: "history \<Rightarrow> kvmap \<Rightarrow> kvmap" where
  "map_after [] m = m"
| "map_after ((t, env, CallOp x, r) # h) m = map_after h (map_op x m)"
| "map_after ((t, env, CallGet key, r) # h) m = map_after h m"

fun good_call :: "bytes set \<Rightarrow> call \<Rightarrow> bool" where
  "good_call KS (CallOp x) \<longleftrightarrow> op_key x \<in> KS \<and> op_size x < 2 ^ 31"
| "good_call KS (CallGet key) \<longleftrightarrow> key \<in> KS"

lemma write_answers:
  assumes "db_run KS name n (Up db dir) {m}" "prefix_safe KS" "n + 1 < 2 ^ 55" "db_log db \<noteq> None"
    and "ApproximateMemoryUsage (db_mem db) < kMaxMemTableBytes" "perfect_env env" "good_call KS (CallOp x)"
    and "DBImpl_op env x db dir = Some (s, db', dir')"
  shows "ok s \<and> db_log db' \<noteq> None \<and> ApproximateMemoryUsage (db_mem db') < kMaxMemTableBytes \<and>
    db_run KS name (Suc n) (Up db' dir') {map_op x m}"
proof -
  have x: "op_key x \<in> KS" "mem_room db x" using assms(5,7) by (simp_all add: mem_room_def kMaxMemTableBytes_def)
  have env: "write_env env" using assms(6) by (simp add: perfect_env_def write_env_def good_env_def reads_settled_def)
  obtain f where "outcome KS name (2 * n + 1) (n + 1) f (IOError [], db, dir)"
    using db_run_inv [OF assms(1,2)] assms(3) by auto
  note h = outcome_holds [OF this assms(4)]
  have takes: "log_takes env x db" using log_takes_never_short [OF h] assms(6) by (simp add: perfect_env_def)
  have "2 * n + 1 + 2 < 2 ^ 64" "n + 1 + 1 \<le> 2 ^ 56" using assms(3) by simp_all
  from DBImpl_op_outcome [OF h assms(2) x(1) this env x(2) takes] assms(6,8)
  have o: "outcome KS name (2 * n + 1 + 2) (n + 1 + 1) (apply_op view_put view_delete x f) (s, db', dir')" "ok s"
    "ApproximateMemoryUsage (db_mem db') < kMaxMemTableBytes" by auto
  then have "db_log db' \<noteq> None" by (simp add: outcome_def)
  moreover have "db_run KS name (Suc n) (Up db' dir') (map_op x ` {m})"
    by (rule run_write [OF assms(1) x takes env assms(8)])
  ultimately show ?thesis using o(2,3) by simp
qed

lemma read_answers:
  assumes "db_run KS name n (Up db dir) {m}" "prefix_safe KS" "n < 2 ^ 55" "key \<in> KS"
  shows "DBImpl_Get key db = Some (map_result m key)"
proof -
  have "has_process (Up db dir) db dir" by (simp add: has_process_def)
  from process_left [OF db_run_inv [OF assms(1-3)] this] obtain f where
    "map_of_view f = m" "reads_ok KS db f" by (auto simp: left_holds_def)
  then show ?thesis using assms(4) by (auto simp: reads_ok_def get_result_map)
qed

lemma serial_run:
  assumes "db_run KS name n (Up db dir) {m}" "prefix_safe KS" "n + length h < 2 ^ 55" "db_log db \<noteq> None"
    and "ApproximateMemoryUsage (db_mem db) < kMaxMemTableBytes"
    and "\<forall>(t, env, c, r) \<in> set h. perfect_env env \<and> good_call KS c" "serial h db dir = Some (db', dir')"
  shows "answers h m \<and> db_log db' \<noteq> None \<and> ApproximateMemoryUsage (db_mem db') < kMaxMemTableBytes \<and>
    (\<exists>n' \<le> n + length h. db_run KS name n' (Up db' dir') {map_after h m})"
  using assms(1,3-)
proof (induction h arbitrary: n db dir m)
  case (Cons e h)
  obtain t env c r where e: "e = (t, env, c, r)" by (cases e)
  obtain db1 dir1 where p: "performs env c db dir = Some (r, db1, dir1)" "serial h db1 dir1 = Some (db', dir')"
    using Cons.prems(6) by (auto simp: e split: option.splits if_splits)
  have c: "perfect_env env" "good_call KS c" "\<forall>(t, env, c, r) \<in> set h. perfect_env env \<and> good_call KS c"
    using Cons.prems(5) by (simp_all add: e)
  show ?case
  proof (cases c)
    case (CallOp x)
    then obtain s where s: "DBImpl_op env x db dir = Some (s, db1, dir1)" "r = (s, None)" using p(1) by auto
    have n: "n + 1 < 2 ^ 55" "Suc n + length h < 2 ^ 55" using Cons.prems(2) by simp_all
    from write_answers [OF Cons.prems(1) assms(2) n(1) Cons.prems(3,4) c(1) c(2) [unfolded CallOp] s(1)]
    have "ok s" and next_state: "db_run KS name (Suc n) (Up db1 dir1) {map_op x m}" "db_log db1 \<noteq> None"
      "ApproximateMemoryUsage (db_mem db1) < kMaxMemTableBytes" by blast+
    from Cons.IH [OF next_state(1) n(2) next_state(2,3) c(3) p(2)] \<open>ok s\<close> s(2)
    show ?thesis by (simp add: e CallOp)
  next
    case (CallGet key)
    have "DBImpl_Get key db = Some (map_result m key)"
      using read_answers [OF Cons.prems(1) assms(2)] c(2) Cons.prems(2) by (simp add: CallGet)
    then have r: "r = map_result m key" "db1 = db" "dir1 = dir" using p(1) by (simp_all add: CallGet)
    have "n + length h < 2 ^ 55" using Cons.prems(2) by simp
    from Cons.IH [OF Cons.prems(1) this Cons.prems(3,4) c(3)] p(2) r show ?thesis by (auto simp: e CallGet intro: le_SucI)
  qed
qed auto

text \<open>
  C12. So several threads share one map.  When the system does not fail in the calls that have
  returned, their keys are of a \<open>prefix_safe\<close> set and what each writes is below 2 GiB, every one
  of them succeeded, and every \<open>Get\<close> has the value of the last \<open>Put\<close> or \<open>Delete\<close> of its key that
  released the mutex before it.
\<close>

theorem threads_share_map:
  assumes "db_run KS name n (Up db0 dir0) {m}" "prefix_safe KS" "n + length (past p) < 2 ^ 55" "db_log db0 \<noteq> None"
    and "ApproximateMemoryUsage (db_mem db0) < kMaxMemTableBytes" "interleaved (Process_start db0 dir0) p"
    and "\<forall>(t, env, c, r) \<in> set (past p). perfect_env env \<and> good_call KS c"
  shows "answers (past p) m"
proof -
  obtain db dir where "serial (past p) db0 dir0 = Some (db, dir)"
    using interleaved_in_order [OF assms(6)] unfolding in_order_def by (elim conjE exE)
  from serial_run [OF assms(1-5,7) this] show ?thesis by blast
qed

theorem threads_share_map_witness:
  "\<exists>db0 dir0 p s. DB_Open calm_env (str ''db'') [] = Some (Status_OK, Some db0, dir0) \<and>
     interleaved (Process_start db0 dir0) p \<and> ok (fst s) \<and>
     past p = [(1, calm_env, CallOp (OpPut (str ''k'') (str ''v'')), s), (2, calm_env, CallGet (str ''k''), (Status_OK, Some (str ''v'')))]"
proof -
  let ?x = "OpPut (str ''k'') (str ''v'')"
  obtain db0 dir0 where o: "DB_Open calm_env (str ''db'') [] = Some (Status_OK, Some db0, dir0)"
    "db_holds {str ''k''} (str ''db'') 2 1 db0 dir0 (\<lambda>_. kNotFoundState)"
    using empty_db by blast
  have r: "db_run {str ''k''} (str ''db'') (Suc 0) (Up db0 dir0) {Map.empty}"
    by (rule run_open [OF run_start calm_env_reads o(1)]) simp_all
  have log: "db_log db0 \<noteq> None" using o(2) by (auto simp: db_holds_def db_up_def)
  have use: "ApproximateMemoryUsage (db_mem db0) < kMaxMemTableBytes"
    using empty_db_usage [OF o(2)] by (simp add: sizeof_Node_def kMaxHeight_def kMaxMemTableBytes_def)
  have room: "mem_room db0 ?x" using empty_db_room [OF o(2)] by (simp add: str_def)
  have good: "good_call {str ''k''} (CallOp ?x)" by (simp add: str_def)
  obtain s db1 dir1 where w: "DBImpl_op calm_env ?x db0 dir0 = Some (s, db1, dir1)"
    using DBImpl_op_outcome [OF o(2) prefix_safe_single, of ?x calm_env] room calm_takes [OF o(2)] by (fastforce simp: str_def)
  from write_answers [OF r prefix_safe_single _ log use calm_env(1) good w]
  have r1: "db_run {str ''k''} (str ''db'') (Suc (Suc 0)) (Up db1 dir1) {map_op ?x Map.empty}" and s: "ok s" by simp_all
  have g: "DBImpl_Get (str ''k'') db1 = Some (map_result (map_op ?x Map.empty) (str ''k''))"
    by (rule read_answers [OF r1]) simp_all
  obtain p1 where p1: "interleaved (Process_start db0 dir0) p1" "pcs p1 = pcs (Process_start db0 dir0)" "owner p1 = None"
    "shared p1 = db1" "files p1 = dir1" "past p1 = [(1, calm_env, CallOp ?x, (s, None))]"
    by (rule call_runs [OF start, of "Process_start db0 dir0" 1 calm_env "CallOp ?x" "(s, None)" db1 dir1])
      (simp_all add: Process_start_def w)
  obtain p2 where p2: "interleaved (Process_start db0 dir0) p2"
    "past p2 = [(1, calm_env, CallOp ?x, (s, None)), (2, calm_env, CallGet (str ''k''), map_result (map_op ?x Map.empty) (str ''k''))]"
    by (rule call_runs [OF p1(1), of 2 calm_env "CallGet (str ''k'')"]) (simp_all add: Process_start_def g p1)
  have "answers (past p2) Map.empty"
    using threads_share_map [OF r prefix_safe_single _ log use p2(1)] by (simp add: p2(2) str_def)
  then have "map_result (map_op ?x Map.empty) (str ''k'') = (Status_OK, Some (str ''v''))" "ok s"
    by (simp_all add: p2(2) map_result_def)
  then show ?thesis using o(1) p2 by auto
qed

end
