(* ===== verification/ThreadsCrash.thy ===== *)
theory ThreadsCrash
  imports Threads
begin

text \<open>
  A process with several threads that dies, at any statement of any of them, or inside
  \<open>AddRecord\<close>: what the calls that have returned did is there when the directory is opened
  again, and the one call under the mutex has happened or not.
\<close>

section \<open>What dying leaves\<close>

text \<open>
  Between two statements the directory and a part of the open log; and while a thread is
  in \<open>AddRecord\<close> also any part of the record it writes.
\<close>

definition dies :: "Process \<Rightarrow> Dir \<Rightarrow> bool" where
  "dies p dir2 \<longleftrightarrow> crash_dir (shared p) (files p) dir2 \<or>
     (\<exists>t env c batch w k. pcs p t = Inside env c (Logs batch) \<and> db_log (shared p) = Some w \<and> length (content (lw_file w)) \<le> k \<and>
        dir2 = (let path = LogFileName (dbname (shared p)) (log_number (shared p))
                in AList.update path (take k (content (lw_file (snd (LogWriter_AddRecord (env_os env path) batch w))))) (files p)))"

section \<open>The state in the middle of a call\<close>

text \<open>
  Up to \<open>AddRecord\<close> nothing shared has changed; from then until the mutex is released, what
  counts on disk is the log with the record.
\<close>

definition record_added :: "Env \<Rightarrow> op \<Rightarrow> DBImpl \<Rightarrow> DBImpl \<Rightarrow> bool" where
  "record_added env x db db1 \<longleftrightarrow> dbname db1 = dbname db \<and> log_number db1 = log_number db \<and>
     (\<exists>w s w'. db_log db = Some w \<and> log_add (env_os env (LogFileName (dbname db) (log_number db))) x db w = (s, w') \<and>
       db_log db1 = Some w')"

fun stands_at :: "Env \<Rightarrow> call \<Rightarrow> DBImpl \<Rightarrow> Dir \<Rightarrow> body \<Rightarrow> DBImpl \<Rightarrow> Dir \<Rightarrow> bool" where
  "stands_at env (CallOp x) db dir (Stamps batch) db1 dir1 \<longleftrightarrow> db1 = db \<and> dir1 = dir \<and> batch = batch_add x WriteBatch_Clear"
| "stands_at env (CallOp x) db dir (Logs batch) db1 dir1 \<longleftrightarrow> db1 = db \<and> dir1 = dir \<and>
     batch = WriteBatch_set_sequence (last_seq db + 1) (batch_add x WriteBatch_Clear)"
| "stands_at env (CallOp x) db dir (Inserts batch) db1 dir1 \<longleftrightarrow> dir1 = dir \<and> record_added env x db db1"
| "stands_at env (CallOp x) db dir (Counts batch) db1 dir1 \<longleftrightarrow> dir1 = dir \<and> record_added env x db db1"
| "stands_at env (CallOp x) db dir Checks db1 dir1 \<longleftrightarrow> dir1 = dir \<and> record_added env x db db1"
| "stands_at env (CallGet key) db dir (Looks key') db1 dir1 \<longleftrightarrow> db1 = db \<and> dir1 = dir"
| "stands_at env (CallGet key) db dir (Tables key' i) db1 dir1 \<longleftrightarrow> db1 = db \<and> dir1 = dir"
| "stands_at env c db dir (Leaves r) db1 dir1 \<longleftrightarrow> True"
| "stands_at env c db dir b db1 dir1 \<longleftrightarrow> False"

lemma statement_stands_at:
  assumes "stands_at env c db dir b db1 dir1" "statement env b db1 dir1 = Some (b', db2, dir2)"
  shows "stands_at env c db dir b' db2 dir2"
  using assms
  by (cases b; cases c)
    (auto simp: record_added_def log_add_def Let_def split: option.splits prod.splits LookupState.splits if_splits)

lemma began_stands_at: "began env c db dir b db1 dir1 \<Longrightarrow> stands_at env c db dir b db1 dir1"
proof (induction rule: began.induct)
  case began_enters
  then show ?case by (cases c) simp_all
next
  case (began_statement b db1 dir1 b' db2 dir2)
  then show ?case using statement_stands_at by blast
qed

text \<open>The log only grows, and what was on disk of it stays.\<close>

lemma log_add_flushed:
  assumes "writer_at w fs" "flushed (lw_file w) = length (content (lw_file w))" "log_add os x db w = (s, w')"
  shows "length (content (lw_file w)) \<le> flushed (lw_file w')"
proof -
  obtain new k where r: "content (lw_file w') = take k (layout 0 (fs @ new))" "length (layout 0 fs) \<le> k"
    "content (lw_file w) = layout 0 fs"
    "flushed (lw_file w') = flushed (lw_file w) \<or> flushed (lw_file w') = length (content (lw_file w'))"
    using AddRecord_writer [OF assms(1) assms(3) [unfolded log_add_def]] by blast
  have "length (layout 0 fs) \<le> length (layout 0 (fs @ new))" by (simp add: layout_append)
  then show ?thesis using r assms(2) by auto
qed

lemma record_added_crash:
  assumes h: "db_holds KS name N c db dir f" and x: "op_key x \<in> KS" "mem_room db x"
    and r: "record_added env x db db1" and cr: "crash_dir db1 dir dir2"
  shows "dir_holds KS name N (c + 1) dir2 f \<or> dir_holds KS name N (c + 1) dir2 (apply_op view_put view_delete x f)"
proof -
  obtain w s w' where w: "db_log db = Some w" "log_add (env_os env (LogFileName (dbname db) (log_number db))) x db w = (s, w')"
    "db_log db1 = Some w'" "dbname db1 = dbname db" "log_number db1 = log_number db"
    using r unfolding record_added_def by blast
  obtain fs where fs: "writer_at w fs" "flushed (lw_file w) = length (content (lw_file w))"
    using h w(1) by (auto simp: db_holds_def db_up_def)
  obtain k where k: "flushed (lw_file w') \<le> k"
    "dir2 = AList.update (LogFileName (dbname db) (log_number db)) (take k (content (lw_file w'))) dir"
    using cr w(3-5) by (auto simp: crash_dir_def crash_image_def)
  have "length (content (lw_file w)) \<le> k" using log_add_flushed [OF fs w(2)] k(1) by simp
  from crash_write_holds [OF h x w(1,2) this k(2)] show ?thesis by blast
qed

section \<open>Reopening\<close>

text \<open>A directory stands for a map, with the bounds after \<open>n\<close> steps.\<close>

definition leaves_map :: "bytes set \<Rightarrow> bytes \<Rightarrow> nat \<Rightarrow> Dir \<Rightarrow> kvmap \<Rightarrow> bool" where
  "leaves_map KS name n dir m \<longleftrightarrow> (\<exists>f. map_of_view f = m \<and> dir_holds KS name (2 * n + 1) (n + 1) dir f)"

lemma leaves_map_Suc: "leaves_map KS name n dir m \<Longrightarrow> leaves_map KS name (Suc n) dir m"
  unfolding leaves_map_def by (elim exE conjE, intro exI conjI, assumption, erule dir_holds_mono) simp_all

lemma up_holds:
  assumes "db_run KS name n (Up db dir) {m}" "prefix_safe KS" "n < 2 ^ 55" "db_log db \<noteq> None"
  obtains f where "map_of_view f = m" "db_holds KS name (2 * n + 1) (n + 1) db dir f"
proof -
  obtain f where "map_of_view f = m" "outcome KS name (2 * n + 1) (n + 1) f (IOError [], db, dir)"
    using db_run_inv [OF assms(1-3)] by auto
  then show ?thesis using that outcome_holds assms(4) by blast
qed

lemma up_dies:
  assumes "db_run KS name n (Up db dir) {m}" "prefix_safe KS" "n < 2 ^ 55" "db_log db \<noteq> None" "crash_dir db dir dir2"
  shows "leaves_map KS name n dir2 m"
proof -
  obtain f where f: "map_of_view f = m" "db_holds KS name (2 * n + 1) (n + 1) db dir f" using up_holds [OF assms(1-4)] .
  have "outcome KS name (2 * n + 1) (n + 1) f (Status_OK, db, dir)" using db_holds_outcome [OF f(2) assms(2)] .
  then show ?thesis using f(1) assms(5) by (auto simp: leaves_map_def outcome_def)
qed

lemma pending_leaves:
  assumes "map_of_view f = m" "dir_holds KS name (2 * n + 1) (n + 1 + 1) dir f \<or>
    dir_holds KS name (2 * n + 1) (n + 1 + 1) dir (apply_op view_put view_delete x f)"
  shows "leaves_map KS name (Suc n) dir m \<or> leaves_map KS name (Suc n) dir (map_op x m)"
proof -
  have "leaves_map KS name (Suc n) dir (map_of_view g)" if "dir_holds KS name (2 * n + 1) (n + 1 + 1) dir g" for g
    unfolding leaves_map_def using dir_holds_mono [OF that] by (intro exI [of _ g]) simp
  then show ?thesis using assms map_of_view_op by metis
qed

text \<open>Dying in the middle of a call.\<close>

lemma call_dies:
  assumes run: "db_run KS name n (Up db dir) {m}" "prefix_safe KS" "n + 1 < 2 ^ 55" "db_log db \<noteq> None"
    "ApproximateMemoryUsage (db_mem db) < kMaxMemTableBytes"
    and c: "perfect_env env" "good_call KS c" and b: "began env c db dir b db1 dir1" and cr: "crash_dir db1 dir1 dir2"
  shows "leaves_map KS name (Suc n) dir2 m \<or> (\<exists>x. c = CallOp x \<and> leaves_map KS name (Suc n) dir2 (map_op x m))"
proof -
  have n: "n < 2 ^ 55" using run(3) by simp
  note before = up_dies [OF run(1,2) n run(4), THEN leaves_map_Suc]
  note st = began_stands_at [OF b] and rem = began_remains [OF b, symmetric]
  show ?thesis
  proof (cases c)
    case (CallGet key)
    have "db1 = db \<and> dir1 = dir"
    proof (cases b)
      case (Leaves r)
      then show ?thesis using rem by (auto simp: CallGet)
    qed (use st in \<open>simp_all add: CallGet\<close>)
    then show ?thesis using before cr by simp
  next
    case (CallOp x)
    have x: "op_key x \<in> KS" "mem_room db x" using c(2) run(5) by (simp_all add: CallOp mem_room_def kMaxMemTableBytes_def)
    obtain f where f: "map_of_view f = m" "db_holds KS name (2 * n + 1) (n + 1) db dir f" using up_holds [OF run(1,2) n run(4)] .
    show ?thesis
    proof (cases "db1 = db \<and> dir1 = dir")
      case True
      then show ?thesis using before cr by simp
    next
      case changed: False
      show ?thesis
      proof (cases "dir1 = dir \<and> record_added env x db db1")
        case True
        then show ?thesis
          using pending_leaves [OF f(1) record_added_crash [OF f(2) x]] cr CallOp by blast
      next
        case False
        then obtain r where "b = Leaves r" using st changed by (cases b) (simp_all add: CallOp)
        then obtain s where "DBImpl_op env x db dir = Some (s, db1, dir1)" using rem by (auto simp: CallOp)
        from write_answers [OF run(1,2,3,4,5) c(1) c(2) [unfolded CallOp] this]
        have after: "db_run KS name (Suc n) (Up db1 dir1) {map_op x m}" "db_log db1 \<noteq> None" by blast+
        have "Suc n < 2 ^ 55" using run(3) by simp
        from up_dies [OF after(1) run(2) this after(2) cr] show ?thesis using CallOp by blast
      qed
    qed
  qed
qed

text \<open>Dying inside \<open>AddRecord\<close>.\<close>

lemma record_dies:
  assumes run: "db_run KS name n (Up db dir) {m}" "prefix_safe KS" "n + 1 < 2 ^ 55" "db_log db \<noteq> None"
    "ApproximateMemoryUsage (db_mem db) < kMaxMemTableBytes"
    and c: "good_call KS c" and b: "began env c db dir (Logs batch) db1 dir1"
    and w: "db_log db1 = Some w" "length (content (lw_file w)) \<le> k"
  defines "path \<equiv> LogFileName (dbname db1) (log_number db1)"
  assumes d: "dir2 = AList.update path (take k (content (lw_file (snd (LogWriter_AddRecord (env_os env path) batch w))))) dir1"
  shows "leaves_map KS name (Suc n) dir2 m \<or> (\<exists>x. c = CallOp x \<and> leaves_map KS name (Suc n) dir2 (map_op x m))"
proof -
  obtain x where x: "c = CallOp x" and st: "db1 = db" "dir1 = dir"
    "batch = WriteBatch_set_sequence (last_seq db + 1) (batch_add x WriteBatch_Clear)"
    using began_stands_at [OF b] by (cases c) simp_all
  have ok: "op_key x \<in> KS" "mem_room db x" using c run(5) by (simp_all add: x mem_room_def kMaxMemTableBytes_def)
  have "n < 2 ^ 55" using run(3) by simp
  then obtain f where f: "map_of_view f = m" "db_holds KS name (2 * n + 1) (n + 1) db dir f" using up_holds [OF run(1,2) _ run(4)] by blast
  obtain s w' where a: "log_add (env_os env path) x db w = (s, w')" by fastforce
  have "dir2 = AList.update (LogFileName (dbname db) (log_number db)) (take k (content (lw_file w'))) dir"
    using d a by (simp add: st path_def log_add_def)
  from crash_write_holds [OF f(2) ok _ a w(2) this] w(1) show ?thesis
    using pending_leaves [OF f(1)] x st(1) by blast
qed

lemma leaves_map_opens:
  assumes "leaves_map KS name n dir m" "prefix_safe KS" "n < 2 ^ 55" "good_env env"
  shows "\<exists>db dir2. DB_Open env name dir = Some (Status_OK, Some db, dir2) \<and> (\<forall>uk \<in> KS. DBImpl_Get uk db = Some (map_result m uk))"
proof -
  obtain f where f: "map_of_view f = m" "dir_holds KS name (2 * n + 1) (n + 1) dir f" using assms(1) unfolding leaves_map_def by blast
  have "2 * n + 1 + 1 < 2 ^ 64" "1 \<le> 2 * n + 1" "n + 1 \<le> 2 ^ 56" using assms(3) by simp_all
  from reopen_reads [OF assms(4) f(2) assms(2) this] f(1) show ?thesis by (auto simp: reads_ok_def get_result_map)
qed

text \<open>
  C13. A crash of a process with several threads, at any statement of any of them or inside
  \<open>AddRecord\<close>, loses nothing that was acknowledged, if the system has not failed in the calls
  that have returned and in the one under the mutex (after a failed flush it could, see
  C33 and C17), their keys are of a \<open>prefix_safe\<close> set and what each writes is below 2 GiB: \<open>DB::Open\<close> brings up a database that
  answers these keys everywhere as after all calls that have returned, or everywhere as
  after these and the one \<open>Put\<close> or \<open>Delete\<close> under the mutex.
\<close>

theorem threads_crash_atomic:
  assumes "db_run KS name n (Up db0 dir0) {m}" "prefix_safe KS" "n + length (past p) + 1 < 2 ^ 55" "db_log db0 \<noteq> None"
    and "ApproximateMemoryUsage (db_mem db0) < kMaxMemTableBytes" "interleaved (Process_start db0 dir0) p"
    and "\<forall>(t, env, c, r) \<in> set (past p). perfect_env env \<and> good_call KS c"
    and "\<forall>t env c b. pcs p t = Inside env c b \<longrightarrow> perfect_env env \<and> good_call KS c"
    and "dies p dir2" "good_env env2"
  shows "\<exists>db2 dir3 m'. DB_Open env2 name dir2 = Some (Status_OK, Some db2, dir3) \<and>
    (\<forall>uk \<in> KS. DBImpl_Get uk db2 = Some (map_result m' uk)) \<and>
    (m' = map_after (past p) m \<or>
     (\<exists>t env x b. pcs p t = Inside env (CallOp x) b \<and> m' = map_op x (map_after (past p) m)))"
proof -
  let ?m = "map_after (past p) m"
  obtain db dir where o: "serial (past p) db0 dir0 = Some (db, dir)" "owner p = None \<longrightarrow> shared p = db \<and> files p = dir"
    "\<forall>t. inside (pcs p t) \<longleftrightarrow> owner p = Some t"
    "\<forall>t env c b. pcs p t = Inside env c b \<longrightarrow> began env c db dir b (shared p) (files p)"
    using interleaved_in_order [OF assms(6)] unfolding in_order_def by (elim conjE exE)
  have "n + length (past p) < 2 ^ 55" using assms(3) by simp
  from serial_run [OF assms(1,2) this assms(4,5,7) o(1)] obtain n' where
    n': "n' \<le> n + length (past p)" "db_run KS name n' (Up db dir) {?m}" and
    up: "db_log db \<noteq> None" "ApproximateMemoryUsage (db_mem db) < kMaxMemTableBytes" by blast
  have b: "n' + 1 < 2 ^ 55" "n' < 2 ^ 55" "Suc n' < 2 ^ 55" using n'(1) assms(3) by simp_all
  have "leaves_map KS name (Suc n') dir2 ?m \<or>
      (\<exists>t env x b. pcs p t = Inside env (CallOp x) b \<and> leaves_map KS name (Suc n') dir2 (map_op x ?m))"
  proof (cases "owner p")
    case None
    then have "crash_dir db dir dir2" using o(2,3) assms(9) by (auto simp: dies_def inside_iff)
    from up_dies [OF n'(2) assms(2) b(2) up(1) this] show ?thesis using leaves_map_Suc by blast
  next
    case (Some t)
    then have "inside (pcs p t)" using o(3) by simp
    then obtain env c bd where t: "pcs p t = Inside env c bd" unfolding inside_iff by blast
    have c: "perfect_env env" "good_call KS c" using assms(8) t by blast+
    have bg: "began env c db dir bd (shared p) (files p)" using o(4) t by blast
    have only: "u = t" if "pcs p u = Inside env' c' b'" for u env' c' b'
      using o(3) Some that by (metis inside.simps(1) option.inject)
    have "leaves_map KS name (Suc n') dir2 ?m \<or> (\<exists>x. c = CallOp x \<and> leaves_map KS name (Suc n') dir2 (map_op x ?m))"
      using assms(9) unfolding dies_def
    proof (elim disjE exE conjE)
      assume "crash_dir (shared p) (files p) dir2"
      from call_dies [OF n'(2) assms(2) b(1) up c bg this] show ?thesis .
    next
      fix u env' c' batch w k assume i: "pcs p u = Inside env' c' (Logs batch)" and w: "db_log (shared p) = Some w" "length (content (lw_file w)) \<le> k"
        and d: "dir2 = (let path = LogFileName (dbname (shared p)) (log_number (shared p))
                in AList.update path (take k (content (lw_file (snd (LogWriter_AddRecord (env_os env' path) batch w))))) (files p))"
      have "bd = Logs batch" "env' = env" using only [OF i] i t by simp_all
      from record_dies [OF n'(2) assms(2) b(1) up c(2) bg [unfolded this(1)] w] d this(2) show ?thesis by (simp add: Let_def)
    qed
    then show ?thesis using t by blast
  qed
  then obtain m' where "leaves_map KS name (Suc n') dir2 m'" "m' = ?m \<or>
      (\<exists>t env x b. pcs p t = Inside env (CallOp x) b \<and> m' = map_op x ?m)" by blast
  then show ?thesis using leaves_map_opens [OF _ assms(2) b(3) assms(10)] by blast
qed

text \<open>A call may be interrupted wherever its statements lead.\<close>

lemma inside_reached:
  assumes "began env c db dir b db1 dir1"
  shows "\<exists>p. interleaved (Process_start db dir) p \<and> pcs p = (\<lambda>_. Idle)(t := Inside env c b) \<and> shared p = db1 \<and> files p = dir1 \<and>
    past p = []"
  using assms
proof (induction rule: began.induct)
  case began_enters
  let ?p0 = "Process_start db dir"
  let ?p1 = "?p0\<lparr>pcs := (pcs ?p0)(t := Waits env c)\<rparr>"
  let ?p2 = "?p1\<lparr>owner := Some t, pcs := (pcs ?p1)(t := Inside env c (enters c))\<rparr>"
  have "interleaved ?p0 ?p1" by (rule calls [OF start]) (simp add: Process_start_def)
  then have "interleaved ?p0 ?p2" by (rule locks) (simp_all add: Process_start_def)
  then show ?case by (intro exI [of _ ?p2]) (simp add: Process_start_def)
next
  case (began_statement b db1 dir1 b' db2 dir2)
  then obtain p where p: "interleaved (Process_start db dir) p" "pcs p = (\<lambda>_. Idle)(t := Inside env c b)"
    "shared p = db1" "files p = dir1" "past p = []" by blast
  let ?p = "p\<lparr>shared := db2, files := dir2, pcs := (pcs p)(t := Inside env c b')\<rparr>"
  have "interleaved (Process_start db dir) ?p"
    by (rule works [OF p(1)]) (use p began_statement in simp_all)
  then show ?case by (intro exI [of _ ?p]) (simp add: p)
qed

theorem threads_crash_atomic_witness:
  "\<exists>db0 dir0 p dir2 db2 dir3 b. DB_Open calm_env (str ''db'') [] = Some (Status_OK, Some db0, dir0) \<and>
     interleaved (Process_start db0 dir0) p \<and> pcs p 1 = Inside calm_env (CallOp (OpPut (str ''k'') (str ''v''))) (Logs b) \<and>
     dies p dir2 \<and> DB_Open calm_env (str ''db'') dir2 = Some (Status_OK, Some db2, dir3) \<and>
     (DBImpl_Get (str ''k'') db2 = Some (NotFound (str ''k''), None) \<or> DBImpl_Get (str ''k'') db2 = Some (Status_OK, Some (str ''v'')))"
proof -
  let ?x = "OpPut (str ''k'') (str ''v'')"
  obtain db0 dir0 where o: "DB_Open calm_env (str ''db'') [] = Some (Status_OK, Some db0, dir0)"
    "db_holds {str ''k''} (str ''db'') 2 1 db0 dir0 (\<lambda>_. kNotFoundState)"
    using empty_db by blast
  have r: "db_run {str ''k''} (str ''db'') (Suc 0) (Up db0 dir0) {Map.empty}"
    by (rule run_open [OF run_start calm_env_reads o(1)]) simp_all
  have log: "db_log db0 \<noteq> None" using o(2) by (auto simp: db_holds_def db_up_def)
  have use: "ApproximateMemoryUsage (db_mem db0) < kMaxMemTableBytes"
    using empty_db_usage [OF o(2)] by (simp add: sizeof_Node_def kMaxHeight_def kMaxMemTableBytes_def)
  have good: "good_call {str ''k''} (CallOp ?x)" by (simp add: str_def)
  let ?b = "WriteBatch_set_sequence (last_seq db0 + 1) (batch_add ?x WriteBatch_Clear)"
  have "began calm_env (CallOp ?x) db0 dir0 (Logs ?b) db0 dir0"
    by (rule began_statement [OF began_enters]) simp
  from inside_reached [OF this, of 1] obtain p where p: "interleaved (Process_start db0 dir0) p"
    "pcs p = (\<lambda>_. Idle)(1 := Inside calm_env (CallOp ?x) (Logs ?b))" "shared p = db0" "files p = dir0" "past p = []" by blast
  let ?dir2 = "DBImpl_destroy calm_env db0 dir0"
  have d: "dies p ?dir2"
    unfolding dies_def p(3,4) by (rule disjI1, rule DBImpl_destroy_crash) (rule db_holds_file_ok [OF o(2)])
  have past: "\<forall>(t, env, c, r) \<in> set (past p). perfect_env env \<and> good_call {str ''k''} c" by (simp add: p(5))
  have inside: "\<forall>t env c b. pcs p t = Inside env c b \<longrightarrow> perfect_env env \<and> good_call {str ''k''} c"
    using good by (auto simp: p(2))
  obtain db2 dir3 m' where w: "DB_Open calm_env (str ''db'') ?dir2 = Some (Status_OK, Some db2, dir3)"
    "DBImpl_Get (str ''k'') db2 = Some (map_result m' (str ''k''))"
    "m' = Map.empty \<or> m' = map_op ?x Map.empty"
    using threads_crash_atomic [OF r prefix_safe_single _ log use p(1) past inside d calm_env(2)]
    by (auto simp: p(2,5) split: if_splits)
  then have "DBImpl_Get (str ''k'') db2 = Some (NotFound (str ''k''), None) \<or> DBImpl_Get (str ''k'') db2 = Some (Status_OK, Some (str ''v''))"
    by (auto simp: map_result_def)
  then show ?thesis using o(1) p(1,2) d w(1) by (intro exI conjI) (assumption | simp)+
qed

end
