(* ===== verification/Demo.thy ===== *)
theory Demo
  imports DbRun "HOL-Library.Product_Lexorder" "HOL-Library.Multiset"
begin

text \<open>
  \<open>examples/demo.cc\<close>: the example program, which takes the database through writing, flushing,
  layered lookups and a reopening and prints what it gets.  The program is the sequence of
  its statements, each a function on a state; it is followed to its last line of output,
  over all its forty thousand writes.
\<close>

section \<open>The state and the ends of the program\<close>

text \<open>
  What was printed, the open database, the directory, and a count of the calls made.  A
  statement may end the program through \<open>std::exit\<close> or by an exception nobody catches.
\<close>

record Demo =
  cout :: bytes
  cerr :: bytes
  handle :: "DBImpl option"
  disk :: Dir
  turn :: nat

datatype progress = Goes Demo | Exits Demo | Terminates Demo | Undefined

type_synonym stmt = "Demo \<Rightarrow> progress"

text \<open>
  The system: an environment for each call of the database, and what a look at the
  directory shows while the log is open.  \<open>None\<close> is a directory that cannot be iterated.
\<close>

record System =
  sys_env :: "nat \<Rightarrow> Env"
  sys_view :: "nat \<Rightarrow> DBImpl option \<Rightarrow> Dir \<Rightarrow> Dir option"

fun run :: "stmt list \<Rightarrow> stmt" where
  "run [] st = Goes st"
| "run (c # cs) st = (case c st of Goes st \<Rightarrow> run cs st | r \<Rightarrow> r)"

section \<open>Texts\<close>

text \<open>The literals of the program; what is not ASCII is in UTF-8.\<close>

definition section_1 :: bytes where
  "section_1 =
     str ''1. Put / Get / Delete''"

definition section_2 :: bytes where
  "section_2 =
     str ''2. '' @ [0xE6, 0x89, 0xB9, 0xE9, 0x87, 0x8F, 0xE5, 0x86, 0x99, 0xE5, 0x85, 0xA5, 0xE8, 0xA7,
     0xA6, 0xE5, 0x8F, 0x91] @ str '' MemTable '' @ [0xE8, 0x87, 0xAA, 0xE5, 0x8A, 0xA8, 0xE5, 0x88,
     0xB7, 0xE7, 0x9B, 0x98]"

definition section_3 :: bytes where
  "section_3 =
     str ''3. '' @ [0xE5, 0xA4, 0x9A, 0xE5, 0xB1, 0x82, 0xE8, 0xAF, 0xBB, 0xE5, 0x8F, 0x96, 0xEF, 0xBC,
     0x9A] @ str ''MemTable -> SSTable'' @ [0xEF, 0xBC, 0x8C, 0xE9, 0xA6, 0x96, 0xE5, 0x91, 0xBD, 0xE4,
     0xB8, 0xAD, 0xE5, 0x8D, 0xB3, 0xE8, 0xBF, 0x94, 0xE5, 0x9B, 0x9E]"

definition section_4 :: bytes where
  "section_4 =
     str ''4. '' @ [0xE5, 0x85, 0xB3, 0xE9, 0x97, 0xAD, 0xE9, 0x87, 0x8D, 0xE5, 0xBC, 0x80, 0xEF, 0xBC,
     0x9A] @ str ''WAL '' @ [0xE5, 0x9B, 0x9E, 0xE6, 0x94, 0xBE] @ str '' + SSTable '' @ [0xE6, 0x8C,
     0x82, 0xE8, 0xBD, 0xBD]"

definition bulk_done_1 :: bytes where
  "bulk_done_1 =
     [0xE5, 0x86, 0x99, 0xE5, 0x85, 0xA5] @ str '' ''"

definition bulk_done_2 :: bytes where
  "bulk_done_2 =
     str '' '' @ [0xE6, 0x9D, 0xA1, 0xEF, 0xBC, 0x88, 0xE7, 0xBA, 0xA6] @ str '' 8MB'' @ [0xEF, 0xBC,
     0x89, 0xEF, 0xBC, 0x8C, 0xE4, 0xB8, 0xA4, 0xE6, 0xAC, 0xA1, 0xE8, 0xB6, 0x8A, 0xE8, 0xBF, 0x87] @
     str '' 4MB MemTable '' @ [0xE4, 0xB8, 0x8A, 0xE9, 0x99, 0x90]"

definition reopening :: bytes where
  "reopening =
     str ''DB '' @ [0xE5, 0xB7, 0xB2, 0xE5, 0x85, 0xB3, 0xE9, 0x97, 0xAD, 0xEF, 0xBC, 0x8C, 0xE9, 0x87,
     0x8D, 0xE6, 0x96, 0xB0] @ str '' Open'' @ [0xEF, 0xBC, 0x8C, 0xE9, 0x80, 0x90, 0xE6, 0x9D, 0xA1,
     0xE9, 0xAA, 0x8C, 0xE8, 0xAF, 0x81, 0xEF, 0xBC, 0x9A]"

definition error_word :: bytes where
  "error_word =
     [0xE9, 0x94, 0x99, 0xE8, 0xAF, 0xAF] @ str '': ''"

definition dir_colon :: bytes where
  "dir_colon =
     str ''/'' @ [0xEF, 0xBC, 0x9A]"

definition newline :: bytes where "newline = [10]"

definition quote_mark :: bytes where "quote_mark = [34]"

definition kDbDir :: bytes where "kDbDir = str ''demo_db''"

definition kBulkCount :: nat where "kBulkCount = 40000"

section \<open>The library functions the program uses\<close>

text \<open>\<open>std::stoull\<close>: white space, a sign, digits; an exception if there is none, or too many.\<close>

definition is_space :: "byte \<Rightarrow> bool" where
  "is_space b \<longleftrightarrow> b = 32 \<or> 9 \<le> b \<and> b \<le> 13"

definition stoull :: "bytes \<Rightarrow> u64 option" where
  "stoull s =
     (let s = dropWhile is_space s;
          minus = (s \<noteq> [] \<and> hd s = 45);
          s = (if s \<noteq> [] \<and> (hd s = 43 \<or> hd s = 45) then tl s else s);
          ds = takeWhile is_digit s
      in if ds = [] \<or> digits_value ds \<ge> 2 ^ 64 then None
         else Some (if minus then - word_of_nat (digits_value ds) else word_of_nat (digits_value ds)))"

text \<open>\<open>fs::path::stem\<close> of a file name: up to the last dot, if that is not the first byte.\<close>

definition stem :: "bytes \<Rightarrow> bytes" where
  "stem name =
     (let base = take (length name - length (takeWhile (\<lambda>b. b \<noteq> 46) (rev name)) - 1) name
      in if 46 \<notin> set name \<or> base = [] \<or> name = str ''..'' then name else base)"

text \<open>The conversion \<open>%0wd\<close> of a number that is not negative, and \<open>snprintf\<close> into a buffer.\<close>

definition dec_pad :: "nat \<Rightarrow> nat \<Rightarrow> bytes" where
  "dec_pad w n = replicate (w - length (to_string_nat n)) 48 @ to_string_nat n"

definition snprintf :: "nat \<Rightarrow> bytes \<Rightarrow> bytes" where
  "snprintf buf text = take (buf - 1) text"

section \<open>The statements\<close>

definition print :: "bytes \<Rightarrow> stmt" where
  "print bs st = Goes (st\<lparr>cout := cout st @ bs\<rparr>)"

definition Ensure :: "Status \<Rightarrow> stmt" where
  "Ensure s st = (if ok s then Goes st else Exits (st\<lparr>cerr := cerr st @ str ''fatal: '' @ Status_ToString s @ newline\<rparr>))"

definition banner_text :: "bytes \<Rightarrow> bytes" where
  "banner_text title = newline @ str ''========== '' @ title @ str '' =========='' @ newline"

definition Banner :: "bytes \<Rightarrow> stmt" where
  "Banner title = print (banner_text title)"

text \<open>
  All numbers are parsed before anything is printed.  Paths in one directory compare
  like their bytes.
\<close>

fun number_files :: "Dir \<Rightarrow> (u64 \<times> bytes) list option" where
  "number_files [] = Some []"
| "number_files ((path, _) # rest) =
     (case stoull (stem (after_slash path)) of
        None \<Rightarrow> None
      | Some n \<Rightarrow> map_option (\<lambda>files. (n, path) # files) (number_files rest))"

definition list_entry :: "bytes \<Rightarrow> nat \<Rightarrow> bytes" where
  "list_entry name kb = str ''  '' @ name @ str ''  '' @ to_string_nat kb @ str '' KB'' @ newline"

definition list_line :: "Dir \<Rightarrow> bytes \<Rightarrow> bytes" where
  "list_line dir path = list_entry (after_slash path) ((length (the (map_of dir path)) + 1023) div 1024)"

definition ListDir :: "System \<Rightarrow> bytes \<Rightarrow> stmt" where
  "ListDir sys name st =
     (case sys_view sys (turn st) (handle st) (disk st) of
        None \<Rightarrow> Terminates st
      | Some dir \<Rightarrow>
          (case number_files dir of
             None \<Rightarrow> Terminates st
           | Some files \<Rightarrow> print (name @ dir_colon @ newline @ concat (map (\<lambda>(_, path). list_line dir path) (sort files))) st))"

text \<open>The three branches of \<open>ShowGet\<close>.\<close>

definition get_line :: "bytes \<Rightarrow> bytes \<Rightarrow> bytes" where
  "get_line key answer = str ''  Get('' @ quote_mark @ key @ quote_mark @ str '') -> '' @ answer @ newline"

definition value_text :: "bytes \<Rightarrow> bytes" where
  "value_text value = quote_mark @ (if length value > 48 then take 48 value @ str ''...'' else value) @ quote_mark"

definition ShowGet :: "bytes \<Rightarrow> stmt" where
  "ShowGet key st =
     (case handle st of
        None \<Rightarrow> Undefined
      | Some db \<Rightarrow>
          (case DBImpl_Get key db of
             None \<Rightarrow> Undefined
           | Some (s, value) \<Rightarrow>
               print (get_line key
                 (if ok s then value_text (case value of None \<Rightarrow> [] | Some v \<Rightarrow> v)
                  else if IsNotFound s then str ''NotFound''
                  else error_word @ Status_ToString s)) st))"

text \<open>The calls of the database, each inside an \<open>Ensure\<close>, and \<open>delete db\<close>.\<close>

definition Ensure_Open :: "System \<Rightarrow> bytes \<Rightarrow> stmt" where
  "Ensure_Open sys name st =
     (case DB_Open (sys_env sys (turn st)) name (disk st) of
        None \<Rightarrow> Undefined
      | Some (s, db, dir) \<Rightarrow> Ensure s (st\<lparr>handle := db, disk := dir, turn := Suc (turn st)\<rparr>))"

definition Ensure_op :: "System \<Rightarrow> op \<Rightarrow> stmt" where
  "Ensure_op sys x st =
     (case handle st of
        None \<Rightarrow> Undefined
      | Some db \<Rightarrow>
          (case DBImpl_op (sys_env sys (turn st)) x db (disk st) of
             None \<Rightarrow> Undefined
           | Some (s, db, dir) \<Rightarrow> Ensure s (st\<lparr>handle := Some db, disk := dir, turn := Suc (turn st)\<rparr>)))"

abbreviation Ensure_Put :: "System \<Rightarrow> bytes \<Rightarrow> bytes \<Rightarrow> stmt" where
  "Ensure_Put sys key value \<equiv> Ensure_op sys (OpPut key value)"

abbreviation Ensure_Delete :: "System \<Rightarrow> bytes \<Rightarrow> stmt" where
  "Ensure_Delete sys key \<equiv> Ensure_op sys (OpDelete key)"

definition delete_db :: "System \<Rightarrow> stmt" where
  "delete_db sys st =
     (case handle st of
        None \<Rightarrow> Goes st
      | Some db \<Rightarrow> Goes (st\<lparr>handle := None, disk := DBImpl_destroy (sys_env sys (turn st)) db (disk st),
          turn := Suc (turn st)\<rparr>))"

definition bulk_key :: "nat \<Rightarrow> bytes" where
  "bulk_key i = snprintf 32 (str ''bulk:'' @ dec_pad 6 i)"

definition bulk_value :: "nat \<Rightarrow> bytes" where
  "bulk_value i = snprintf 128 (str ''value-'' @ dec_pad 6 i @ str ''-'' @ dec_pad 80 i)"

function bulk_loop :: "System \<Rightarrow> nat \<Rightarrow> stmt" where
  "bulk_loop sys i st =
     (if i < kBulkCount
      then (case Ensure_Put sys (bulk_key i) (bulk_value i) st of Goes st \<Rightarrow> bulk_loop sys (i + 1) st | r \<Rightarrow> r)
      else Goes st)"
  by pat_completeness auto
termination by (relation "measure (\<lambda>(_, i, _). kBulkCount - i)") auto

declare bulk_loop.simps [simp del]

section \<open>The program\<close>

definition Demo_main :: "System \<Rightarrow> bytes list \<Rightarrow> stmt" where
  "Demo_main sys argv =
     (let name = (if length argv \<ge> 2 then argv ! 1 else kDbDir) in run
       [Banner section_1,
        Ensure_Open sys name,
        Ensure_Put sys (str ''greeting'') (str ''hello world''),
        Ensure_Put sys (str ''counter'') (str ''1''),
        ShowGet (str ''greeting''),
        Ensure_Put sys (str ''counter'') (str ''42''),
        ShowGet (str ''counter''),
        Ensure_Delete sys (str ''greeting''),
        ShowGet (str ''greeting''),
        ShowGet (str ''never-existed''),
        print newline,
        ListDir sys name,
        Banner section_2,
        bulk_loop sys 0,
        print (bulk_done_1 @ to_string_nat kBulkCount @ bulk_done_2 @ newline),
        ListDir sys name,
        Banner section_3,
        ShowGet (str ''bulk:000000''),
        Ensure_Put sys (str ''bulk:000000'') (str ''LATEST-IN-MEM''),
        ShowGet (str ''bulk:000000''),
        Ensure_Delete sys (str ''bulk:000001''),
        ShowGet (str ''bulk:000001''),
        Banner section_4,
        delete_db sys,
        print (reopening @ newline),
        Ensure_Open sys name,
        ShowGet (str ''greeting''),
        ShowGet (str ''counter''),
        ShowGet (str ''bulk:000000''),
        ShowGet (str ''bulk:000001''),
        ShowGet (str ''bulk:010000''),
        delete_db sys])"

section \<open>The files of a directory\<close>

definition files_in :: "Dir \<Rightarrow> bytes set" where
  "files_in dir = fst ` set dir"

lemma files_dom: "files_in dir = dom (map_of dir)"
  by (simp add: files_in_def dom_map_of_conv_image_fst)

lemma files_update: "files_in (AList.update p b dir) = insert p (files_in dir)"
  by (auto simp: files_dom AList.update_conv')

lemma files_delete: "files_in (AList.delete p dir) = files_in dir - {p}"
  by (simp add: files_in_def keys_delete)

lemma files_create: "files_in (dir_create p dir) = insert p (files_in dir)"
proof (cases "map_of dir p = None")
  case False
  then have "p \<in> files_in dir" by (auto simp: files_dom)
  then show ?thesis using False by (auto simp: dir_create_def insert_absorb)
qed (simp add: dir_create_def files_update)

lemma files_rename: "map_of dir old \<noteq> None \<Longrightarrow> files_in (dir_rename old new dir) = insert new (files_in dir - {old})"
  by (auto simp: dir_rename_def files_update files_delete)

text \<open>What a flush that succeeds does to them.\<close>

lemma Flush_switch_log_files:
  assumes "Flush_switch_log env m db dir = Some (s, db', dir')" "ok s"
  shows "next_file_number db' = next_file_number db" "log_number db' = m"
    "db_mem db' = MemTable_new (env_char env)"
    "files_in dir' = insert (LogFileName (dbname db) m) (insert (LogFileName (dbname db) (log_number db)) (files_in dir) -
      {LogFileName (dbname db) (log_number db)})"
  using assms
  by (auto simp: Flush_switch_log_def Let_def files_create files_update files_delete split: option.splits prod.splits if_splits)

lemma FlushMemTable_files:
  assumes "FlushMemTable env db dir = Some (s, db', dir')" "ok s" "mem_rel (db_mem db) es" "es \<noteq> []"
    and "LogFileName (dbname db) (log_number db) \<in> files_in dir" "TempFileName (dbname db) (next_file_number db) \<notin> files_in dir"
  shows "next_file_number db' = next_file_number db + 2 \<and> log_number db' = next_file_number db + 1 \<and>
    db_mem db' = MemTable_new (env_char env) \<and> files_in dir' = insert (LogFileName (dbname db) (next_file_number db + 1))
      (insert (TableFileName (dbname db) (next_file_number db)) (files_in dir - {LogFileName (dbname db) (log_number db)}))"
proof -
  let ?tmp = "TempFileName (dbname db) (next_file_number db)"
  let ?table = "TableFileName (dbname db) (next_file_number db)"
  obtain s1 tb where b: "build_table (env_os env ?tmp) es fopen_new = (s1, tb)" by fastforce
  let ?dir2 = "dir_rename ?tmp ?table (AList.update ?tmp (TableBuilder_destroy (env_os env ?tmp) tb) dir)"
  let ?db1 = "db\<lparr>next_file_number := next_file_number db + 2\<rparr>"
  have f2: "files_in ?dir2 = insert ?table (files_in dir)"
    using assms(6) by (subst files_rename) (auto simp: AList.update_conv' files_update)
  obtain os tbl where "Flush_switch_log env (next_file_number db + 1) (?db1\<lparr>db_tables := tbl # db_tables ?db1\<rparr>) ?dir2 = Some (s, db', dir')"
    using FlushMemTable_steps [OF assms(3,4) b, of dir] assms(1,2) Table_Open_fails
    by (auto simp: Let_def split: if_splits option.splits)
  from Flush_switch_log_files [OF this assms(2)] show ?thesis
    using assms(5) f2 by (auto simp: file_paths)
qed

section \<open>One write\<close>

text \<open>Keys of text, and what is known after \<open>k\<close> writes: memory used, the log and the tables.\<close>

definition text_keys :: "bytes set" where
  "text_keys = {k. \<forall>b \<in> set k. 1 < b}"

lemma prefix_safe_text_keys: "prefix_safe text_keys"
  unfolding text_keys_def by (rule prefix_safe_text)

definition settled ::
  "nat \<Rightarrow> bytes \<Rightarrow> DBImpl \<Rightarrow> Dir \<Rightarrow> (bytes \<Rightarrow> LookupState) \<Rightarrow> nat \<Rightarrow> u64 \<Rightarrow> u64 set \<Rightarrow> bool" where
  "settled k name db dir f u l tabs \<longleftrightarrow> db_holds text_keys name (2 * k + 2) (k + 1) db dir f \<and>
     ApproximateMemoryUsage (db_mem db) = u \<and> log_number db = l \<and> next_file_number db = l + 1 \<and>
     files_in dir = insert (LogFileName name l) (TableFileName name ` tabs)"

lemma perfect_write_env: "perfect_env env \<Longrightarrow> write_env env"
  by (simp add: perfect_env_def write_env_def good_env_def reads_settled_def)

definition grown :: "nat \<Rightarrow> op \<Rightarrow> nat" where
  "grown u x = u + op_size x + sizeof_Node + 8"

lemma op_settled:
  assumes st: "settled k name db dir f u l tabs" and env: "perfect_env env"
    and x: "op_key x \<in> text_keys" "u + op_size x + 256 < 2 ^ 32" and k: "k < 2 ^ 50"
  obtains s db' dir' where "DBImpl_op env x db dir = Some (s, db', dir')" "ok s"
    "if grown u x < kMaxMemTableBytes then settled (Suc k) name db' dir' (apply_op view_put view_delete x f) (grown u x) l tabs
     else settled (Suc k) name db' dir' (apply_op view_put view_delete x f) sizeof_Node (l + 2) (insert (l + 1) tabs)"
proof -
  let ?f = "apply_op view_put view_delete x f"
  have h: "db_holds text_keys name (2 * k + 2) (k + 1) db dir f" and u: "ApproximateMemoryUsage (db_mem db) = u"
    and l: "log_number db = l" "next_file_number db = l + 1"
    and fs: "files_in dir = insert (LogFileName name l) (TableFileName name ` tabs)"
    using st unfolding settled_def by blast+
  have room: "mem_room db x" using x(2) u by (simp add: mem_room_def)
  have b: "2 * k + 2 + 2 < 2 ^ 64" "k + 1 + 1 \<le> 2 ^ 56" using k by simp_all
  have takes: "log_takes env x db" using log_takes_never_short [OF h] env by (simp add: perfect_env_def)
  obtain r where r: "DBImpl_op env x db dir = Some r" "outcome text_keys name (2 * k + 2 + 2) (k + 1 + 1) ?f r" "ok (fst r)"
    using DBImpl_op_outcome [OF h prefix_safe_text_keys x(1) b perfect_write_env [OF env] room takes] env by blast
  obtain s db' dir' where rr: "r = (s, db', dir')" by (cases r)
  have s: "ok s" using r(3) rr by simp
  then have h': "db_holds text_keys name (2 * Suc k + 2) (Suc k + 1) db' dir' ?f"
    using r(2) by (simp add: rr outcome_def)
  obtain n bs nums tss0 tss es where up: "db_up name db dir n bs nums tss0 tss es" "n + num_ops bs \<le> k + 1"
    using h unfolding db_holds_def by blast
  then have us: "ApproximateMemoryUsage (db_mem db) = ops_usage (concat bs)" and name: "dbname db = name"
    unfolding db_up_def by blast+
  have g: "ops_usage (concat bs @ [x]) = grown u x"
    using us u by (cases x) (simp_all add: grown_def usage_put_def usage_delete_def)
  have "batch_ok [x]" using room by (cases x) (simp_all add: batch_ok_def mem_room_def)
  moreover obtain w0 where "db_log db = Some w0" using up(1) unfolding db_up_def by blast
  moreover from this have "ok (fst (LogWriter_AddRecord (env_os env (LogFileName name (log_number db)))
      (enc_batch (word_of_nat (n + num_ops bs)) [x]) w0))"
    using takes unfolding log_takes_ok [OF h \<open>db_log db = Some w0\<close>] log_add_def op_record(1) [OF up(1) room] name by simp
  moreover have "flushes (env_os env p)" for p using env by (simp_all add: perfect_env_def)
  moreover have "n + num_ops bs + length [x] \<le> k + 1 + 1" using up(2) by simp
  ultimately obtain db1 es1 where w: "db_up name db1 dir n (bs @ [[x]]) nums tss0 tss es1"
    "next_file_number db1 = next_file_number db" "log_number db1 = log_number db"
    "ApproximateMemoryUsage (db_mem db1) = ops_usage (concat bs @ [x])"
    "DBImpl_Write env (enc_batch 0 [x]) db dir =
      (if ApproximateMemoryUsage (db_mem db1) \<ge> kMaxMemTableBytes then FlushMemTable env db1 dir else Some (Status_OK, db1, dir))"
    using b(2) by (elim DBImpl_Write_run [OF up(1), of "[x]" "k + 1 + 1" env w0 0, rotated -1]) simp_all
  note w = w(1-3) w(4) [unfolded g] w(5) [unfolded w(4) g]
  show ?thesis
  proof (cases "grown u x < kMaxMemTableBytes")
    case True
    then have "s = Status_OK" "db' = db1" "dir' = dir" using r(1) w(5) by (simp_all add: rr DBImpl_op_Write)
    then have "settled (Suc k) name db' dir' ?f (grown u x) l tabs" using h' w(2-4) l fs by (simp add: settled_def)
    then show ?thesis using that [of s db' dir'] r(1) s True by (simp add: rr)
  next
    case False
    then have fl: "FlushMemTable env db1 dir = Some (s, db', dir')" using r(1) w(5) by (simp add: rr DBImpl_op_Write)
    have m: "mem_rel (db_mem db1) es1" and name1: "dbname db1 = name" using w(1) unfolding db_up_def by blast+
    have "es1 \<noteq> []"
      using False w(4) mem_rel_usage [OF m] by (auto simp: mem_usage_def sizeof_Node_def kMaxHeight_def kMaxMemTableBytes_def)
    moreover have "LogFileName (dbname db1) (log_number db1) \<in> files_in dir" using fs w(3) l name1 by simp
    moreover have "TempFileName (dbname db1) (next_file_number db1) \<notin> files_in dir" unfolding name1 fs by (auto simp: file_paths)
    ultimately have new: "next_file_number db' = l + 1 + 2" "log_number db' = l + 2" "db_mem db' = MemTable_new (env_char env)"
      "files_in dir' = insert (LogFileName name (l + 2)) (insert (TableFileName name (l + 1)) (files_in dir - {LogFileName name l}))"
      using FlushMemTable_files [OF fl s m] w(2,3) l name1 by (simp_all add: add.commute [of 2 l])
    have "LogFileName name l \<notin> TableFileName name ` insert (l + 1) tabs" by (auto simp: file_paths)
    moreover have "ApproximateMemoryUsage (db_mem db') = sizeof_Node"
      using mem_rel_usage [OF mem_rel_new, of "env_char env"] new(3) by (simp add: mem_usage_def)
    moreover have "files_in dir' = insert (LogFileName name (l + 2)) (TableFileName name ` insert (l + 1) tabs)"
      using new(4) fs calculation(1) by auto
    ultimately have "settled (Suc k) name db' dir' ?f sizeof_Node (l + 2) (insert (l + 1) tabs)"
      using h' new(1,2) by (simp add: settled_def)
    then show ?thesis using that [of s db' dir'] r(1) s False by (simp add: rr)
  qed
qed

section \<open>Statements\<close>

definition triple :: "(Demo \<Rightarrow> bool) \<Rightarrow> stmt \<Rightarrow> (Demo \<Rightarrow> bool) \<Rightarrow> bool" where
  "triple P c Q \<longleftrightarrow> (\<forall>st. P st \<longrightarrow> (\<exists>st'. c st = Goes st' \<and> Q st'))"

lemma triple_run_Nil: "triple P (run []) P"
  by (simp add: triple_def)

lemma triple_run_Cons:
  assumes "triple P c Q" "triple Q (run cs) R"
  shows "triple P (run (c # cs)) R"
  unfolding triple_def
proof (intro allI impI)
  fix st assume "P st"
  then obtain st1 where "c st = Goes st1" "Q st1" using assms(1) unfolding triple_def by blast
  then show "\<exists>st'. run (c # cs) st = Goes st' \<and> R st'" using assms(2) by (simp add: triple_def)
qed

lemma triple_ex: "(\<And>x. triple (P x) c Q) \<Longrightarrow> triple (\<lambda>st. \<exists>x. P x st) c Q"
  unfolding triple_def by blast

lemma triple_weaken: "triple P c Q \<Longrightarrow> (\<And>st. Q st \<Longrightarrow> Q' st) \<Longrightarrow> triple P c Q'"
  unfolding triple_def by blast

lemma triple_cong: "triple P c Q \<Longrightarrow> Q = Q' \<Longrightarrow> triple P c Q'"
  by simp

text \<open>The database is open and nothing has gone wrong; then also what is known of its state.\<close>

definition reads_at :: "(bytes \<Rightarrow> LookupState) \<Rightarrow> bytes \<Rightarrow> Demo \<Rightarrow> bool" where
  "reads_at f out st \<longleftrightarrow> cout st = out \<and> cerr st = [] \<and>
     (\<exists>db. handle st = Some db \<and> reads_ok text_keys db f)"

definition demo_at ::
  "bytes \<Rightarrow> nat \<Rightarrow> (bytes \<Rightarrow> LookupState) \<Rightarrow> nat \<Rightarrow> u64 \<Rightarrow> u64 set \<Rightarrow> bytes \<Rightarrow> Demo \<Rightarrow> bool" where
  "demo_at name k f u l tabs out st \<longleftrightarrow> cout st = out \<and> cerr st = [] \<and>
     (\<exists>db. handle st = Some db \<and> settled k name db (disk st) f u l tabs)"

text \<open>What \<open>ShowGet\<close> prints.\<close>

definition answer :: "LookupState \<Rightarrow> bytes" where
  "answer r = (case r of kValue v \<Rightarrow> value_text v | _ \<Rightarrow> str ''NotFound'')"

lemma IsNotFound_NotFound [simp]: "IsNotFound (NotFound m)"
  by (simp add: IsNotFound_def NotFound_def mk_Status_def)

lemma ShowGet_reads:
  assumes "handle st = Some db" "reads_ok text_keys db f" "key \<in> text_keys"
  shows "ShowGet key st = Goes (st\<lparr>cout := cout st @ get_line key (answer (f key))\<rparr>)"
  using assms by (cases "f key")
    (auto simp: ShowGet_def reads_ok_def get_result_def answer_def print_def)

lemma print_at: "triple (demo_at name k f u l tabs out) (print bs) (demo_at name k f u l tabs (out @ bs))"
  by (simp add: triple_def demo_at_def print_def)

lemma Banner_at:
  "triple (demo_at name k f u l tabs out) (Banner title)
    (demo_at name k f u l tabs (out @ banner_text title))"
  unfolding Banner_def by (rule print_at)

lemma ShowGet_at:
  assumes "key \<in> text_keys"
  shows "triple (demo_at name k f u l tabs out) (ShowGet key) (demo_at name k f u l tabs (out @ get_line key (answer (f key))))"
  unfolding triple_def
proof (intro allI impI)
  fix st assume st: "demo_at name k f u l tabs out st"
  then obtain db where db: "handle st = Some db" "settled k name db (disk st) f u l tabs" unfolding demo_at_def by blast
  then have "db_holds text_keys name (2 * k + 2) (k + 1) db (disk st) f" by (simp add: settled_def)
  note reads = db_holds_reads [OF this prefix_safe_text_keys]
  from ShowGet_reads [OF db(1) reads assms] st
  show "\<exists>st'. ShowGet key st = Goes st' \<and> demo_at name k f u l tabs (out @ get_line key (answer (f key))) st'"
    by (simp add: demo_at_def)
qed

lemma ShowGet_reads_at:
  assumes "key \<in> text_keys"
  shows "triple (reads_at f out) (ShowGet key) (reads_at f (out @ get_line key (answer (f key))))"
  unfolding triple_def
proof (intro allI impI)
  fix st assume st: "reads_at f out st"
  then obtain db where db: "handle st = Some db" "reads_ok text_keys db f" unfolding reads_at_def by blast
  from ShowGet_reads [OF db assms] st db
  show "\<exists>st'. ShowGet key st = Goes st' \<and> reads_at f (out @ get_line key (answer (f key))) st'"
    by (simp add: reads_at_def)
qed

lemma op_at:
  assumes "\<And>n. perfect_env (sys_env sys n)" "op_key x \<in> text_keys" "op_size x < 2 ^ 31" "u < kMaxMemTableBytes" "k < 2 ^ 50"
  shows "triple (demo_at name k f u l tabs out) (Ensure_op sys x)
    (if grown u x < kMaxMemTableBytes
     then demo_at name (Suc k) (apply_op view_put view_delete x f) (grown u x) l tabs out
     else demo_at name (Suc k) (apply_op view_put view_delete x f) sizeof_Node (l + 2) (insert (l + 1) tabs) out)"
  unfolding triple_def
proof (intro allI impI)
  fix st assume st: "demo_at name k f u l tabs out st"
  then obtain db where db: "handle st = Some db" "settled k name db (disk st) f u l tabs" unfolding demo_at_def by blast
  have "u + op_size x + 256 < 2 ^ 32" using assms(3,4) by (simp add: kMaxMemTableBytes_def)
  from op_settled [OF db(2) assms(1) assms(2) this assms(5)] obtain s db' dir' where
    r: "DBImpl_op (sys_env sys (turn st)) x db (disk st) = Some (s, db', dir')" "ok s"
    "if grown u x < kMaxMemTableBytes then settled (Suc k) name db' dir' (apply_op view_put view_delete x f) (grown u x) l tabs
     else settled (Suc k) name db' dir' (apply_op view_put view_delete x f) sizeof_Node (l + 2) (insert (l + 1) tabs)" .
  then show "\<exists>st'. Ensure_op sys x st = Goes st' \<and>
    (if grown u x < kMaxMemTableBytes
     then demo_at name (Suc k) (apply_op view_put view_delete x f) (grown u x) l tabs out
     else demo_at name (Suc k) (apply_op view_put view_delete x f) sizeof_Node (l + 2) (insert (l + 1) tabs) out) st'"
    using st db(1) by (auto simp: Ensure_op_def Ensure_def demo_at_def split: if_splits)
qed

lemmas op_fits_at = op_at [THEN triple_cong, OF _ _ _ _ _ if_P]
lemmas op_flushes_at = op_at [THEN triple_cong, OF _ _ _ _ _ if_not_P]

section \<open>The bulk load\<close>

text \<open>Keys and values of the load: their lengths and that the keys are different.\<close>

lemma length_to_string_nat: "n < 10 ^ Suc d \<Longrightarrow> length (to_string_nat n) \<le> Suc d"
proof (induction d arbitrary: n)
  case 0
  then show ?case by (subst to_string_nat.simps) simp
next
  case (Suc d)
  have "n div 10 < 10 ^ Suc d" using Suc.prems by simp
  from Suc.IH [OF this] show ?case by (subst to_string_nat.simps) simp
qed

lemma digits_value_zeros: "digits_value (replicate k 48 @ s) = digits_value s"
  by (induction k) (simp_all add: digits_value_def)

lemma bulk_shape:
  assumes "i < 1000000"
  shows "bulk_key i = str ''bulk:'' @ dec_pad 6 i" "length (bulk_key i) = 11" "length (bulk_value i) = 93"
    "bulk_key i \<in> text_keys"
proof -
  have "length (to_string_nat i) \<le> Suc 5" by (rule length_to_string_nat) (use assms in simp)
  then have l: "length (dec_pad 6 i) = 6" "length (dec_pad 80 i) = 80" by (simp_all add: dec_pad_def)
  show k: "bulk_key i = str ''bulk:'' @ dec_pad 6 i" using l(1) by (simp add: bulk_key_def snprintf_def str_def)
  show "length (bulk_key i) = 11" "length (bulk_value i) = 93"
    using l by (simp_all add: k bulk_value_def snprintf_def str_def)
  have "1 < b" if "is_digit b" for b :: byte using that by (simp add: is_digit_def word_le_nat_alt word_less_nat_alt)
  then have "\<forall>b \<in> set (dec_pad 6 i). 1 < b"
    using to_string_nat_digits [of i] by (auto simp: dec_pad_def list_all_iff)
  then show "bulk_key i \<in> text_keys" by (auto simp: k text_keys_def str_def)
qed

lemma bulk_key_inj: "i < 1000000 \<Longrightarrow> j < 1000000 \<Longrightarrow> bulk_key i = bulk_key j \<longleftrightarrow> i = j"
proof
  assume "i < 1000000" "j < 1000000" "bulk_key i = bulk_key j"
  then have "dec_pad 6 i = dec_pad 6 j" by (simp add: bulk_shape(1))
  then have "digits_value (dec_pad 6 i) = digits_value (dec_pad 6 j)" by simp
  then show "i = j" by (simp add: dec_pad_def digits_value_zeros digits_value_to_string)
qed simp

text \<open>The map after \<open>m\<close> writes from number \<open>i\<close> on.\<close>

fun bulk_puts :: "nat \<Rightarrow> nat \<Rightarrow> (bytes \<Rightarrow> LookupState) \<Rightarrow> bytes \<Rightarrow> LookupState" where
  "bulk_puts i 0 f = f"
| "bulk_puts i (Suc m) f = bulk_puts (Suc i) m (apply_op view_put view_delete (OpPut (bulk_key i) (bulk_value i)) f)"

lemma bulk_puts_other: "length uk \<noteq> 11 \<Longrightarrow> i + m \<le> 1000000 \<Longrightarrow> bulk_puts i m f uk = f uk"
  by (induction m arbitrary: i f) (auto simp: view_put_def bulk_shape(2))

lemma bulk_puts_after: "j < i \<Longrightarrow> i + m \<le> 1000000 \<Longrightarrow> bulk_puts i m f (bulk_key j) = f (bulk_key j)"
  by (induction m arbitrary: i f) (auto simp: view_put_def bulk_key_inj)

lemma bulk_puts_at: "i \<le> j \<Longrightarrow> j < i + m \<Longrightarrow> i + m \<le> 1000000 \<Longrightarrow> bulk_puts i m f (bulk_key j) = kValue (bulk_value j)"
proof (induction m arbitrary: i f)
  case (Suc m)
  then show ?case by (cases "i = j") (simp_all add: bulk_puts_after view_put_def)
qed simp

lemma bulk_puts_append: "bulk_puts (i + m) m' (bulk_puts i m f) = bulk_puts i (m + m') f"
  by (induction m arbitrary: i f) (simp_all, metis add_Suc)

text \<open>The memory one of the writes takes, and the loop while the memtable has room, and when
  it has not.\<close>

definition bulk_size :: nat where "bulk_size = 104 + sizeof_Node + 8"

lemma bulk_grown: "i < 1000000 \<Longrightarrow> grown u (OpPut (bulk_key i) (bulk_value i)) = u + bulk_size"
  by (simp add: grown_def bulk_size_def bulk_shape(2,3))

lemma bulk_op:
  assumes "\<And>n. perfect_env (sys_env sys n)" "i < kBulkCount" "u < kMaxMemTableBytes" "k < 2 ^ 50"
    and "demo_at name k f u l tabs out st"
  obtains st' where "bulk_loop sys i st = bulk_loop sys (Suc i) st'"
    "if u + bulk_size < kMaxMemTableBytes
     then demo_at name (Suc k) (bulk_puts i 1 f) (u + bulk_size) l tabs out st'
     else demo_at name (Suc k) (bulk_puts i 1 f) sizeof_Node (l + 2) (insert (l + 1) tabs) out st'"
proof -
  have i: "i < 1000000" using assms(2) by (simp add: kBulkCount_def)
  have "op_key (OpPut (bulk_key i) (bulk_value i)) \<in> text_keys" "op_size (OpPut (bulk_key i) (bulk_value i)) < 2 ^ 31"
    using i by (simp_all add: bulk_shape(2-4))
  from op_at [OF assms(1) this assms(3,4)] assms(5) obtain st' where
    "Ensure_Put sys (bulk_key i) (bulk_value i) st = Goes st'"
    "if u + bulk_size < kMaxMemTableBytes
     then demo_at name (Suc k) (bulk_puts i 1 f) (u + bulk_size) l tabs out st'
     else demo_at name (Suc k) (bulk_puts i 1 f) sizeof_Node (l + 2) (insert (l + 1) tabs) out st'"
    unfolding triple_def bulk_grown [OF i] by (fastforce split: if_splits)
  moreover have "bulk_loop sys i st = bulk_loop sys (Suc i) st'"
    using calculation(1) assms(2) by (subst bulk_loop.simps) simp
  ultimately show ?thesis by (intro that)
qed

lemma bulk_fits:
  assumes "\<And>n. perfect_env (sys_env sys n)" "i + m \<le> kBulkCount" "u + m * bulk_size < kMaxMemTableBytes" "k + m < 2 ^ 50"
    and "demo_at name k f u l tabs out st"
  shows "\<exists>st'. bulk_loop sys i st = bulk_loop sys (i + m) st' \<and>
    demo_at name (k + m) (bulk_puts i m f) (u + m * bulk_size) l tabs out st'"
  using assms(2-)
proof (induction m arbitrary: i k f u st)
  case 0
  then show ?case by auto
next
  case (Suc m)
  have "i < kBulkCount" "u < kMaxMemTableBytes" "k < 2 ^ 50" "u + bulk_size < kMaxMemTableBytes" using Suc.prems(1-3) by simp_all
  with bulk_op [OF assms(1) this(1-3) Suc.prems(4)] obtain st1 where
    st1: "bulk_loop sys i st = bulk_loop sys (Suc i) st1" "demo_at name (Suc k) (bulk_puts i 1 f) (u + bulk_size) l tabs out st1"
    by auto
  have "Suc i + m \<le> kBulkCount" "u + bulk_size + m * bulk_size < kMaxMemTableBytes" "Suc k + m < 2 ^ 50" using Suc.prems(1-3) by simp_all
  from Suc.IH [OF this st1(2)] st1(1) show ?case by (simp add: add.assoc)
qed

lemma bulk_until_flush:
  assumes env: "\<And>n. perfect_env (sys_env sys n)" and i: "i + Suc m \<le> kBulkCount"
    and u: "u + m * bulk_size < kMaxMemTableBytes" "kMaxMemTableBytes \<le> u + m * bulk_size + bulk_size" and k: "k + m < 2 ^ 50"
    and st: "demo_at name k f u l tabs out st"
  shows "\<exists>st'. bulk_loop sys i st = bulk_loop sys (i + Suc m) st' \<and>
    demo_at name (k + Suc m) (bulk_puts i (Suc m) f) sizeof_Node (l + 2) (insert (l + 1) tabs) out st'"
proof -
  have "i + m \<le> kBulkCount" using i by simp
  from bulk_fits [OF env this u(1) k st] obtain st1 where
    st1: "bulk_loop sys i st = bulk_loop sys (i + m) st1" "demo_at name (k + m) (bulk_puts i m f) (u + m * bulk_size) l tabs out st1"
    by blast
  have "i + m < kBulkCount" using i by simp
  from bulk_op [OF env this u(1) k st1(2)] u(2) obtain st2 where
    st2: "bulk_loop sys (i + m) st1 = bulk_loop sys (Suc (i + m)) st2"
    "demo_at name (Suc (k + m)) (bulk_puts (i + m) 1 (bulk_puts i m f)) sizeof_Node (l + 2) (insert (l + 1) tabs) out st2"
    by (auto simp: not_less simp del: bulk_puts.simps)
  then show ?thesis using st1(1) unfolding bulk_puts_append by (intro exI [of _ st2]) (simp del: bulk_puts.simps)
qed

lemma bulk_done: "bulk_loop sys kBulkCount st = Goes st"
  by (subst bulk_loop.simps) simp

text \<open>The whole load: the memtable fills up twice.\<close>

lemma bulk_loop_at:
  assumes "\<And>n. perfect_env (sys_env sys n)"
  shows "triple (demo_at name 4 f 716 l tabs out) (bulk_loop sys 0)
    (demo_at name 40004 (bulk_puts 0 40000 f) 1212128 (l + 4) (insert (l + 3) (insert (l + 1) tabs)) out)"
  unfolding triple_def
proof (intro allI impI)
  fix st assume st: "demo_at name 4 f 716 l tabs out st"
  have num: "bulk_size = 240" "kMaxMemTableBytes = 4194304" "kBulkCount = 40000" "sizeof_Node = 128"
    by (simp_all add: bulk_size_def sizeof_Node_def kMaxHeight_def kMaxMemTableBytes_def kBulkCount_def)
  obtain st1 where st1: "bulk_loop sys 0 st = bulk_loop sys 17474 st1"
    "demo_at name 17478 (bulk_puts 0 17474 f) 128 (l + 2) (insert (l + 1) tabs) out st1"
    using bulk_until_flush [OF assms _ _ _ _ st, where i = 0 and m = 17473] by (auto simp: num simp del: bulk_puts.simps)
  obtain st2 where st2: "bulk_loop sys 17474 st1 = bulk_loop sys 34950 st2"
    "demo_at name 34954 (bulk_puts 0 34950 f) 128 (l + 4) (insert (l + 3) (insert (l + 1) tabs)) out st2"
    using bulk_until_flush [OF assms _ _ _ _ st1(2), where i = 17474 and m = 17475] bulk_puts_append [of 0 17474 17476 f]
    by (auto simp: num add.assoc simp del: bulk_puts.simps)
  obtain st3 where st3: "bulk_loop sys 34950 st2 = bulk_loop sys 40000 st3"
    "demo_at name 40004 (bulk_puts 0 40000 f) 1212128 (l + 4) (insert (l + 3) (insert (l + 1) tabs)) out st3"
    using bulk_fits [OF assms _ _ _ st2(2), where i = 34950 and m = 5050] bulk_puts_append [of 0 34950 5050 f]
    by (auto simp: num simp del: bulk_puts.simps)
  have "bulk_loop sys 40000 st3 = Goes st3" using bulk_done [of sys st3] by (simp add: num)
  then show "\<exists>st'. bulk_loop sys 0 st = Goes st' \<and>
      demo_at name 40004 (bulk_puts 0 40000 f) 1212128 (l + 4) (insert (l + 3) (insert (l + 1) tabs)) out st'"
    using st1(1) st2(1) st3 by simp
qed

section \<open>The listing\<close>

text \<open>The number in the name of a file of the database.\<close>

lemma digits_no:
  assumes "list_all is_digit s" "b < 48 \<or> 57 < b"
  shows "b \<notin> set s"
proof
  assume "b \<in> set s"
  then have "is_digit b" using assms(1) by (simp add: list_all_iff)
  then show False using assms(2) by (auto simp: is_digit_def)
qed

lemma stoull_to_string: "stoull (to_string n) = Some n"
proof -
  let ?s = "to_string_nat (unat n)"
  have d: "list_all is_digit ?s" "?s \<noteq> []" using to_string_nat_digits by blast+
  then obtain b s where s: "?s = b # s" "is_digit b" by (cases ?s) auto
  have b: "\<not> is_space b" "b \<noteq> 43" "b \<noteq> 45" using s(2) by (auto simp: is_digit_def is_space_def word_le_nat_alt)
  have "takeWhile is_digit ?s = ?s" using d(1) by (simp add: takeWhile_eq_all_conv list_all_iff)
  moreover have "digits_value ?s < 2 ^ 64" using unat_less_pow [of n] by (simp add: digits_value_to_string)
  ultimately show ?thesis
    using b digits_value_to_string [of "unat n"] by (simp add: stoull_def to_string_def s(1))
qed

lemma stem_ext:
  assumes "b \<noteq> []" "46 \<notin> set b" "46 \<notin> set e"
  shows "stem (b @ 46 # e) = b"
proof -
  have "takeWhile (\<lambda>x. x \<noteq> 46) (rev e @ 46 # rev b) = rev e @ takeWhile (\<lambda>x. x \<noteq> 46) (46 # rev b)"
    by (rule takeWhile_append2) (use assms(3) in auto)
  then have "takeWhile (\<lambda>x. x \<noteq> 46) (rev (b @ 46 # e)) = rev e" by simp
  moreover have "b @ 46 # e \<noteq> str ''..''" using assms(1,2) by (cases b) (auto simp: str_def)
  ultimately show ?thesis using assms(1) by (simp add: stem_def Let_def)
qed

lemma number_of_file:
  "stoull (stem (to_string n @ str ''.log'')) = Some n" "stoull (stem (to_string n @ str ''.ldb'')) = Some n"
proof -
  have d: "list_all is_digit (to_string n)" "to_string n \<noteq> []" using to_string_nat_digits by (simp_all add: to_string_def)
  have no: "46 \<notin> set (to_string n)" by (rule digits_no [OF d(1)]) simp
  have s: "str ''.log'' = 46 # str ''log''" "str ''.ldb'' = 46 # str ''ldb''" by (simp_all add: str_def)
  have "46 \<notin> set (str ''log'')" "46 \<notin> set (str ''ldb'')" by (simp_all add: str_def)
  then show "stoull (stem (to_string n @ str ''.log'')) = Some n" "stoull (stem (to_string n @ str ''.ldb'')) = Some n"
    using stem_ext [OF d(2) no] by (simp_all add: s stoull_to_string)
qed

lemma file_names:
  "after_slash (LogFileName name n) = to_string n @ str ''.log''" "after_slash (TableFileName name n) = to_string n @ str ''.ldb''"
proof -
  have "47 \<notin> set (str ''.log'')" "47 \<notin> set (str ''.ldb'')" by (simp_all add: str_def)
  then show "after_slash (LogFileName name n) = to_string n @ str ''.log''" "after_slash (TableFileName name n) = to_string n @ str ''.ldb''"
    using after_slash_name(1) by (simp_all add: LogFileName_def TableFileName_def)
qed

lemma number_files_all:
  assumes "\<And>p. p \<in> files_in dir \<Longrightarrow> stoull (stem (after_slash p)) = Some (num p)"
  shows "number_files dir = Some (map (\<lambda>(p, _). (num p, p)) dir)"
  using assms
proof (induction dir)
  case (Cons x dir)
  then show ?case by (cases x) (simp add: files_in_def)
qed simp

text \<open>A system that shows the directory as it is: in any order, with any part of the open log
  that may have reached it.\<close>

definition shows_disk :: "System \<Rightarrow> bool" where
  "shows_disk sys \<longleftrightarrow> (\<forall>k db dir. (\<forall>w. db_log db = Some w \<longrightarrow> file_ok (lw_file w)) \<longrightarrow>
     (\<exists>shown dir'. sys_view sys k (Some db) dir = Some shown \<and> crash_dir db dir dir' \<and> mset shown = mset dir'))"

lemma ListDir_at:
  assumes sys: "shows_disk sys"
    and ps: "sorted ps" "distinct ps" "set ps = insert (l, LogFileName name l) ((\<lambda>n. (n, TableFileName name n)) ` tabs)"
  shows "triple (demo_at name k f u l tabs out) (ListDir sys name)
    (\<lambda>st. \<exists>kb. demo_at name k f u l tabs
      (out @ name @ dir_colon @ newline @ concat (map (\<lambda>(_, p). list_entry (after_slash p) (kb p)) ps)) st)"
  unfolding triple_def
proof (intro allI impI)
  fix st assume st: "demo_at name k f u l tabs out st"
  then obtain db where db: "handle st = Some db" "settled k name db (disk st) f u l tabs" unfolding demo_at_def by blast
  then have h: "db_holds text_keys name (2 * k + 2) (k + 1) db (disk st) f" and l: "log_number db = l"
    and fs: "files_in (disk st) = insert (LogFileName name l) (TableFileName name ` tabs)" by (simp_all add: settled_def)
  then have name: "dbname db = name" and dist: "distinct (map fst (disk st))"
    by (auto simp: db_holds_def db_up_def names_ok_def)
  obtain shown dir' where v: "sys_view sys (turn st) (handle st) (disk st) = Some shown" "crash_dir db (disk st) dir'"
    "mset shown = mset dir'" using sys db_holds_file_ok [OF h] unfolding shows_disk_def db(1) by blast
  have f': "files_in dir' = files_in (disk st)" "distinct (map fst dir')"
    using v(2) dist fs name l by (auto simp: crash_dir_def files_update distinct_update split: option.splits)
  have "files_in shown = files_in dir'" using v(3) by (simp add: files_in_def flip: set_mset_mset)
  then have f: "files_in shown = insert (LogFileName name l) (TableFileName name ` tabs)" using f'(1) fs by simp
  have "mset (map fst shown) = mset (map fst dir')" using v(3) by simp
  then have dist': "distinct (map fst shown)" using f'(2) mset_eq_imp_distinct_iff by blast
  define num where "num p = the (stoull (stem (after_slash p)))" for p
  define files where "files = map (\<lambda>(p, _). (num p, p)) shown"
  have "\<And>p. p \<in> files_in shown \<Longrightarrow> stoull (stem (after_slash p)) = Some (num p)"
    unfolding f num_def by (auto simp: number_of_file file_names)
  from number_files_all [OF this] have nf: "number_files shown = Some files" by (simp add: files_def)
  have "files = map (\<lambda>p. (num p, p)) (map fst shown)" by (simp add: files_def case_prod_unfold)
  then have "distinct files" "set files = (\<lambda>p. (num p, p)) ` files_in shown"
    using dist' by (auto simp: distinct_map inj_on_def files_in_def)
  moreover have "(\<lambda>p. (num p, p)) ` files_in shown = set ps"
    unfolding f ps(3) by (simp add: num_def number_of_file file_names image_image)
  ultimately have "sort files = ps" using ps(1,2) by (intro sorted_distinct_set_unique) simp_all
  then have "ListDir sys name st = print (name @ dir_colon @ newline @ concat (map (\<lambda>(_, p). list_line shown p) ps)) st"
    using v(1) nf by (simp add: ListDir_def)
  then show "\<exists>st'. ListDir sys name st = Goes st' \<and> (\<exists>kb. demo_at name k f u l tabs
      (out @ name @ dir_colon @ newline @ concat (map (\<lambda>(_, p). list_entry (after_slash p) (kb p)) ps)) st')"
    using st by (auto simp: print_def demo_at_def list_line_def)
qed

section \<open>Opening and closing\<close>

definition fresh :: "bytes \<Rightarrow> Demo \<Rightarrow> bool" where
  "fresh out st \<longleftrightarrow> cout st = out \<and> cerr st = [] \<and> disk st = []"

definition closed_at :: "bytes \<Rightarrow> nat \<Rightarrow> (bytes \<Rightarrow> LookupState) \<Rightarrow> bytes \<Rightarrow> Demo \<Rightarrow> bool" where
  "closed_at name k f out st \<longleftrightarrow> cout st = out \<and> cerr st = [] \<and> dir_holds text_keys name (2 * k + 2) (k + 1) (disk st) f"

lemma Banner_fresh:
  "triple (fresh out) (Banner title) (fresh (out @ banner_text title))"
  by (simp add: triple_def fresh_def Banner_def print_def)

lemma print_closed: "triple (closed_at name k f out) (print bs) (closed_at name k f (out @ bs))"
  by (simp add: triple_def closed_at_def print_def)

lemma open_fresh:
  assumes "good_env env"
  obtains db dir where "DB_Open env name [] = Some (Status_OK, Some db, dir)"
    "settled 0 name db dir (\<lambda>_. kNotFoundState) sizeof_Node 1 {}"
proof -
  have "dir_holds text_keys name 1 1 [] (\<lambda>_. kNotFoundState)" by (rule start_holds) simp_all
  from DB_Open_holds [OF assms this] obtain db dir where
    o: "DB_Open env name [] = Some (Status_OK, Some db, dir)" "db_holds text_keys name (1 + 1) 1 db dir (\<lambda>_. kNotFoundState)" by auto
  have "log_number db = 1" "next_file_number db = 2" "files_in dir = {LogFileName name 1}"
    using o(1) assms by (auto simp: DB_Open_def Init_def ListFiles_def DBImpl_new_def good_env_def open_env_def Let_def
      dir_create_def files_in_def split: if_splits)
  then show ?thesis using that [OF o(1)] o(2) empty_db_usage [OF o(2)] by (simp add: settled_def one_add_one)
qed

lemma Ensure_Open_fresh:
  assumes "\<And>n. perfect_env (sys_env sys n)"
  shows "triple (fresh out) (Ensure_Open sys name) (demo_at name 0 (\<lambda>_. kNotFoundState) sizeof_Node 1 {} out)"
  unfolding triple_def
proof (intro allI impI)
  fix st assume st: "fresh out st"
  have "good_env (sys_env sys (turn st))" using assms by (simp add: perfect_env_def)
  then obtain db dir where "DB_Open (sys_env sys (turn st)) name [] = Some (Status_OK, Some db, dir)"
    "settled 0 name db dir (\<lambda>_. kNotFoundState) sizeof_Node 1 {}" by (rule open_fresh)
  then show "\<exists>st'. Ensure_Open sys name st = Goes st' \<and> demo_at name 0 (\<lambda>_. kNotFoundState) sizeof_Node 1 {} out st'"
    using st by (simp add: fresh_def Ensure_Open_def Ensure_def demo_at_def)
qed

lemma delete_db_at: "triple (demo_at name k f u l tabs out) (delete_db sys) (closed_at name k f out)"
  unfolding triple_def
proof (intro allI impI)
  fix st assume st: "demo_at name k f u l tabs out st"
  then obtain db where db: "handle st = Some db" "settled k name db (disk st) f u l tabs" unfolding demo_at_def by blast
  then have h: "db_holds text_keys name (2 * k + 2) (k + 1) db (disk st) f" by (simp add: settled_def)
  have "crash_dir db (disk st) (DBImpl_destroy (sys_env sys (turn st)) db (disk st))"
    by (rule DBImpl_destroy_crash) (rule db_holds_file_ok [OF h])
  moreover have "outcome text_keys name (2 * k + 2) (k + 1) f (Status_OK, db, disk st)"
    by (rule db_holds_outcome [OF h prefix_safe_text_keys])
  ultimately have "dir_holds text_keys name (2 * k + 2) (k + 1) (DBImpl_destroy (sys_env sys (turn st)) db (disk st)) f"
    by (simp add: outcome_def)
  then show "\<exists>st'. delete_db sys st = Goes st' \<and> closed_at name k f out st'"
    using st db(1) by (simp add: delete_db_def closed_at_def demo_at_def)
qed

lemma Ensure_Open_closed:
  assumes "\<And>n. perfect_env (sys_env sys n)" "k < 2 ^ 50"
  shows "triple (closed_at name k f out) (Ensure_Open sys name) (reads_at f out)"
  unfolding triple_def
proof (intro allI impI)
  fix st assume st: "closed_at name k f out st"
  then have d: "dir_holds text_keys name (2 * k + 2) (k + 1) (disk st) f" by (simp add: closed_at_def)
  have g: "good_env (sys_env sys (turn st))" using assms(1) by (simp add: perfect_env_def)
  have "2 * k + 2 + 1 < 2 ^ 64" "1 \<le> 2 * k + 2" "k + 1 \<le> 2 ^ 56" using assms(2) by simp_all
  from reopen_reads [OF g d prefix_safe_text_keys this] obtain db dir where
    "DB_Open (sys_env sys (turn st)) name (disk st) = Some (Status_OK, Some db, dir)" "reads_ok text_keys db f" by blast
  then show "\<exists>st'. Ensure_Open sys name st = Goes st' \<and> reads_at f out st'"
    using st by (simp add: closed_at_def Ensure_Open_def Ensure_def reads_at_def)
qed

lemma delete_db_reads: "triple (reads_at f out) (delete_db sys) (\<lambda>st. cout st = out \<and> cerr st = [])"
  by (auto simp: triple_def reads_at_def delete_db_def)

section \<open>The four parts of the program\<close>

lemma triple_run_append:
  assumes "triple P (run cs) Q" "triple Q (run ds) R"
  shows "triple P (run (cs @ ds)) R"
proof -
  have "run (cs @ ds) st = (case run cs st of Goes st \<Rightarrow> run ds st | r \<Rightarrow> r)" for st
    by (induction cs arbitrary: st) (auto split: progress.split)
  then show ?thesis using assms by (fastforce simp: triple_def)
qed

lemma write_at:
  assumes "\<And>n. perfect_env (sys_env sys n)" "op_key x \<in> text_keys" "u + op_size x + 136 = u'" "u' < 4194304" "k' = Suc k" "k' < 2 ^ 50"
  shows "triple (demo_at name k f u l tabs out) (Ensure_op sys x)
    (demo_at name k' (apply_op view_put view_delete x f) u' l tabs out)"
proof -
  have k: "k < 2 ^ 50" using assms(5,6) by simp
  have g: "grown u x = u'" using assms(3) by (simp add: grown_def sizeof_Node_def kMaxHeight_def)
  have "op_size x < 2 ^ 31" "u < kMaxMemTableBytes" "grown u x < kMaxMemTableBytes"
    using assms(3,4) by (simp_all add: g kMaxMemTableBytes_def)
  from op_fits_at [OF assms(1,2) this(1,2) k this(3)] show ?thesis unfolding g assms(5) .
qed

lemmas put_at = write_at [of sys "OpPut key v" for sys key v, simplified op_key.simps op_size.simps apply_op.simps]
lemmas delete_at = write_at [of sys "OpDelete key" for sys key, simplified op_key.simps op_size.simps apply_op.simps]

definition no_view :: "bytes \<Rightarrow> LookupState" where
  "no_view uk = kNotFoundState"

definition view_1 :: "bytes \<Rightarrow> LookupState" where
  "view_1 = view_delete (str ''greeting'') (view_put (str ''counter'') (str ''42'')
     (view_put (str ''counter'') (str ''1'') (view_put (str ''greeting'') (str ''hello world'') no_view)))"

lemma text_key: "\<forall>b \<in> set k. 1 < b \<Longrightarrow> k \<in> text_keys"
  by (simp add: text_keys_def)

lemma part_1:
  assumes env: "\<And>n. perfect_env (sys_env sys n)" and sys: "shows_disk sys"
  shows "triple (fresh []) (run
      [Banner section_1, Ensure_Open sys name,
       Ensure_Put sys (str ''greeting'') (str ''hello world''), Ensure_Put sys (str ''counter'') (str ''1''),
       ShowGet (str ''greeting''), Ensure_Put sys (str ''counter'') (str ''42''), ShowGet (str ''counter''),
       Ensure_Delete sys (str ''greeting''), ShowGet (str ''greeting''), ShowGet (str ''never-existed''),
       print newline, ListDir sys name])
    (\<lambda>st. \<exists>a. demo_at name 4 view_1 716 1 {}
      (banner_text section_1 @ get_line (str ''greeting'') (value_text (str ''hello world'')) @
       get_line (str ''counter'') (value_text (str ''42'')) @ get_line (str ''greeting'') (str ''NotFound'') @
       get_line (str ''never-existed'') (str ''NotFound'') @ newline @
       name @ dir_colon @ newline @ list_entry (str ''1.log'') a) st)"
    (is "triple _ _ ?Q")
proof -
  let ?o1 = "banner_text section_1"
  let ?f1 = "view_put (str ''greeting'') (str ''hello world'') no_view"
  let ?f2 = "view_put (str ''counter'') (str ''1'') ?f1"
  let ?f3 = "view_put (str ''counter'') (str ''42'') ?f2"
  let ?o2 = "?o1 @ get_line (str ''greeting'') (value_text (str ''hello world''))"
  let ?o3 = "?o2 @ get_line (str ''counter'') (value_text (str ''42''))"
  let ?o4 = "?o3 @ get_line (str ''greeting'') (str ''NotFound'')"
  let ?o5 = "?o4 @ get_line (str ''never-existed'') (str ''NotFound'')"
  let ?at = "demo_at name"
  have keys: "str ''greeting'' \<in> text_keys" "str ''counter'' \<in> text_keys" "str ''never-existed'' \<in> text_keys"
    by (rule text_key; simp add: str_def)+
  have s1: "triple (fresh []) (Banner section_1) (fresh ?o1)" using Banner_fresh [of "[]"] by simp
  have s2: "triple (fresh ?o1) (Ensure_Open sys name) (?at 0 no_view 128 1 {} ?o1)"
    using Ensure_Open_fresh [OF env, of _ name] by (simp add: sizeof_Node_def kMaxHeight_def no_view_def [abs_def])
  have s3: "triple (?at 0 no_view 128 1 {} ?o1) (Ensure_Put sys (str ''greeting'') (str ''hello world'')) (?at 1 ?f1 283 1 {} ?o1)"
    by (rule put_at [OF env keys(1)]) (simp_all add: str_def)
  have s4: "triple (?at 1 ?f1 283 1 {} ?o1) (Ensure_Put sys (str ''counter'') (str ''1'')) (?at 2 ?f2 427 1 {} ?o1)"
    by (rule put_at [OF env keys(2)]) (simp_all add: str_def)
  have s5: "triple (?at 2 ?f2 427 1 {} ?o1) (ShowGet (str ''greeting'')) (?at 2 ?f2 427 1 {} ?o2)"
    using ShowGet_at [OF keys(1), of name 2 ?f2] by (simp add: answer_def view_put_def str_def)
  have s6: "triple (?at 2 ?f2 427 1 {} ?o2) (Ensure_Put sys (str ''counter'') (str ''42'')) (?at 3 ?f3 572 1 {} ?o2)"
    by (rule put_at [OF env keys(2)]) (simp_all add: str_def)
  have s7: "triple (?at 3 ?f3 572 1 {} ?o2) (ShowGet (str ''counter'')) (?at 3 ?f3 572 1 {} ?o3)"
    using ShowGet_at [OF keys(2), of name 3 ?f3 _ _ _ ?o2] by (simp add: answer_def view_put_def)
  have s8: "triple (?at 3 ?f3 572 1 {} ?o3) (Ensure_Delete sys (str ''greeting'')) (?at 4 view_1 716 1 {} ?o3)"
    unfolding view_1_def by (rule delete_at [OF env keys(1)]) (simp_all add: str_def)
  have s9: "triple (?at 4 view_1 716 1 {} ?o3) (ShowGet (str ''greeting'')) (?at 4 view_1 716 1 {} ?o4)"
    using ShowGet_at [OF keys(1), of name 4 view_1 _ _ _ ?o3] by (simp add: answer_def view_1_def view_delete_def)
  have s10: "triple (?at 4 view_1 716 1 {} ?o4) (ShowGet (str ''never-existed'')) (?at 4 view_1 716 1 {} ?o5)"
    using ShowGet_at [OF keys(3), of name 4 view_1 _ _ _ ?o4]
    by (simp add: answer_def view_1_def view_delete_def view_put_def no_view_def str_def)
  have s11: "triple (?at 4 view_1 716 1 {} ?o5) (print newline) (?at 4 view_1 716 1 {} (?o5 @ newline))" by (rule print_at)
  have "triple (?at 4 view_1 716 1 {} (?o5 @ newline)) (ListDir sys name)
      (\<lambda>st. \<exists>kb. ?at 4 view_1 716 1 {} ((?o5 @ newline) @ name @ dir_colon @ newline @
        concat (map (\<lambda>(_, p). list_entry (after_slash p) (kb p)) [(1 :: u64, LogFileName name 1)])) st)"
    by (rule ListDir_at [OF sys]) simp_all
  moreover have "after_slash (LogFileName name 1) = str ''1.log''"
    by (simp add: file_names to_string_def to_string_nat.simps str_def)
  ultimately have s12: "triple (?at 4 view_1 716 1 {} (?o5 @ newline)) (ListDir sys name) ?Q"
    by (force simp: triple_def)
  show ?thesis
    by (rule triple_run_Cons [OF s1 triple_run_Cons [OF s2 triple_run_Cons [OF s3 triple_run_Cons [OF s4
      triple_run_Cons [OF s5 triple_run_Cons [OF s6 triple_run_Cons [OF s7 triple_run_Cons [OF s8 triple_run_Cons [OF s9
      triple_run_Cons [OF s10 triple_run_Cons [OF s11 triple_run_Cons [OF s12 triple_run_Nil]]]]]]]]]]]])
qed

definition view_2 :: "bytes \<Rightarrow> LookupState" where
  "view_2 = bulk_puts 0 40000 view_1"

lemma part_2:
  assumes env: "\<And>n. perfect_env (sys_env sys n)" and sys: "shows_disk sys"
  shows "triple (demo_at name 4 view_1 716 1 {} out) (run
      [Banner section_2, bulk_loop sys 0, print (bulk_done_1 @ to_string_nat kBulkCount @ bulk_done_2 @ newline), ListDir sys name])
    (\<lambda>st. \<exists>b c d. demo_at name 40004 view_2 1212128 5 {2, 4}
      (out @ banner_text section_2 @ bulk_done_1 @ to_string_nat kBulkCount @ bulk_done_2 @ newline @
       name @ dir_colon @ newline @ list_entry (str ''2.ldb'') b @ list_entry (str ''4.ldb'') c @ list_entry (str ''5.log'') d) st)"
    (is "triple _ _ ?Q")
proof -
  let ?at = "demo_at name"
  let ?o1 = "out @ banner_text section_2"
  let ?o2 = "?o1 @ bulk_done_1 @ to_string_nat kBulkCount @ bulk_done_2 @ newline"
  have s1: "triple (?at 4 view_1 716 1 {} out) (Banner section_2) (?at 4 view_1 716 1 {} ?o1)" by (rule Banner_at)
  have s2: "triple (?at 4 view_1 716 1 {} ?o1) (bulk_loop sys 0) (?at 40004 view_2 1212128 5 {2, 4} ?o1)"
    using bulk_loop_at [OF env, of name view_1 1 "{}" ?o1] by (simp add: view_2_def insert_commute)
  have s3: "triple (?at 40004 view_2 1212128 5 {2, 4} ?o1) (print (bulk_done_1 @ to_string_nat kBulkCount @ bulk_done_2 @ newline))
      (?at 40004 view_2 1212128 5 {2, 4} ?o2)" by (rule print_at)
  let ?ps = "[(2 :: u64, TableFileName name 2), (4, TableFileName name 4), (5, LogFileName name 5)]"
  have "triple (?at 40004 view_2 1212128 5 {2, 4} ?o2) (ListDir sys name)
      (\<lambda>st. \<exists>kb. ?at 40004 view_2 1212128 5 {2, 4} (?o2 @ name @ dir_colon @ newline @
        concat (map (\<lambda>(_, p). list_entry (after_slash p) (kb p)) ?ps)) st)"
    by (rule ListDir_at [OF sys]) auto
  moreover have "after_slash (TableFileName name 2) = str ''2.ldb''" "after_slash (TableFileName name 4) = str ''4.ldb''"
    "after_slash (LogFileName name 5) = str ''5.log''"
    by (simp_all add: file_names to_string_def to_string_nat.simps str_def)
  ultimately have s4: "triple (?at 40004 view_2 1212128 5 {2, 4} ?o2) (ListDir sys name) ?Q"
    by (force simp: triple_def)
  show ?thesis
    by (rule triple_run_Cons [OF s1 triple_run_Cons [OF s2 triple_run_Cons [OF s3 triple_run_Cons [OF s4 triple_run_Nil]]]])
qed

lemma bulk_keys:
  "str ''bulk:000000'' = bulk_key 0" "str ''bulk:000001'' = bulk_key 1" "str ''bulk:010000'' = bulk_key 10000"
proof -
  have r: "replicate 5 x = [x, x, x, x, x]" for x :: byte by (simp add: numeral_eq_Suc)
  have "to_string_nat 0 = str ''0''" "to_string_nat 1 = str ''1''" "to_string_nat 10000 = str ''10000''"
    by (simp_all add: to_string_nat.simps str_def)
  then show "str ''bulk:000000'' = bulk_key 0" "str ''bulk:000001'' = bulk_key 1" "str ''bulk:010000'' = bulk_key 10000"
    by (simp_all add: bulk_key_def snprintf_def dec_pad_def str_def r)
qed

definition view_3 :: "bytes \<Rightarrow> LookupState" where
  "view_3 = view_delete (bulk_key 1) (view_put (bulk_key 0) (str ''LATEST-IN-MEM'') view_2)"

lemma part_3:
  assumes env: "\<And>n. perfect_env (sys_env sys n)"
  shows "triple (demo_at name 40004 view_2 1212128 5 {2, 4} out) (run
      [Banner section_3, ShowGet (bulk_key 0), Ensure_Put sys (bulk_key 0) (str ''LATEST-IN-MEM''), ShowGet (bulk_key 0),
       Ensure_Delete sys (bulk_key 1), ShowGet (bulk_key 1)])
    (demo_at name 40006 view_3 1212435 5 {2, 4}
      (out @ banner_text section_3 @ get_line (bulk_key 0) (value_text (bulk_value 0)) @
       get_line (bulk_key 0) (value_text (str ''LATEST-IN-MEM'')) @ get_line (bulk_key 1) (str ''NotFound'')))"
proof -
  let ?at = "\<lambda>k f u. demo_at name k f u 5 {2, 4}"
  let ?f = "view_put (bulk_key 0) (str ''LATEST-IN-MEM'') view_2"
  let ?o1 = "out @ banner_text section_3"
  let ?o2 = "?o1 @ get_line (bulk_key 0) (value_text (bulk_value 0))"
  let ?o3 = "?o2 @ get_line (bulk_key 0) (value_text (str ''LATEST-IN-MEM''))"
  let ?o4 = "?o3 @ get_line (bulk_key 1) (str ''NotFound'')"
  have keys: "bulk_key 0 \<in> text_keys" "bulk_key 1 \<in> text_keys" "length (bulk_key 0) = 11" "length (bulk_key 1) = 11"
    by (rule bulk_shape; simp)+
  have s1: "triple (?at 40004 view_2 1212128 out) (Banner section_3) (?at 40004 view_2 1212128 ?o1)" by (rule Banner_at)
  have s2: "triple (?at 40004 view_2 1212128 ?o1) (ShowGet (bulk_key 0)) (?at 40004 view_2 1212128 ?o2)"
    using ShowGet_at [OF keys(1), of name 40004 view_2 _ _ _ ?o1] bulk_puts_at [of 0 0 40000 view_1] by (simp add: answer_def view_2_def)
  have s3: "triple (?at 40004 view_2 1212128 ?o2) (Ensure_Put sys (bulk_key 0) (str ''LATEST-IN-MEM'')) (?at 40005 ?f 1212288 ?o2)"
    by (rule put_at [OF env keys(1)]) (simp_all add: keys str_def)
  have s4: "triple (?at 40005 ?f 1212288 ?o2) (ShowGet (bulk_key 0)) (?at 40005 ?f 1212288 ?o3)"
    using ShowGet_at [OF keys(1), of name 40005 ?f _ _ _ ?o2] by (simp add: answer_def view_put_def)
  have s5: "triple (?at 40005 ?f 1212288 ?o3) (Ensure_Delete sys (bulk_key 1)) (?at 40006 view_3 1212435 ?o3)"
    unfolding view_3_def by (rule delete_at [OF env keys(2)]) (use keys in simp_all)
  have s6: "triple (?at 40006 view_3 1212435 ?o3) (ShowGet (bulk_key 1)) (?at 40006 view_3 1212435 ?o4)"
    using ShowGet_at [OF keys(2), of name 40006 view_3 _ _ _ ?o3] by (simp add: answer_def view_3_def view_delete_def)
  have "triple (?at 40004 view_2 1212128 out) (run
      [Banner section_3, ShowGet (bulk_key 0), Ensure_Put sys (bulk_key 0) (str ''LATEST-IN-MEM''), ShowGet (bulk_key 0),
       Ensure_Delete sys (bulk_key 1), ShowGet (bulk_key 1)]) (?at 40006 view_3 1212435 ?o4)"
    by (rule triple_run_Cons [OF s1 triple_run_Cons [OF s2 triple_run_Cons [OF s3 triple_run_Cons [OF s4
      triple_run_Cons [OF s5 triple_run_Cons [OF s6 triple_run_Nil]]]]]])
  then show ?thesis by simp
qed

lemma view_3_at:
  "view_3 (str ''greeting'') = kDeleted" "view_3 (str ''counter'') = kValue (str ''42'')"
  "view_3 (bulk_key 0) = kValue (str ''LATEST-IN-MEM'')" "view_3 (bulk_key 1) = kDeleted"
  "view_3 (bulk_key 10000) = kValue (bulk_value 10000)"
proof -
  have l: "length (bulk_key 0) = 11" "length (bulk_key 1) = 11" by (rule bulk_shape; simp)+
  have "uk \<noteq> bulk_key 0" "uk \<noteq> bulk_key 1" if "length uk \<noteq> 11" for uk using that l by auto
  then have o: "view_3 uk = view_1 uk" if "length uk \<noteq> 11" for uk
    using that bulk_puts_other [of uk 0 40000 view_1] by (simp add: view_3_def view_2_def view_delete_def view_put_def)
  show "view_3 (str ''greeting'') = kDeleted" "view_3 (str ''counter'') = kValue (str ''42'')"
    using o [of "str ''greeting''"] o [of "str ''counter''"] by (simp_all add: view_1_def view_delete_def view_put_def str_def)
  show "view_3 (bulk_key 1) = kDeleted" "view_3 (bulk_key 0) = kValue (str ''LATEST-IN-MEM'')"
    using bulk_key_inj [of 0 1] by (simp_all add: view_3_def view_delete_def view_put_def)
  show "view_3 (bulk_key 10000) = kValue (bulk_value 10000)"
    using bulk_key_inj [of 10000 0] bulk_key_inj [of 10000 1] bulk_puts_at [of 0 10000 40000 view_1]
    by (simp add: view_3_def view_2_def view_delete_def view_put_def)
qed

lemma part_4:
  assumes env: "\<And>n. perfect_env (sys_env sys n)"
  shows "triple (demo_at name 40006 view_3 1212435 5 {2, 4} out) (run
      [Banner section_4, delete_db sys, print (reopening @ newline), Ensure_Open sys name,
       ShowGet (str ''greeting''), ShowGet (str ''counter''), ShowGet (bulk_key 0), ShowGet (bulk_key 1), ShowGet (bulk_key 10000),
       delete_db sys])
    (\<lambda>st. cout st = out @ banner_text section_4 @ reopening @ newline @
       get_line (str ''greeting'') (str ''NotFound'') @ get_line (str ''counter'') (value_text (str ''42'')) @
       get_line (bulk_key 0) (value_text (str ''LATEST-IN-MEM'')) @ get_line (bulk_key 1) (str ''NotFound'') @
       get_line (bulk_key 10000) (value_text (bulk_value 10000)) \<and> cerr st = [])"
proof -
  let ?o1 = "out @ banner_text section_4"
  let ?o2 = "?o1 @ reopening @ newline"
  let ?line = "\<lambda>key. get_line key (answer (view_3 key))"
  have keys: "str ''greeting'' \<in> text_keys" "str ''counter'' \<in> text_keys" by (rule text_key; simp add: str_def)+
  have bulk: "bulk_key 0 \<in> text_keys" "bulk_key 1 \<in> text_keys" "bulk_key 10000 \<in> text_keys" by (rule bulk_shape; simp)+
  have s1: "triple (demo_at name 40006 view_3 1212435 5 {2, 4} out) (Banner section_4) (demo_at name 40006 view_3 1212435 5 {2, 4} ?o1)"
    by (rule Banner_at)
  have s3: "triple (closed_at name 40006 view_3 ?o1) (print (reopening @ newline)) (closed_at name 40006 view_3 ?o2)"
    by (rule print_closed)
  have s4: "triple (closed_at name 40006 view_3 ?o2) (Ensure_Open sys name) (reads_at view_3 ?o2)"
    by (rule Ensure_Open_closed [OF env]) simp
  note g = keys [THEN ShowGet_reads_at] bulk [THEN ShowGet_reads_at]
  have "triple (demo_at name 40006 view_3 1212435 5 {2, 4} out) (run
      [Banner section_4, delete_db sys, print (reopening @ newline), Ensure_Open sys name,
       ShowGet (str ''greeting''), ShowGet (str ''counter''), ShowGet (bulk_key 0), ShowGet (bulk_key 1), ShowGet (bulk_key 10000),
       delete_db sys])
    (\<lambda>st. cout st = ((((?o2 @ ?line (str ''greeting'')) @ ?line (str ''counter'')) @ ?line (bulk_key 0)) @ ?line (bulk_key 1)) @
       ?line (bulk_key 10000) \<and> cerr st = [])"
    by (rule triple_run_Cons [OF s1 triple_run_Cons [OF delete_db_at triple_run_Cons [OF s3 triple_run_Cons [OF s4
      triple_run_Cons [OF g(1) triple_run_Cons [OF g(2) triple_run_Cons [OF g(3) triple_run_Cons [OF g(4) triple_run_Cons [OF g(5)
      triple_run_Cons [OF delete_db_reads triple_run_Nil]]]]]]]]]])
  then show ?thesis by (simp add: view_3_at answer_def del: One_nat_def)
qed

section \<open>The output\<close>

text \<open>Before the first statement, on a directory that is empty.\<close>

definition Demo_start :: Demo where
  "Demo_start = \<lparr>cout = [], cerr = [], handle = None, disk = [], turn = 0\<rparr>"

text \<open>
  C14. The example program works as its comments say, to the last line: on an empty directory
  and a system that does not fail, it ends normally with nothing on \<open>cerr\<close>; the first
  listing shows the log alone, the load of 40000 values fills the memtable exactly twice, so
  that the second listing shows the tables 2 and 4 and the log 5, and every \<open>Get\<close>, also
  after closing and opening again, prints the newest value or that there is none.
\<close>

theorem demo_output:
  fixes sys :: System and argv :: "bytes list"
  assumes "\<forall>n. perfect_env (sys_env sys n)" "shows_disk sys"
  defines "name \<equiv> if length argv \<ge> 2 then argv ! 1 else kDbDir"
  shows "\<exists>st a b c d. Demo_main sys argv Demo_start = Goes st \<and> cerr st = [] \<and>
    cout st =
      banner_text section_1 @
      get_line (str ''greeting'') (value_text (str ''hello world'')) @
      get_line (str ''counter'') (value_text (str ''42'')) @
      get_line (str ''greeting'') (str ''NotFound'') @
      get_line (str ''never-existed'') (str ''NotFound'') @ newline @
      name @ dir_colon @ newline @ list_entry (str ''1.log'') a @
      banner_text section_2 @ bulk_done_1 @ str ''40000'' @ bulk_done_2 @ newline @
      name @ dir_colon @ newline @ list_entry (str ''2.ldb'') b @ list_entry (str ''4.ldb'') c @ list_entry (str ''5.log'') d @
      banner_text section_3 @
      get_line (str ''bulk:000000'') (value_text (bulk_value 0)) @
      get_line (str ''bulk:000000'') (value_text (str ''LATEST-IN-MEM'')) @
      get_line (str ''bulk:000001'') (str ''NotFound'') @
      banner_text section_4 @ reopening @ newline @
      get_line (str ''greeting'') (str ''NotFound'') @
      get_line (str ''counter'') (value_text (str ''42'')) @
      get_line (str ''bulk:000000'') (value_text (str ''LATEST-IN-MEM'')) @
      get_line (str ''bulk:000001'') (str ''NotFound'') @
      get_line (str ''bulk:010000'') (value_text (bulk_value 10000))"
    (is "\<exists>st a b c d. _ \<and> _ \<and> cout st = ?o a b c d")
proof -
  have env: "\<And>n. perfect_env (sys_env sys n)" using assms(1) by blast
  let ?P1 = "[Banner section_1, Ensure_Open sys name,
       Ensure_Put sys (str ''greeting'') (str ''hello world''), Ensure_Put sys (str ''counter'') (str ''1''),
       ShowGet (str ''greeting''), Ensure_Put sys (str ''counter'') (str ''42''), ShowGet (str ''counter''),
       Ensure_Delete sys (str ''greeting''), ShowGet (str ''greeting''), ShowGet (str ''never-existed''),
       print newline, ListDir sys name]"
  let ?P2 = "[Banner section_2, bulk_loop sys 0, print (bulk_done_1 @ to_string_nat kBulkCount @ bulk_done_2 @ newline), ListDir sys name]"
  let ?P3 = "[Banner section_3, ShowGet (bulk_key 0), Ensure_Put sys (bulk_key 0) (str ''LATEST-IN-MEM''), ShowGet (bulk_key 0),
       Ensure_Delete sys (bulk_key 1), ShowGet (bulk_key 1)]"
  let ?P4 = "[Banner section_4, delete_db sys, print (reopening @ newline), Ensure_Open sys name,
       ShowGet (str ''greeting''), ShowGet (str ''counter''), ShowGet (bulk_key 0), ShowGet (bulk_key 1), ShowGet (bulk_key 10000),
       delete_db sys]"
  have count: "to_string_nat kBulkCount = str ''40000''" by (simp add: kBulkCount_def to_string_nat.simps str_def)
  have main: "Demo_main sys argv = run (?P1 @ ?P2 @ ?P3 @ ?P4)"
    by (simp add: Demo_main_def name_def bulk_keys Let_def del: One_nat_def)
  have "triple (fresh []) (run (?P1 @ ?P2 @ ?P3 @ ?P4)) (\<lambda>st. \<exists>a b c d. cout st = ?o a b c d \<and> cerr st = [])"
    unfolding bulk_keys
    by (rule triple_run_append [OF part_1 [OF env assms(2)]], rule triple_ex,
      rule triple_run_append [OF part_2 [OF env assms(2)]], rule triple_ex, rule triple_ex, rule triple_ex,
      rule triple_run_append [OF part_3 [OF env]], rule triple_weaken [OF part_4 [OF env]])
      (intro exI, simp add: count del: One_nat_def)
  moreover have "fresh [] Demo_start" by (simp add: fresh_def Demo_start_def)
  ultimately show ?thesis unfolding main triple_def by blast
qed

definition calm_system :: System where
  "calm_system = \<lparr>sys_env = \<lambda>_. calm_env,
     sys_view = \<lambda>_ db dir. Some (case db of None \<Rightarrow> dir | Some db \<Rightarrow> DBImpl_destroy calm_env db dir)\<rparr>"

theorem demo_output_witness:
  "\<exists>st. Demo_main calm_system [str ''demo'', str ''db''] Demo_start = Goes st \<and> cerr st = []"
proof -
  have "shows_disk calm_system"
    unfolding shows_disk_def calm_system_def using DBImpl_destroy_crash by fastforce
  moreover have "\<forall>n. perfect_env (sys_env calm_system n)" by (simp add: calm_system_def)
  ultimately show ?thesis using demo_output [of calm_system "[str ''demo'', str ''db'']"] by blast
qed

end
