(* ===== verification/Spec2Isabelle.thy ===== *)
theory Spec2Isabelle
  imports HashFn DbTypes LogDamage ThreadsCrash Demo
begin

text \<open>
  A verification development for mini-leveldb, a small log-structured key-value store in
  C++.  A write goes to a write-ahead log and then into a memtable; a memtable that has
  grown to 4 MiB is written out as an immutable sorted table and the log starts anew; a
  lookup asks the memtable and then the tables, newest first, and the first layer that
  knows the key decides; opening a directory mounts its tables and replays its logs.

  The parts, bottom up, each with the files it models (the theory of each part holds the
  definitions in the order of the code, then the lemmas about them):

    \<^item> \<open>Prelude\<close>: bytes and machine words, the collections of simplification rules, lemmas on
      lists and words that several parts use.
    \<^item> \<open>Slice\<close>, \<open>Status\<close> (\<open>include/mini-leveldb/slice.h\<close>, \<open>status.h\<close>, \<open>src/util/status.cc\<close>): a slice
      is the list of bytes it shows; a status is a code and a message.
    \<^item> \<open>Coding\<close> (\<open>src/util/coding.cc\<close>), \<open>Crc32c\<close> (\<open>src/util/crc32c.cc\<close>), \<open>HashFn\<close>
      (\<open>src/util/hash.h\<close>): varints and fixed-width integers, the checksum, the hash.
    \<^item> \<open>StdFile\<close>: what the code uses of \<open>cstdio\<close>.  A stream that is written to is its content, the
      length of it that the system has, and a count of the calls made; an \<open>Os\<close> says for
      each call how much of a write is done, whether a flush works, and so on, and a \<open>Reads\<close>
      how much of a file a read returns, so every failure of the library is a value of a
      parameter.  What a crash leaves is any first
      part of the content that contains what was flushed.
    \<^item> \<open>DbFormat\<close> (\<open>src/db/dbformat.h\<close>): internal keys, user key followed by sequence number and
      type, and their order.
    \<^item> \<open>WriteBatch\<close> (\<open>include/mini-leveldb/write_batch.h\<close>, \<open>src/db/write_batch.cc\<close>): the encoded
      batch and its replay; the handler it calls is a pair of functions on a state.
    \<^item> \<open>Arena\<close>, \<open>SkipList\<close>, \<open>MemTable\<close> (\<open>src/util/arena.cc\<close>, \<open>src/db/skiplist.h\<close>,
      \<open>src/db/memtable.cc\<close>): addresses and sizes of what is allocated; the skip list as a
      store of nodes with their next pointers per level; the memtable on top of it.
    \<^item> \<open>Layers\<close>: the specification memtables and tables share, a sorted list of entries and
      the newest version of a key in it.
    \<^item> \<open>LogFormat\<close>, \<open>LogWriter\<close>, \<open>LogReader\<close>, \<open>Wal\<close> (\<open>src/db/log_format.h\<close>, \<open>log_writer.cc\<close>,
      \<open>log_reader.cc\<close>): the log.  \<open>layout\<close> says what bytes a list of fragments is on disk; the
      writer is shown to produce a first part of it, the reader to read it back, cut
      anywhere.
    \<^item> \<open>BlockBuilder\<close>, \<open>Block\<close>, \<open>TableFormat\<close>, \<open>TableBuilder\<close>, \<open>Table\<close> (\<open>src/table\<close>): the table
      files.
    \<^item> \<open>Filename\<close> (\<open>src/db/filename.cc\<close>): names, their parser and the directory scan.
    \<^item> \<open>DbImpl\<close> (\<open>src/db/db_impl.cc\<close>): the database over all of the above.  The directory is a
      list of names and bytes; an \<open>Env\<close> holds what the system answers to one operation.
    \<^item> \<open>Threads\<close> (\<open>mutex_\<close> in \<open>src/db/db_impl.cc\<close>): the bodies of \<open>Write\<close> and \<open>Get\<close> split into their
      statements on the shared state, the statements of all threads interleaved, and a proof
      that the mutex makes the calls appear one after the other; \<open>ThreadsCrash\<close>: such a process
      dying between any two statements, or inside \<open>AddRecord\<close>.
    \<^item> \<open>Demo\<close> (\<open>examples/demo.cc\<close>): the example program as the sequence of its statements,
      with its output in bytes; \<open>std::exit\<close> and uncaught exceptions are outcomes.

  The lemmas about the log damaged in the middle are in \<open>LogDamage\<close>.  Those about the database are
  in eight further theories: \<open>Recovery\<close> (a log, whole or cut, is replayed into a memtable with
  the contents it stands for), \<open>DbOpen\<close> (\<open>Init\<close> brings a database up), \<open>DbFlush\<close> (every outcome of
  a flush leaves database and directory standing for the same map), \<open>DbReopen\<close> (an opening
  that fails leaves the directory standing for what it stood for), \<open>DbWrite\<close> (an operation
  updates that map), \<open>DbRun\<close> (the life of a database as a step relation \<open>db_run\<close> of opening,
  failing to open, writing, failing to write, closing and crashing; its phases are \<open>Up\<close>, \<open>Failed\<close>
  after a write that did not reach the log, and \<open>Down\<close>; its invariant and the properties the user
  sees), \<open>DbTypes\<close> (what a reachable memtable holds can be parsed) and \<open>DbFaults\<close> (what failures
  the code does not handle lead to).

  Interfaces are locales: \<open>byte_codec\<close> and \<open>strict_codec\<close> (an encoding, its decoder and their
  round trip, interpreted for varints, prefixed strings and block handles),
  \<open>burst_checksum\<close> (interpreted for the masked checksum; used for log and blocks),
  \<open>batch_handler\<close> (what replaying a batch may assume of the handler, interpreted twice for
  the memtable), \<open>allocator\<close> (the arena), \<open>strict_weak_order\<close> (the comparator of the skip
  list), \<open>lookup_layer\<close> (memtable and table) and \<open>record_source\<close> (the log reader).

  Conventions.  Integers are words of the width the code has; \<open>nat\<close> is used for lengths and
  offsets of byte strings in memory.  An operation whose result is an option gives \<open>None\<close> for
  undefined behaviour: an access outside a block, a null pointer.  One such operation is passed
  over, since it happens whenever a table is opened: \<open>Footer::DecodeFrom\<close> moves its \<open>string_view\<close>
  past the end, the model says so in a component of its result that \<open>Table_Open\<close> does not look
  at, as the code does not look at the view again.  Loops that need not end in the code are
  \<open>partial_function (option)\<close>, where \<open>None\<close> also stands for a loop that does not end; the
  properties state that the result is \<open>Some\<close>.  All other loops are total functions, their
  measures the bytes or nodes left.  There is no fuel.

  What the system is assumed to do is a predicate on its parameters: \<open>perfect_env\<close>, nothing fails;
  \<open>good_env\<close>, files can be opened, read, removed and truncated; \<open>write_env\<close>, no flush fails
  and every file is as in \<open>reads_settled\<close>; \<open>reads_settled\<close>, a file can be read or cannot;
  \<open>log_takes\<close>, all bytes of the record of an operation get into the stream of the log; \<open>shows_disk\<close>,
  a look at the directory shows what a crash would leave of it.

  Bounds.  Fewer than 2 to the 55 steps of \<open>db_run\<close>: each uses at most two file numbers and
  one sequence number, of 64 and 56 bits.  \<open>mem_room\<close>: the entry to be written together
  with the memtable is below 4 GiB, so that the table written from it has offsets of less than
  32 bits, as the restart array of a block needs.  \<open>prefix_safe\<close>: no key of the set considered
  extends another one by a byte 0 or 1 first; for other keys lookups in tables fail,
  as \<open>table_zero_extension_lost\<close> shows of the code.  That no flush fails is needed too:
  \<open>log_flush_failure_ignored\<close> and \<open>unflushed_table_blocks_open\<close> are what happens otherwise.

  Not modelled: the memory order of \<open>std::mutex\<close> and of the atomics of the skip list (statements
  under the mutex are interleaved, each as a whole), \<open>mkdir\<close> of the directory (its result is
  not looked at) and the destructors that only free memory.  Allocation does not fail.
\<close>

end
